(* ===== verification/Prelude.thy ===== *)
theory Prelude
  imports Main "HOL-Library.Word" "HOL-Library.Monad_Syntax"
begin

text \<open>
  Shared vocabulary of the development: the machine integers of the Rust sources and
  their checked, saturating and wrapping operations, the reading of a panic as \<^term>\<open>None\<close>,
  ordered maps (\<open>BTreeMap\<close>) as strictly sorted association lists behind the interface
  \<open>ordered_map\<close>, and the lemma collections the component theories draw on.
\<close>

section \<open>Types\<close>

type_synonym u8 = "8 word"
type_synonym u16 = "16 word"
type_synonym u32 = "32 word"
type_synonym u64 = "64 word"
type_synonym u128 = "128 word"
type_synonym usize = "64 word"
type_synonym Slot = u64
type_synonym Epoch = u64

text \<open>
  A \<open>Pubkey\<close> and a \<open>Hash\<close> are arrays of 32 bytes compared lexicographically; the word read
  big-endian from such an array has the same equality and the same order.
\<close>

type_synonym Pubkey = "256 word"
type_synonym Hash = "256 word"

section \<open>Lemma collections\<close>

named_theorems num_ops \<open>definitions of the integer operations of the Rust standard library\<close>
named_theorems unat_ops \<open>the unsigned value of the results of those operations\<close>

section \<open>Integer operations of the standard library\<close>

definition checked_add :: "'a::len word \<Rightarrow> 'a word \<Rightarrow> 'a word option" where
  "checked_add a b = (if unat a + unat b < 2 ^ LENGTH('a) then Some (a + b) else None)"

definition checked_sub :: "'a::len word \<Rightarrow> 'a word \<Rightarrow> 'a word option" where
  "checked_sub a b = (if b \<le> a then Some (a - b) else None)"

definition saturating_add :: "'a::len word \<Rightarrow> 'a word \<Rightarrow> 'a word" where
  "saturating_add a b = (if unat a + unat b < 2 ^ LENGTH('a) then a + b else - 1)"

definition saturating_sub :: "'a::len word \<Rightarrow> 'a word \<Rightarrow> 'a word" where
  "saturating_sub a b = (if b \<le> a then a - b else 0)"

definition saturating_mul :: "'a::len word \<Rightarrow> 'a word \<Rightarrow> 'a word" where
  "saturating_mul a b = (if unat a * unat b < 2 ^ LENGTH('a) then a * b else - 1)"

lemmas [num_ops] =
  checked_add_def checked_sub_def saturating_add_def saturating_sub_def saturating_mul_def

lemma unat_lt_len: "unat (a :: 'a::len word) < 2 ^ LENGTH('a)"
  by (rule unsigned_less)

lemma unat_add_exact:
  "unat (a :: 'a::len word) + unat b < 2 ^ LENGTH('a) \<Longrightarrow> unat (a + b) = unat a + unat b"
  by (simp add: unat_word_ariths)

lemma unat_inject: "unat a = unat b \<Longrightarrow> a = b"
  by (simp add: word_unat_eq_iff)

lemma unat_of_nat_exact: "n < 2 ^ LENGTH('a) \<Longrightarrow> unat (of_nat n :: 'a::len word) = n"
  by (simp add: unat_of_nat)

lemma unat_sub_exact: "(b :: 'a::len word) \<le> a \<Longrightarrow> unat (a - b) = unat a - unat b"
  by (simp add: unat_sub)

lemma unat_max_word: "unat (- 1 :: 'a::len word) = 2 ^ LENGTH('a) - 1"
  by (simp add: unsigned_minus_1_eq_mask mask_eq_exp_minus_1)

lemma unat_saturating_add [unat_ops]:
  "unat (saturating_add (a :: 'a::len word) b) = min (unat a + unat b) (2 ^ LENGTH('a) - 1)"
proof (cases "unat a + unat b < 2 ^ LENGTH('a)")
  case True
  then show ?thesis by (simp add: saturating_add_def unat_add_exact)
next
  case False
  then show ?thesis by (simp add: saturating_add_def unat_max_word)
qed

lemma unat_saturating_sub [unat_ops]:
  "unat (saturating_sub (a :: 'a::len word) b) = unat a - unat b"
  by (simp add: saturating_sub_def unat_sub word_le_nat_alt)

lemma unat_saturating_mul [unat_ops]:
  "unat (saturating_mul (a :: 'a::len word) b) = min (unat a * unat b) (2 ^ LENGTH('a) - 1)"
proof (cases "unat a * unat b < 2 ^ LENGTH('a)")
  case True
  then show ?thesis by (simp add: saturating_mul_def unat_word_ariths)
next
  case False
  then show ?thesis by (simp add: saturating_mul_def unat_max_word)
qed

lemma unat_ucast_up:
  "LENGTH('a) \<le> LENGTH('b) \<Longrightarrow> unat (ucast (x :: 'a::len word) :: 'b::len word) = unat x"
  using less_le_trans [OF unat_lt_len [of x] power_increasing [of "LENGTH('a)" "LENGTH('b)" "2 :: nat"]]
  by (simp add: unsigned_ucast_eq take_bit_nat_eq_self)

lemma unat_min [unat_ops]: "unat (min a b) = min (unat a) (unat b)"
  by (simp add: min_def word_le_nat_alt)

lemma checked_add_Some [unat_ops]:
  "checked_add (a :: 'a::len word) b = Some c \<longleftrightarrow> unat c = unat a + unat b"
  by (auto simp: checked_add_def unat_add_exact word_unat_eq_iff) (metis unat_lt_len)

lemma checked_sub_Some [unat_ops]:
  "checked_sub (a :: 'a::len word) b = Some c \<longleftrightarrow> unat a = unat c + unat b"
  by (auto simp: checked_sub_def unat_sub word_le_nat_alt word_unat_eq_iff)

lemma saturating_add_sub_cancel:
  assumes "unat (a :: 'a::len word) + unat b < 2 ^ LENGTH('a)"
  shows "saturating_sub (saturating_add a b) b = a"
  using assms by (simp add: word_unat_eq_iff unat_ops)

lemma saturating_add_mono:
  "(a :: 'a::len word) \<le> a' \<Longrightarrow> saturating_add a b \<le> saturating_add a' b"
  by (simp add: word_le_nat_alt unat_ops)

lemma saturating_add_ge: "(a :: 'a::len word) \<le> saturating_add a b"
  using unat_lt_len [of a] unfolding word_le_nat_alt unat_ops by linarith

section \<open>Ordered maps\<close>

text \<open>
  \<open>BTreeMap\<close> as the list of its entries in key order. The interface names the laws its
  clients use; the strictly sorted association list below provides them.
\<close>

locale ordered_map =
  fixes lookup :: "'m \<Rightarrow> 'k::linorder \<Rightarrow> 'v option"
    and insert_entry :: "'k \<Rightarrow> 'v \<Rightarrow> 'm \<Rightarrow> 'm"
    and remove_entry :: "'k \<Rightarrow> 'm \<Rightarrow> 'm"
    and first_entry :: "'m \<Rightarrow> ('k \<times> 'v) option"
    and invar :: "'m \<Rightarrow> bool"
  assumes lookup_insert: "invar m \<Longrightarrow> lookup (insert_entry k v m) = (lookup m)(k \<mapsto> v)"
    and lookup_remove: "invar m \<Longrightarrow> lookup (remove_entry k m) = (lookup m)(k := None)"
    and first_least: "invar m \<Longrightarrow> first_entry m = Some (k, v) \<Longrightarrow>
      lookup m k = Some v \<and> (\<forall>k' \<in> dom (lookup m). k \<le> k')"
    and first_None: "invar m \<Longrightarrow> first_entry m = None \<longleftrightarrow> lookup m = Map.empty"
    and invar_insert: "invar m \<Longrightarrow> invar (insert_entry k v m)"
    and invar_remove: "invar m \<Longrightarrow> invar (remove_entry k m)"
begin

lemma remove_insert_fresh:
  "invar m \<Longrightarrow> lookup m k = None \<Longrightarrow> lookup (remove_entry k (insert_entry k v m)) = lookup m"
  by (auto simp: lookup_insert lookup_remove invar_insert)

lemma pop_first_lt:
  assumes "invar m" "first_entry m = Some (k, v)" "k' \<in> dom (lookup (remove_entry k m))"
  shows "k < k'"
proof -
  from assms(1,3) have "k' \<in> dom (lookup m)" "k' \<noteq> k"
    by (auto simp: lookup_remove split: if_splits)
  with first_least [OF assms(1,2)] show ?thesis by force
qed

end

type_synonym ('k, 'v) btree = "('k \<times> 'v) list"

definition btree_ok :: "('k::linorder, 'v) btree \<Rightarrow> bool" where
  "btree_ok m \<longleftrightarrow> sorted_wrt (<) (map fst m)"

fun btree_insert :: "'k::linorder \<Rightarrow> 'v \<Rightarrow> ('k, 'v) btree \<Rightarrow> ('k, 'v) btree" where
  "btree_insert k v [] = [(k, v)]"
| "btree_insert k v ((k', v') # m) =
     (if k < k' then (k, v) # (k', v') # m
      else if k = k' then (k, v) # m
      else (k', v') # btree_insert k v m)"

definition btree_remove :: "'k \<Rightarrow> ('k, 'v) btree \<Rightarrow> ('k, 'v) btree" where
  "btree_remove k m = filter (\<lambda>(k', _). k' \<noteq> k) m"

definition btree_first :: "('k, 'v) btree \<Rightarrow> ('k \<times> 'v) option" where
  "btree_first m = (case m of [] \<Rightarrow> None | e # _ \<Rightarrow> Some e)"

lemma btree_ok_Nil [simp]: "btree_ok []"
  by (simp add: btree_ok_def)

lemma btree_ok_Cons [simp]:
  "btree_ok ((k, v) # m) \<longleftrightarrow> (\<forall>k' \<in> fst ` set m. k < k') \<and> btree_ok m"
  by (auto simp: btree_ok_def)

lemma fst_btree_insert [simp]: "fst ` set (btree_insert k v m) = insert k (fst ` set m)"
  by (induction k v m rule: btree_insert.induct) auto

lemma btree_ok_insert: "btree_ok m \<Longrightarrow> btree_ok (btree_insert k v m)"
  by (induction k v m rule: btree_insert.induct) force+

lemma btree_ok_filter: "btree_ok m \<Longrightarrow> btree_ok (filter P m)"
  by (auto simp: btree_ok_def sorted_wrt_map intro: sorted_wrt_filter)

lemma btree_lookup_insert: "btree_ok m \<Longrightarrow> map_of (btree_insert k v m) = (map_of m)(k \<mapsto> v)"
  by (induction k v m rule: btree_insert.induct) auto

lemma btree_lookup_remove: "map_of (btree_remove k m) = (map_of m)(k := None)"
  by (induction m) (auto simp: btree_remove_def)

lemma btree_distinct: "btree_ok m \<Longrightarrow> distinct (map fst m)"
  by (simp add: btree_ok_def strict_sorted_iff)

lemma map_of_filter_distinct:
  "distinct (map fst m) \<Longrightarrow> map_of (filter P m) k =
     (case map_of m k of Some v \<Rightarrow> if P (k, v) then Some v else None | None \<Rightarrow> None)"
proof (induction m)
  case (Cons e m)
  obtain k' v' where e: "e = (k', v')" by fastforce
  with Cons.prems have "k = k' \<Longrightarrow> map_of m k = None" by (simp add: map_of_eq_None_iff)
  with Cons e show ?case by auto
qed simp

interpretation btree: ordered_map map_of btree_insert btree_remove btree_first btree_ok
proof (unfold_locales, goal_cases)
  case (1 m k v) then show ?case by (rule btree_lookup_insert)
next
  case (2 m k) show ?case by (rule btree_lookup_remove)
next
  case (3 m k v)
  then show ?case by (cases m) (fastforce simp: btree_first_def dest: map_of_SomeD split: if_splits)+
next
  case (4 m) show ?case by (cases m) (auto simp: btree_first_def)
next
  case (5 m k v) then show ?case by (rule btree_ok_insert)
next
  case (6 m k) then show ?case unfolding btree_remove_def by (rule btree_ok_filter)
qed

lemma btree_ext:
  assumes "btree_ok m" and "btree_ok m'" and "map_of m = map_of m'"
  shows "m = m'"
proof -
  have "(k, v) \<in> set m \<longleftrightarrow> (k, v) \<in> set m'" for k v
    using map_of_eq_Some_iff [OF btree_distinct [OF assms(1)], of k v]
      map_of_eq_Some_iff [OF btree_distinct [OF assms(2)], of k v] assms(3) by simp
  then have "set m = set m'" by auto
  moreover from this have "inj_on fst (set m \<union> set m')"
    using btree_distinct [OF assms(1)] by (simp add: distinct_map)
  ultimately show ?thesis
    using assms(1,2) by (auto simp: btree_ok_def strict_sorted_iff intro: map_sorted_distinct_set_unique)
qed

lemma length_btree_insert:
  "btree_ok m \<Longrightarrow> length (btree_insert k v m) = (if k \<in> fst ` set m then length m else Suc (length m))"
  by (induction k v m rule: btree_insert.induct) force+

lemma length_btree_remove:
  assumes "btree_ok m" and "k \<in> fst ` set m"
  shows "Suc (length (btree_remove k m)) = length m"
  using assms
proof (induction m)
  case (Cons e m)
  obtain k' v' where e: "e = (k', v')" by fastforce
  show ?case
  proof (cases "k' = k")
    case True
    with Cons.prems(1) e have "filter (\<lambda>(k', _). k' \<noteq> k) m = m" by (fastforce intro: filter_True)
    with True e show ?thesis by (simp add: btree_remove_def)
  next
    case False
    with Cons e show ?thesis by (auto simp: btree_remove_def)
  qed
qed simp

definition btree_last :: "('k, 'v) btree \<Rightarrow> ('k \<times> 'v) option" where
  "btree_last m = (if m = [] then None else Some (last m))"

end
