(* ===== verification/Transactions.thy ===== *)
theory Transactions
  imports Prelude
begin

text \<open>
  What the modelled components read of a transaction, the requests it makes to the lock tables
  (\<^verbatim>\<open>accounts-db/src/accounts.rs\<close>, \<open>TransactionAccountLocksIterator\<close>) and the
  transaction errors the modelled code returns or matches on. Every other variant of the error type
  of the \<open>solana_transaction_error\<close> crate is carried through unchanged and stands in
  \<open>OtherTransactionError\<close>.
\<close>

record RuntimeTransaction =
  message_hash :: Hash
  account_keys :: "Pubkey list"
  is_writable :: "nat \<Rightarrow> bool"

type_synonym lock_request = "Pubkey \<times> bool"

definition accounts_with_is_writable :: "'z RuntimeTransaction_scheme \<Rightarrow> lock_request list" where
  "accounts_with_is_writable tx =
     map (\<lambda>(index, key). (key, is_writable tx index)) (enumerate 0 (account_keys tx))"

datatype InstructionError = InvalidInstructionData | OtherInstructionError nat

datatype TransactionError =
    AccountInUse
  | TooManyAccountLocks
  | AccountLoadedTwice
  | AlreadyProcessed
  | SanitizeFailure
  | WouldExceedMaxBlockCostLimit
  | WouldExceedMaxVoteCostLimit
  | WouldExceedMaxAccountCostLimit
  | WouldExceedAccountDataBlockLimit
  | WouldExceedAccountDataTotalLimit
  | InstructionError u8 InstructionError
  | DuplicateInstruction u8
  | InvalidLoadedAccountsDataSizeLimit
  | OtherTransactionError nat

text \<open>
  What became of a transaction of a processed batch (\<^verbatim>\<open>core/src/banking_stage/committer.rs\<close>): the compute
  units it used, the size of the accounts it loaded, the balance of its fee payer and its result.
\<close>

datatype CommitTransactionDetails =
    Committed u64 u32 u64 "TransactionError + unit"
  | NotCommitted TransactionError

lemma fst_accounts_with_is_writable: "map fst (accounts_with_is_writable tx) = account_keys tx"
proof -
  have "map fst (accounts_with_is_writable tx) = map snd (enumerate 0 (account_keys tx))"
    by (simp add: accounts_with_is_writable_def case_prod_unfold comp_def)
  then show ?thesis by simp
qed

lemma length_accounts_with_is_writable [simp]:
  "length (accounts_with_is_writable tx) = length (account_keys tx)"
  by (simp add: accounts_with_is_writable_def)

text \<open>Two transactions conflict when one writes an address the other uses.\<close>

definition lock_conflict :: "lock_request list \<Rightarrow> lock_request list \<Rightarrow> bool" where
  "lock_conflict xs ys \<longleftrightarrow> (\<exists>(k, w) \<in> set xs. \<exists>(k', w') \<in> set ys. k = k' \<and> (w \<or> w'))"

lemma lock_conflict_sym: "lock_conflict xs ys = lock_conflict ys xs"
  by (auto simp: lock_conflict_def)

lemma lock_conflict_iff:
  "lock_conflict xs ys \<longleftrightarrow>
     (\<exists>(k, w) \<in> set xs. (k, True) \<in> set ys \<or> (w \<and> (k, False) \<in> set ys))"
proof -
  have "(\<exists>(k', w') \<in> set ys. k = k' \<and> (w \<or> w')) \<longleftrightarrow> (k, True) \<in> set ys \<or> (w \<and> (k, False) \<in> set ys)"
    for k w by (cases w) (auto simp: Bex_def split: prod.splits, metis (full_types))
  then show ?thesis by (simp add: lock_conflict_def case_prod_unfold)
qed

lemma lock_conflict_append: "lock_conflict xs (ys @ zs) \<longleftrightarrow> lock_conflict xs ys \<or> lock_conflict xs zs"
  unfolding lock_conflict_def by (simp add: case_prod_unfold bex_Un) blast

lemma lock_conflict_concat: "lock_conflict xs (concat yss) \<longleftrightarrow> (\<exists>ys \<in> set yss. lock_conflict xs ys)"
  unfolding lock_conflict_def by (simp add: case_prod_unfold) blast

end
