(* ===== verification/UsageQueue.thy ===== *)
theory UsageQueue
  imports Transactions
begin

text \<open>
  The data of the unified scheduler (\<^verbatim>\<open>unified-scheduler-logic/src/lib.rs\<close>): counters, tasks,
  and the per-address usage queue with its two flavours, first-in-first-out queueing (block
  verification) and priority queueing with reblocking (block production).

  A \<open>TokenCell\<close> is accessed only through the token that owns it, so a token is modelled as
  the store of its cells: a cell is an address and \<open>with_borrow_mut\<close> reads and writes the
  token at that address. A panic (\<open>unwrap\<close> on \<open>None\<close>, a failed \<open>assert!\<close>,
  \<open>unreachable!\<close>, counter overflow) is \<^term>\<open>None\<close>.
\<close>

section \<open>Counters and cells\<close>

type_synonym ShortCounter = u32
type_synonym OrderedTaskId = u128

definition increment :: "ShortCounter \<Rightarrow> ShortCounter option" where
  "increment c = checked_add c 1"

definition decrement :: "ShortCounter \<Rightarrow> ShortCounter option" where
  "decrement c = checked_sub c 1"

lemma increment_of_nat:
  assumes "Suc n < 2 ^ 32"
  shows "increment (of_nat n) = Some (of_nat (Suc n))"
proof -
  have "unat (of_nat n :: u32) = n" using assms by (intro unat_of_nat_exact) simp
  then show ?thesis using assms by (simp add: increment_def checked_add_def)
qed

lemma decrement_of_nat:
  assumes "Suc n < 2 ^ 32"
  shows "decrement (of_nat (Suc n)) = Some (of_nat n)"
proof -
  have "unat (of_nat n :: u32) = n" "unat (of_nat (Suc n) :: u32) = Suc n"
    using assms by (auto intro!: unat_of_nat_exact simp del: of_nat_Suc)
  then show ?thesis unfolding decrement_def checked_sub_Some by simp
qed

type_synonym cell = nat
type_synonym 'v Token = "cell \<Rightarrow> 'v"

definition with_borrow_mut :: "cell \<Rightarrow> 'v Token \<Rightarrow> ('v \<Rightarrow> ('r \<times> 'v) option) \<Rightarrow> ('r \<times> 'v Token) option" where
  "with_borrow_mut c token f = do { (r, v) \<leftarrow> f (token c); Some (r, token(c := v)) }"

section \<open>Tasks\<close>

datatype RequestedUsage = RequestReadonly | RequestWritable

record LockContext =
  usage_queue :: cell
  requested_usage :: RequestedUsage

text \<open>A task is shared and never updated in place, its counter cell apart.\<close>

datatype TaskInner = TaskInner
  (transaction: RuntimeTransaction)
  (task_id: OrderedTaskId)
  (lock_contexts: "LockContext list")
  (blocked_usage_count: cell)
  (consumed_block_size: usize)
  (sanitized_epoch: Epoch)
  (alt_invalidation_slot: Slot)

type_synonym Task = TaskInner
type_synonym UsageFromTask = "RequestedUsage \<times> Task"

definition task_hash :: "Task \<Rightarrow> Hash" where
  "task_hash t = message_hash (transaction t)"

definition is_higher_priority :: "Task \<Rightarrow> Task \<Rightarrow> bool option" where
  "is_higher_priority t other =
     (if task_id t < task_id other then Some True
      else if task_id other < task_id t then Some False
      else None)"

definition set_blocked_usage_count :: "Task \<Rightarrow> ShortCounter Token \<Rightarrow> ShortCounter \<Rightarrow> ShortCounter Token" where
  "set_blocked_usage_count t token count = token(blocked_usage_count t := count)"

definition try_unblock :: "Task \<Rightarrow> ShortCounter Token \<Rightarrow> (Task option \<times> ShortCounter Token) option" where
  "try_unblock t token = do {
     (did_unblock, token) \<leftarrow> with_borrow_mut (blocked_usage_count t) token
       (\<lambda>usage_count. do { usage_count \<leftarrow> decrement usage_count; Some (usage_count = 0, usage_count) });
     Some (if did_unblock then Some t else None, token) }"

definition try_reblock :: "Task \<Rightarrow> ShortCounter Token \<Rightarrow> (bool \<times> ShortCounter Token) option" where
  "try_reblock t token = with_borrow_mut (blocked_usage_count t) token
     (\<lambda>usage_count.
        if usage_count = 0 then Some (False, usage_count)
        else do { usage_count \<leftarrow> increment usage_count; Some (True, usage_count) })"

section \<open>Usages\<close>

datatype ('r, 'w) Usage = Readonly 'r | Writable 'w

fun requested_usage_of :: "('r, 'w) Usage \<Rightarrow> RequestedUsage" where
  "requested_usage_of (Readonly _) = RequestReadonly"
| "requested_usage_of (Writable _) = RequestWritable"

type_synonym FifoUsage = "(ShortCounter, unit) Usage"
type_synonym PriorityUsage = "((OrderedTaskId, Task) btree, Task) Usage"

fun FifoUsage_from :: "RequestedUsage \<Rightarrow> FifoUsage" where
  "FifoUsage_from RequestReadonly = Readonly 1"
| "FifoUsage_from RequestWritable = Writable ()"

fun PriorityUsage_from :: "Task \<Rightarrow> RequestedUsage \<Rightarrow> PriorityUsage" where
  "PriorityUsage_from task RequestReadonly = Readonly [(task_id task, task)]"
| "PriorityUsage_from task RequestWritable = Writable task"

fun take_readable :: "PriorityUsage option \<Rightarrow> PriorityUsage option option" where
  "take_readable (Some (Readonly tasks)) = (if tasks = [] then Some None else None)"
| "take_readable _ = None"

fun take_writable :: "PriorityUsage option \<Rightarrow> (Task \<times> PriorityUsage option) option" where
  "take_writable (Some (Writable task)) = Some (task, None)"
| "take_writable _ = None"

section \<open>Priority usage queue\<close>

type_synonym PriorityUsageQueue = "(OrderedTaskId, UsageFromTask) btree"

text \<open>\<open>BTreeMap::insert(..).unwrap_none()\<close>: inserting under an occupied key panics.\<close>

definition insert_new :: "'k::linorder \<Rightarrow> 'v \<Rightarrow> ('k, 'v) btree \<Rightarrow> ('k, 'v) btree option" where
  "insert_new k v m = (case map_of m k of None \<Rightarrow> Some (btree_insert k v m) | Some _ \<Rightarrow> None)"

definition insert_usage_from_task :: "UsageFromTask \<Rightarrow> PriorityUsageQueue \<Rightarrow> PriorityUsageQueue option" where
  "insert_usage_from_task u m = insert_new (task_id (snd u)) u m"

definition pop_first_usage_from_task ::
    "PriorityUsageQueue \<Rightarrow> UsageFromTask option \<times> PriorityUsageQueue" where
  "pop_first_usage_from_task m =
     (case btree_first m of None \<Rightarrow> (None, m) | Some (k, u) \<Rightarrow> (Some u, btree_remove k m))"

definition first_usage_from_task :: "PriorityUsageQueue \<Rightarrow> UsageFromTask option" where
  "first_usage_from_task m = map_option snd (btree_first m)"

section \<open>Usage queue\<close>

datatype UsageQueueInner =
  Fifo (fifo_current: "FifoUsage option") (fifo_blocked: "UsageFromTask list")
| Priority (prio_current: "PriorityUsage option") (prio_blocked: PriorityUsageQueue)

datatype Capability = FifoQueueing | PriorityQueueing

fun UsageQueueInner_new :: "Capability \<Rightarrow> UsageQueueInner" where
  "UsageQueueInner_new FifoQueueing = Fifo None []"
| "UsageQueueInner_new PriorityQueueing = Priority None []"

text \<open>\<open>LockResult\<close>: \<^term>\<open>True\<close> is \<open>Ok(())\<close>, \<^term>\<open>False\<close> is \<open>Err(())\<close>.\<close>

type_synonym LockResult = bool

fun try_lock :: "UsageQueueInner \<Rightarrow> Task \<Rightarrow> RequestedUsage \<Rightarrow> (LockResult \<times> UsageQueueInner) option" where
  "try_lock (Fifo current_usage blocked) new_task requested =
     (case current_usage of
        None \<Rightarrow> Some (True, Fifo (Some (FifoUsage_from requested)) blocked)
      | Some (Readonly count) \<Rightarrow>
          (case requested of
             RequestReadonly \<Rightarrow> do {
               count \<leftarrow> increment count;
               Some (True, Fifo (Some (Readonly count)) blocked) }
           | RequestWritable \<Rightarrow> Some (False, Fifo current_usage blocked))
      | Some (Writable _) \<Rightarrow> Some (False, Fifo current_usage blocked))"
| "try_lock (Priority current_usage blocked) new_task requested =
     (case current_usage of
        Some (Readonly tasks) \<Rightarrow>
          (case requested of
             RequestReadonly \<Rightarrow> do {
               tasks \<leftarrow> insert_new (task_id new_task) new_task tasks;
               Some (True, Priority (Some (Readonly tasks)) blocked) }
           | RequestWritable \<Rightarrow> Some (False, Priority current_usage blocked))
      | Some (Writable task) \<Rightarrow> Some (False, Priority current_usage blocked)
      | None \<Rightarrow> Some (True, Priority (Some (PriorityUsage_from new_task requested)) blocked))"

fun current_usage :: "UsageQueueInner \<Rightarrow> RequestedUsage option" where
  "current_usage (Fifo current blocked) = map_option requested_usage_of current"
| "current_usage (Priority current blocked) = map_option requested_usage_of current"

fun pop :: "UsageQueueInner \<Rightarrow> UsageFromTask option \<times> UsageQueueInner" where
  "pop (Fifo current blocked) =
     (case blocked of [] \<Rightarrow> (None, Fifo current [])
      | u # us \<Rightarrow> (Some u, Fifo current us))"
| "pop (Priority current blocked) =
     (let (u, blocked) = pop_first_usage_from_task blocked in (u, Priority current blocked))"

fun push :: "UsageFromTask \<Rightarrow> UsageQueueInner \<Rightarrow> UsageQueueInner option" where
  "push u (Fifo current blocked) = Some (Fifo current (blocked @ [u]))"
| "push u (Priority current blocked) = do {
     blocked \<leftarrow> insert_usage_from_task u blocked;
     Some (Priority current blocked) }"

fun peek_blocked :: "UsageQueueInner \<Rightarrow> UsageFromTask option" where
  "peek_blocked (Fifo current blocked) = (case blocked of [] \<Rightarrow> None | u # _ \<Rightarrow> Some u)"
| "peek_blocked (Priority current blocked) = first_usage_from_task blocked"

definition push_blocked :: "UsageFromTask \<Rightarrow> UsageQueueInner \<Rightarrow> UsageQueueInner option" where
  "push_blocked u q = (if current_usage q \<noteq> None then push u q else None)"

definition pop_lockable_readonly :: "UsageQueueInner \<Rightarrow> (UsageFromTask option \<times> UsageQueueInner) option" where
  "pop_lockable_readonly q =
     (case peek_blocked q of
        Some (RequestReadonly, _) \<Rightarrow>
          (if current_usage q = Some RequestReadonly then Some (pop q) else None)
      | _ \<Rightarrow> Some (None, q))"

text \<open>
  Releasing a usage: the first component tells whether the queue became lockable, in which
  case the current usage is cleared and the first blocked usage is popped.
\<close>

fun release_current :: "UsageQueueInner \<Rightarrow> Task \<Rightarrow> RequestedUsage \<Rightarrow> (bool \<times> UsageQueueInner) option" where
  "release_current (Fifo current blocked) task requested =
     (case current of
        Some (Readonly count) \<Rightarrow>
          (case requested of
             RequestReadonly \<Rightarrow>
               (if count = 1 then Some (True, Fifo None blocked)
                else do { count \<leftarrow> decrement count; Some (False, Fifo (Some (Readonly count)) blocked) })
           | RequestWritable \<Rightarrow> None)
      | Some (Writable _) \<Rightarrow>
          (if requested = RequestWritable then Some (True, Fifo None blocked) else None)
      | None \<Rightarrow> None)"
| "release_current (Priority current blocked) task requested =
     (case current of
        Some (Readonly tasks) \<Rightarrow>
          (case requested of
             RequestReadonly \<Rightarrow>
               (case map_of tasks (task_id task) of
                  None \<Rightarrow> None
                | Some _ \<Rightarrow>
                    (let tasks = btree_remove (task_id task) tasks in
                     if tasks = [] then Some (True, Priority None blocked)
                     else Some (False, Priority (Some (Readonly tasks)) blocked)))
           | RequestWritable \<Rightarrow> None)
      | Some (Writable _) \<Rightarrow>
          (if requested = RequestWritable then Some (True, Priority None blocked) else None)
      | None \<Rightarrow> None)"

definition unlock :: "UsageQueueInner \<Rightarrow> Task \<Rightarrow> RequestedUsage \<Rightarrow> (UsageFromTask option \<times> UsageQueueInner) option" where
  "unlock q task requested = do {
     (is_newly_lockable, q) \<leftarrow> release_current q task requested;
     Some (if is_newly_lockable then pop q else (None, q)) }"

text \<open>
  \<open>BTreeMap::extract_if(new_task.task_id().., \<dots>)\<close>: the entries from the given key on are
  offered to \<open>try_reblock\<close> in key order; the accepted ones are taken out and queued as
  blocked readonly usages.
\<close>

fun reblock_readonly ::
    "OrderedTaskId \<Rightarrow> (OrderedTaskId, Task) btree \<Rightarrow> ShortCounter Token \<Rightarrow> PriorityUsageQueue \<Rightarrow>
     ((OrderedTaskId, Task) btree \<times> ShortCounter Token \<times> PriorityUsageQueue) option" where
  "reblock_readonly lo [] token blocked = Some ([], token, blocked)"
| "reblock_readonly lo ((k, task) # tasks) token blocked =
     (if k < lo then do {
        (rest, token, blocked) \<leftarrow> reblock_readonly lo tasks token blocked;
        Some ((k, task) # rest, token, blocked) }
      else do {
        (reblocked, token) \<leftarrow> try_reblock task token;
        if reblocked then do {
          blocked \<leftarrow> insert_usage_from_task (RequestReadonly, task) blocked;
          reblock_readonly lo tasks token blocked }
        else do {
          (rest, token, blocked) \<leftarrow> reblock_readonly lo tasks token blocked;
          Some ((k, task) # rest, token, blocked) } })"

fun prepare_lock ::
    "UsageQueueInner \<Rightarrow> ShortCounter Token \<Rightarrow> Task \<Rightarrow> RequestedUsage \<Rightarrow>
     (LockResult \<times> ShortCounter Token \<times> UsageQueueInner) option" where
  "prepare_lock (Fifo current blocked) token new_task requested =
     Some (blocked = [], token, Fifo current blocked)"
| "prepare_lock (Priority current blocked) token new_task requested =
     (case current of
        None \<Rightarrow> if blocked = [] then Some (True, token, Priority current blocked) else None
      | Some (Writable current_task) \<Rightarrow> do {
          higher \<leftarrow> is_higher_priority new_task current_task;
          if \<not> higher then Some (False, token, Priority current blocked)
          else do {
            (reblocked, token) \<leftarrow> try_reblock current_task token;
            if \<not> reblocked then Some (False, token, Priority current blocked)
            else do {
              (reblocked_task, current) \<leftarrow> take_writable current;
              blocked \<leftarrow> insert_usage_from_task (RequestWritable, reblocked_task) blocked;
              Some (True, token, Priority current blocked) } } }
      | Some (Readonly current_tasks) \<Rightarrow>
          (case requested of
             RequestReadonly \<Rightarrow>
               (case peek_blocked (Priority current blocked) of
                  None \<Rightarrow> Some (True, token, Priority current blocked)
                | Some (peeked_usage, peeked_task) \<Rightarrow>
                    if peeked_usage = RequestWritable then do {
                      higher \<leftarrow> is_higher_priority new_task peeked_task;
                      Some (higher, token, Priority current blocked) }
                    else None)
           | RequestWritable \<Rightarrow> do {
               (current_tasks, token, blocked) \<leftarrow>
                 reblock_readonly (task_id new_task) current_tasks token blocked;
               if current_tasks = [] then do {
                 current \<leftarrow> take_readable (Some (Readonly current_tasks));
                 Some (True, token, Priority current blocked) }
               else Some (False, token, Priority (Some (Readonly current_tasks)) blocked) }))"

end
