(* ===== verification/SchedulingMachine.thy ===== *)
theory SchedulingMachine
  imports UsageQueue
begin

text \<open>
  The scheduling state machine of the unified scheduler (\<open>SchedulingStateMachine\<close> of
  \<^verbatim>\<open>unified-scheduler-logic/src/lib.rs\<close>): scheduling, buffering and descheduling of tasks,
  and the loops that lock and unlock the usage queues of a task.
\<close>

record SchedulingStateMachine =
  unblocked_task_queue :: "Task list"
  active_task_count :: ShortCounter
  peak_active_task_count :: ShortCounter
  dropped_task_count :: ShortCounter
  max_unique_active_task_count :: "nat option"
  unique_active_task_hashes :: "Hash set"
  running_task_count :: ShortCounter
  max_running_task_count :: u32
  handled_task_count :: ShortCounter
  unblocked_task_count :: ShortCounter
  total_task_count :: ShortCounter
  count_token :: "ShortCounter Token"
  usage_queue_token :: "UsageQueueInner Token"

definition has_no_running_task :: "SchedulingStateMachine \<Rightarrow> bool" where
  "has_no_running_task s \<longleftrightarrow> running_task_count s = 0"

definition has_no_active_task :: "SchedulingStateMachine \<Rightarrow> bool" where
  "has_no_active_task s \<longleftrightarrow> active_task_count s = 0"

definition has_unblocked_task :: "SchedulingStateMachine \<Rightarrow> bool" where
  "has_unblocked_task s \<longleftrightarrow> unblocked_task_queue s \<noteq> []"

definition is_task_runnable :: "SchedulingStateMachine \<Rightarrow> bool" where
  "is_task_runnable s \<longleftrightarrow> running_task_count s < max_running_task_count s"

definition has_runnable_task :: "SchedulingStateMachine \<Rightarrow> bool" where
  "has_runnable_task s \<longleftrightarrow> has_unblocked_task s \<and> is_task_runnable s"

section \<open>Locking the usage queues of a task\<close>

text \<open>One iteration of the loop of \<open>try_lock_usage_queues\<close>: the body of its closure.\<close>

definition try_lock_context ::
    "Task \<Rightarrow> LockContext \<Rightarrow> ShortCounter \<Rightarrow> ShortCounter Token \<Rightarrow> UsageQueueInner \<Rightarrow>
     (ShortCounter \<times> ShortCounter Token \<times> UsageQueueInner) option" where
  "try_lock_context task context blocked_count counts queue = do {
     (prepared, counts, queue) \<leftarrow> prepare_lock queue counts task (requested_usage context);
     (lock_result, queue) \<leftarrow>
       (if prepared then try_lock queue task (requested_usage context) else Some (False, queue));
     if lock_result then Some (blocked_count, counts, queue)
     else do {
       blocked_count \<leftarrow> increment blocked_count;
       queue \<leftarrow> push_blocked (requested_usage context, task) queue;
       Some (blocked_count, counts, queue) } }"

fun try_lock_contexts ::
    "Task \<Rightarrow> LockContext list \<Rightarrow> ShortCounter \<Rightarrow> SchedulingStateMachine \<Rightarrow>
     (ShortCounter \<times> SchedulingStateMachine) option" where
  "try_lock_contexts task [] blocked_count s = Some (blocked_count, s)"
| "try_lock_contexts task (context # contexts) blocked_count s = do {
     (blocked_count, counts, queue) \<leftarrow>
       try_lock_context task context blocked_count (count_token s)
         (usage_queue_token s (usage_queue context));
     try_lock_contexts task contexts blocked_count
       (s\<lparr>count_token := counts,
          usage_queue_token := (usage_queue_token s)(usage_queue context := queue)\<rparr>) }"

definition try_lock_usage_queues ::
    "SchedulingStateMachine \<Rightarrow> Task \<Rightarrow> (Task option \<times> SchedulingStateMachine) option" where
  "try_lock_usage_queues s task = do {
     (blocked_count, s) \<leftarrow> try_lock_contexts task (lock_contexts task) 0 s;
     if blocked_count = 0 then Some (Some task, s)
     else Some (None,
       s\<lparr>count_token := set_blocked_usage_count task (count_token s) blocked_count\<rparr>) }"

section \<open>Unlocking the usage queues of a task\<close>

fun blocked_size :: "UsageQueueInner \<Rightarrow> nat" where
  "blocked_size (Fifo current blocked) = length blocked"
| "blocked_size (Priority current blocked) = length blocked"

lemma blocked_size_try_lock:
  "try_lock q t u = Some (r, q') \<Longrightarrow> blocked_size q' = blocked_size q"
  by (cases q)
    (auto split: option.splits Usage.splits RequestedUsage.splits unit.splits bind_splits)

lemma length_btree_remove_first:
  "btree_first m = Some (k, v) \<Longrightarrow> length (btree_remove k m) < length m"
  by (auto simp: btree_first_def btree_remove_def less_Suc_eq_le split: list.splits)

lemma blocked_size_pop:
  "pop q = (l, q') \<Longrightarrow> blocked_size q' + (if l = None then 0 else 1) \<le> blocked_size q"
  by (cases q)
    (auto simp: pop_first_usage_from_task_def Suc_le_eq length_btree_remove_first
       split: list.splits option.splits)

lemma blocked_size_pop_lockable:
  "pop_lockable_readonly q = Some (l, q') \<Longrightarrow>
   blocked_size q' + (if l = None then 0 else 1) \<le> blocked_size q"
  using blocked_size_pop [of q l q']
  by (auto simp: pop_lockable_readonly_def
      split: option.splits RequestedUsage.splits if_splits)

text \<open>
  The loop of \<open>unlock_usage_queues\<close> on one queue: every usage that is newly lockable is
  locked and its task unblocked; after a readonly usage the next one is tried as well.
\<close>

function unlock_loop ::
    "UsageQueueInner \<Rightarrow> ShortCounter Token \<Rightarrow> Task list \<Rightarrow> UsageFromTask option \<Rightarrow>
     (UsageQueueInner \<times> ShortCounter Token \<times> Task list) option" where
  "unlock_loop q counts unblocked None = Some (q, counts, unblocked)"
| "unlock_loop q counts unblocked (Some (lockable_usage, lockable_task)) =
     (case try_lock q lockable_task lockable_usage of
        None \<Rightarrow> None
      | Some (False, q1) \<Rightarrow> None
      | Some (True, q1) \<Rightarrow>
          (case try_unblock lockable_task counts of
             None \<Rightarrow> None
           | Some (unblocked_task, counts1) \<Rightarrow>
               (let unblocked1 = (case unblocked_task of None \<Rightarrow> unblocked | Some t \<Rightarrow> unblocked @ [t])
                in case lockable_usage of
                     RequestWritable \<Rightarrow> Some (q1, counts1, unblocked1)
                   | RequestReadonly \<Rightarrow>
                       (case pop_lockable_readonly q1 of
                          None \<Rightarrow> None
                        | Some (newly_lockable, q2) \<Rightarrow>
                            unlock_loop q2 counts1 unblocked1 newly_lockable))))"
  by pat_completeness auto
termination
  by (relation "measure (\<lambda>(q, _, _, l). blocked_size q + (if l = None then 0 else 1))")
    (auto dest!: blocked_size_try_lock blocked_size_pop_lockable split: if_splits)

fun unlock_contexts :: "Task \<Rightarrow> LockContext list \<Rightarrow> SchedulingStateMachine \<Rightarrow> SchedulingStateMachine option" where
  "unlock_contexts task [] s = Some s"
| "unlock_contexts task (context # contexts) s = do {
     (newly_lockable, queue) \<leftarrow>
       unlock (usage_queue_token s (usage_queue context)) task (requested_usage context);
     (queue, counts, unblocked) \<leftarrow>
       unlock_loop queue (count_token s) (unblocked_task_queue s) newly_lockable;
     unlock_contexts task contexts
       (s\<lparr>count_token := counts, unblocked_task_queue := unblocked,
          usage_queue_token := (usage_queue_token s)(usage_queue context := queue)\<rparr>) }"

definition unlock_usage_queues :: "SchedulingStateMachine \<Rightarrow> Task \<Rightarrow> SchedulingStateMachine option" where
  "unlock_usage_queues s task = unlock_contexts task (lock_contexts task) s"

section \<open>Scheduling\<close>

text \<open>The cap on unique active tasks: \<^term>\<open>Inl\<close> is the early return that drops the task.\<close>

definition admit_unique ::
    "Task \<Rightarrow> SchedulingStateMachine \<Rightarrow> (SchedulingStateMachine + SchedulingStateMachine) option" where
  "admit_unique task s =
     (case max_unique_active_task_count s of
        None \<Rightarrow> Some (Inr s)
      | Some max_count \<Rightarrow>
          if max_count \<le> card (unique_active_task_hashes s)
             \<or> task_hash task \<in> unique_active_task_hashes s
          then do {
            dropped \<leftarrow> increment (dropped_task_count s);
            Some (Inl (s\<lparr>dropped_task_count := dropped\<rparr>)) }
          else Some (Inr (s\<lparr>unique_active_task_hashes :=
                 insert (task_hash task) (unique_active_task_hashes s)\<rparr>)))"

definition schedule_or_buffer_task ::
    "SchedulingStateMachine \<Rightarrow> Task \<Rightarrow> bool \<Rightarrow> (Task option \<times> SchedulingStateMachine) option" where
  "schedule_or_buffer_task s task force_buffering = do {
     total \<leftarrow> increment (total_task_count s);
     admitted \<leftarrow> admit_unique task (s\<lparr>total_task_count := total\<rparr>);
     (case admitted of
        Inl s \<Rightarrow> Some (None, s)
      | Inr s \<Rightarrow> do {
          active \<leftarrow> increment (active_task_count s);
          (locked, s) \<leftarrow> try_lock_usage_queues
            (s\<lparr>active_task_count := active,
               peak_active_task_count := max (peak_active_task_count s) active\<rparr>) task;
          (case locked of
             None \<Rightarrow> Some (None, s)
           | Some task \<Rightarrow>
               if \<not> is_task_runnable s \<or> force_buffering then do {
                 unblocked \<leftarrow> increment (unblocked_task_count s);
                 Some (None, s\<lparr>unblocked_task_count := unblocked,
                               unblocked_task_queue := unblocked_task_queue s @ [task]\<rparr>) }
               else do {
                 running \<leftarrow> increment (running_task_count s);
                 Some (Some task, s\<lparr>running_task_count := running\<rparr>) }) }) }"

definition buffer_task :: "SchedulingStateMachine \<Rightarrow> Task \<Rightarrow> SchedulingStateMachine option" where
  "buffer_task s task = do {
     (r, s) \<leftarrow> schedule_or_buffer_task s task True;
     (case r of None \<Rightarrow> Some s | Some _ \<Rightarrow> None) }"

definition schedule_next_unblocked_task ::
    "SchedulingStateMachine \<Rightarrow> (Task option \<times> SchedulingStateMachine) option" where
  "schedule_next_unblocked_task s =
     (if \<not> is_task_runnable s then Some (None, s)
      else case unblocked_task_queue s of
             [] \<Rightarrow> Some (None, s)
           | task # rest \<Rightarrow> do {
               running \<leftarrow> increment (running_task_count s);
               unblocked \<leftarrow> increment (unblocked_task_count s);
               Some (Some task, s\<lparr>unblocked_task_queue := rest, running_task_count := running,
                                  unblocked_task_count := unblocked\<rparr>) })"

definition deschedule_task :: "SchedulingStateMachine \<Rightarrow> Task \<Rightarrow> SchedulingStateMachine option" where
  "deschedule_task s task = do {
     running \<leftarrow> decrement (running_task_count s);
     hashes \<leftarrow>
       (if max_unique_active_task_count s \<noteq> None then
          if task_hash task \<in> unique_active_task_hashes s
          then Some (unique_active_task_hashes s - {task_hash task}) else None
        else Some (unique_active_task_hashes s));
     active \<leftarrow> decrement (active_task_count s);
     handled \<leftarrow> increment (handled_task_count s);
     unlock_usage_queues
       (s\<lparr>running_task_count := running, unique_active_task_hashes := hashes,
          active_task_count := active, handled_task_count := handled\<rparr>) task }"

section \<open>Creation of tasks and of the machine\<close>

text \<open>
  The address of the new task's counter cell is supplied by the allocator; the token then
  holds the initial count. The loader returns one queue per address, as its contract demands.
\<close>

definition do_create_task ::
    "RuntimeTransaction \<Rightarrow> OrderedTaskId \<Rightarrow> usize \<Rightarrow> Epoch \<Rightarrow> Slot \<Rightarrow> (Pubkey \<Rightarrow> cell) \<Rightarrow> cell \<Rightarrow>
     ShortCounter Token \<Rightarrow> Task \<times> ShortCounter Token" where
  "do_create_task tx tid block_size epoch slot usage_queue_loader new_cell counts =
     (TaskInner tx tid
        (map (\<lambda>(index, address).
           \<lparr>usage_queue = usage_queue_loader address,
            requested_usage = (if is_writable tx index then RequestWritable else RequestReadonly)\<rparr>)
           (enumerate 0 (account_keys tx)))
        new_cell block_size epoch slot,
      counts(new_cell := 0))"

definition create_task ::
    "RuntimeTransaction \<Rightarrow> OrderedTaskId \<Rightarrow> (Pubkey \<Rightarrow> cell) \<Rightarrow> cell \<Rightarrow> ShortCounter Token \<Rightarrow>
     Task \<times> ShortCounter Token" where
  "create_task tx tid usage_queue_loader new_cell counts =
     do_create_task tx tid 0 (- 1) (- 1) usage_queue_loader new_cell counts"

definition exclusively_initialize ::
    "nat option \<Rightarrow> nat option \<Rightarrow> ShortCounter Token \<Rightarrow> UsageQueueInner Token \<Rightarrow>
     SchedulingStateMachine option" where
  "exclusively_initialize max_running max_unique counts queues = do {
     max_running \<leftarrow>
       (case max_running of
          None \<Rightarrow> Some (- 1)
        | Some n \<Rightarrow> if n < 2 ^ 32 then Some (of_nat n) else None);
     Some \<lparr>unblocked_task_queue = [], active_task_count = 0, peak_active_task_count = 0,
           dropped_task_count = 0, max_unique_active_task_count = max_unique,
           unique_active_task_hashes = {}, running_task_count = 0,
           max_running_task_count = max_running, handled_task_count = 0,
           unblocked_task_count = 0, total_task_count = 0,
           count_token = counts, usage_queue_token = queues\<rparr> }"

definition reinitialize :: "SchedulingStateMachine \<Rightarrow> SchedulingStateMachine option" where
  "reinitialize s =
     (if has_no_active_task s \<and> card (unique_active_task_hashes s) = 0
         \<and> running_task_count s = 0 \<and> unblocked_task_queue s = []
      then Some (s\<lparr>active_task_count := 0, peak_active_task_count := 0, dropped_task_count := 0,
                   handled_task_count := 0, unblocked_task_count := 0, total_task_count := 0\<rparr>)
      else None)"

text \<open>
  The clearing loop ends because every turn deschedules one active task.
\<close>

lemma active_unlock_contexts:
  "unlock_contexts task contexts s = Some s' \<Longrightarrow> active_task_count s' = active_task_count s"
  by (induction contexts arbitrary: s) (fastforce split: bind_splits)+

lemma active_schedule_next:
  "schedule_next_unblocked_task s = Some (r, s') \<Longrightarrow> active_task_count s' = active_task_count s"
  by (auto simp: schedule_next_unblocked_task_def split: if_splits list.splits bind_splits)

lemma active_deschedule:
  "deschedule_task s task = Some s' \<Longrightarrow> unat (active_task_count s) = Suc (unat (active_task_count s'))"
  by (auto simp: deschedule_task_def unlock_usage_queues_def decrement_def unat_ops
      dest!: active_unlock_contexts split: bind_splits if_splits)

function clear_loop ::
    "SchedulingStateMachine \<Rightarrow> ShortCounter \<Rightarrow> (ShortCounter \<times> SchedulingStateMachine) option" where
  "clear_loop s count =
     (case schedule_next_unblocked_task s of
        None \<Rightarrow> None
      | Some (None, s1) \<Rightarrow> Some (count, s1)
      | Some (Some task, s1) \<Rightarrow>
          (case deschedule_task s1 task of
             None \<Rightarrow> None
           | Some s2 \<Rightarrow>
               (case increment count of None \<Rightarrow> None | Some count \<Rightarrow> clear_loop s2 count)))"
  by pat_completeness auto
termination
  by (relation "measure (\<lambda>(s, _). unat (active_task_count s))")
    (auto dest!: active_schedule_next active_deschedule)

declare clear_loop.simps [simp del]

definition clear_and_reinitialize ::
    "SchedulingStateMachine \<Rightarrow> (usize \<times> SchedulingStateMachine) option" where
  "clear_and_reinitialize s = do {
     (count, s) \<leftarrow> clear_loop s 0;
     s \<leftarrow> reinitialize s;
     Some (ucast count, s) }"

end
