(* ===== verification/FifoScheduling.thy ===== *)
theory FifoScheduling
  imports SchedulingMachine
begin

text \<open>
  What first-in-first-out scheduling promises, and that the machine keeps the promise.

  The abstract scheduler is the list of active tasks in arrival order. The requests on one
  address are the usages these tasks ask of it, in that order; a prefix of them, the
  \<open>holders\<close>, owns the address: one writer, or all readers up to the first writer. A usage
  queue is a function of the requests on its address (\<open>queue_of\<close>), a task's blocked usage
  count is the number of addresses on which it is not a holder, and a task may run once that
  number is zero.
\<close>

section \<open>Requests on one address\<close>

fun holders :: "UsageFromTask list \<Rightarrow> UsageFromTask list" where
  "holders [] = []"
| "holders ((RequestWritable, t) # us) = [(RequestWritable, t)]"
| "holders ((RequestReadonly, t) # us) =
     (RequestReadonly, t) # takeWhile (\<lambda>u. fst u = RequestReadonly) us"

fun usage_of :: "UsageFromTask list \<Rightarrow> FifoUsage option" where
  "usage_of [] = None"
| "usage_of ((RequestWritable, t) # us) = Some (Writable ())"
| "usage_of ((RequestReadonly, t) # us) = Some (Readonly (of_nat (Suc (length us))))"

definition queue_of :: "UsageFromTask list \<Rightarrow> UsageQueueInner" where
  "queue_of us = Fifo (usage_of (holders us)) (drop (length (holders us)) us)"

definition held :: "UsageFromTask list \<Rightarrow> Task \<Rightarrow> bool" where
  "held us t \<longleftrightarrow> t \<in> snd ` set (holders us)"

definition grants :: "UsageFromTask list \<Rightarrow> RequestedUsage \<Rightarrow> bool" where
  "grants us u \<longleftrightarrow> us = [] \<or> u = RequestReadonly \<and> (\<forall>x \<in> set us. fst x = RequestReadonly)"

abbreviation reading :: "UsageFromTask \<Rightarrow> bool" where
  "reading u \<equiv> fst u = RequestReadonly"

lemma requested_usage_cases: "u = RequestReadonly \<or> u = RequestWritable"
  by (cases u) auto

lemma queue_of_Nil [simp]: "queue_of [] = Fifo None []"
  by (simp add: queue_of_def)

lemma queue_of_writer [simp]: "queue_of ((RequestWritable, t) # us) = Fifo (Some (Writable ())) us"
  by (simp add: queue_of_def)

lemma drop_takeWhile: "drop (length (takeWhile P xs)) xs = dropWhile P xs"
  by (induction xs) auto

lemma queue_of_reader [simp]:
  "queue_of ((RequestReadonly, t) # us) =
     Fifo (Some (Readonly (of_nat (Suc (length (takeWhile reading us)))))) (dropWhile reading us)"
  by (simp add: queue_of_def drop_takeWhile)

lemma takeWhile_snoc:
  "takeWhile P (xs @ [x]) = takeWhile P xs @ (if (\<forall>y \<in> set xs. P y) \<and> P x then [x] else [])"
  by (induction xs) auto

lemma dropWhile_snoc:
  "dropWhile P (xs @ [x]) = dropWhile P xs @ (if (\<forall>y \<in> set xs. P y) \<and> P x then [] else [x])"
  by (induction xs) auto

lemma holders_single [simp]: "holders [x] = [x]"
proof (cases x)
  case (Pair u t)
  then show ?thesis by (cases u) simp_all
qed

lemma holders_snoc: "holders (us @ [x]) = holders us @ (if grants us (fst x) then [x] else [])"
proof (cases us rule: holders.cases)
  case 1
  then show ?thesis by (simp add: grants_def)
qed (auto simp: grants_def takeWhile_snoc)

lemma held_snoc: "held (us @ [x]) t \<longleftrightarrow> held us t \<or> grants us (fst x) \<and> t = snd x"
  by (cases "grants us (fst x)") (auto simp: held_def holders_snoc)

lemma set_holders: "set (holders us) \<subseteq> set us"
  by (cases us rule: holders.cases) (auto dest: set_takeWhileD)

lemma held_in: "held us t \<Longrightarrow> t \<in> snd ` set us"
  using set_holders [of us] by (auto simp: held_def)

text \<open>Locking appends a request to the queue, blocked unless it is granted.\<close>

lemma try_lock_context_queue_of:
  assumes "length us < 2 ^ 32 - 1" and "unat n < 2 ^ 32 - 1"
  shows "try_lock_context t c n counts (queue_of us) =
    Some (if grants us (requested_usage c) then n else n + 1, counts,
          queue_of (us @ [(requested_usage c, t)]))"
proof -
  have n: "increment n = Some (n + 1)"
    using assms(2) by (simp add: increment_def checked_add_def)
  show ?thesis
  proof (cases us rule: holders.cases)
    case 1
    then show ?thesis
      by (cases "requested_usage c") (auto simp: try_lock_context_def grants_def)
  next
    case (2 w ws)
    then show ?thesis using n
      by (cases "requested_usage c"; cases ws)
        (auto simp: try_lock_context_def grants_def push_blocked_def)
  next
    case (3 r rs)
    show ?thesis
    proof (cases "\<forall>x \<in> set rs. reading x")
      case True
      then have tw: "takeWhile reading rs = rs" "dropWhile reading rs = []"
        by (auto simp: takeWhile_eq_all_conv)
      have "increment (of_nat (Suc (length rs))) = Some (of_nat (Suc (Suc (length rs))))"
        using assms(1) 3 by (intro increment_of_nat) simp
      with 3 True n show ?thesis
        by (cases "requested_usage c")
          (auto simp: tw try_lock_context_def grants_def push_blocked_def takeWhile_snoc dropWhile_snoc)
    next
      case False
      then have "dropWhile reading rs \<noteq> []" by auto
      with 3 False n show ?thesis
        by (auto simp: try_lock_context_def grants_def push_blocked_def takeWhile_snoc dropWhile_snoc)
    qed
  qed
qed


text \<open>
  Unlocking removes a request. The requests that become holders are unblocked in order: the
  counter of each is decremented, and a task whose counter reaches zero joins the queue of
  unblocked tasks.
\<close>

fun unblock_tasks :: "Task list \<Rightarrow> ShortCounter Token \<Rightarrow> Task list \<Rightarrow> (ShortCounter Token \<times> Task list) option" where
  "unblock_tasks [] counts unblocked = Some (counts, unblocked)"
| "unblock_tasks (t # ts) counts unblocked =
     (case try_unblock t counts of
        None \<Rightarrow> None
      | Some (r, counts) \<Rightarrow>
          unblock_tasks ts counts (case r of None \<Rightarrow> unblocked | Some t \<Rightarrow> unblocked @ [t]))"

lemma unlock_loop_readers:
  assumes "Suc (n + length bs) < 2 ^ 32"
  shows "unlock_loop (Fifo (Some (Readonly (of_nat n))) bs) counts unblocked (Some (RequestReadonly, t)) =
    map_option (\<lambda>(counts, unblocked).
        (Fifo (Some (Readonly (of_nat (Suc (n + length (takeWhile reading bs)))))) (dropWhile reading bs),
         counts, unblocked))
      (unblock_tasks (t # map snd (takeWhile reading bs)) counts unblocked)"
  using assms
proof (induction bs arbitrary: n counts unblocked t)
  case Nil
  then show ?case
    by (auto simp: increment_of_nat pop_lockable_readonly_def simp del: of_nat_Suc split: option.splits)
next
  case (Cons b bs)
  have inc: "increment (of_nat n) = Some (of_nat (Suc n))"
    using Cons.prems by (intro increment_of_nat) simp
  obtain u t' where b: "b = (u, t')" by force
  show ?case
  proof (cases u)
    case RequestReadonly
    have "Suc (Suc n + length bs) < 2 ^ 32" using Cons.prems by simp
    from Cons.IH [OF this] show ?thesis
      using RequestReadonly b inc
      by (auto simp: pop_lockable_readonly_def simp del: of_nat_Suc split: option.splits)
  next
    case RequestWritable
    then show ?thesis using b inc
      by (auto simp: pop_lockable_readonly_def simp del: of_nat_Suc split: option.splits)
  qed
qed

text \<open>Handing a free address to the first requests in line.\<close>

lemma unlock_loop_free:
  assumes "length us < 2 ^ 32"
  shows "(case pop (Fifo None us) of (l, q) \<Rightarrow> unlock_loop q counts unblocked l) =
    map_option (\<lambda>(counts, unblocked). (queue_of us, counts, unblocked))
      (unblock_tasks (map snd (holders us)) counts unblocked)"
proof (cases us rule: holders.cases)
  case 1
  then show ?thesis by simp
next
  case (2 t us')
  then show ?thesis by (auto split: option.splits)
next
  case (3 t us')
  have "unlock_loop (Fifo None us') counts unblocked (Some (RequestReadonly, t)) =
    unlock_loop (Fifo (Some (Readonly (of_nat 0))) us') counts unblocked (Some (RequestReadonly, t))"
    by (simp add: increment_def checked_add_def)
  then show ?thesis
    using 3 assms unlock_loop_readers [of 0 us'] by (simp del: unlock_loop.simps)
qed

definition leave :: "Task \<Rightarrow> UsageFromTask list \<Rightarrow> UsageFromTask list" where
  "leave t us = filter (\<lambda>x. snd x \<noteq> t) us"

definition newly_held :: "Task \<Rightarrow> UsageFromTask list \<Rightarrow> Task list" where
  "newly_held t us = (if length (holders us) = 1 then map snd (holders (leave t us)) else [])"


lemma leave_simps [simp]:
  "leave t [] = []"
  "leave t (x # us) = (if snd x = t then leave t us else x # leave t us)"
  by (auto simp: leave_def)

lemma leave_absent: "t \<notin> snd ` set us \<Longrightarrow> leave t us = us"
  by (induction us) auto

lemma holders_two:
  "length (holders us) \<noteq> 1 \<Longrightarrow> x \<in> set (holders us) \<Longrightarrow>
   \<exists>r rs. us = (RequestReadonly, r) # rs \<and> takeWhile reading rs \<noteq> []"
  by (cases us rule: holders.cases) auto

lemma leave_reader:
  assumes "distinct (map snd rs)" and "t \<in> snd ` set (takeWhile reading rs)"
  shows "takeWhile reading (leave t rs) = leave t (takeWhile reading rs) \<and>
    dropWhile reading (leave t rs) = dropWhile reading rs \<and>
    length (takeWhile reading rs) = Suc (length (leave t (takeWhile reading rs)))"
  using assms
proof (induction rs)
  case (Cons x rs)
  have "snd x = t \<Longrightarrow> leave t rs = rs \<and> leave t (takeWhile reading rs) = takeWhile reading rs"
    using Cons.prems by (auto intro!: leave_absent dest: set_takeWhileD)
  then show ?case using Cons by (auto split: if_splits)
qed auto

text \<open>One of several readers leaves: the others keep the address and nobody is unblocked.\<close>

lemma unlock_readers:
  assumes "distinct (map snd us)" and "us = (RequestReadonly, r) # rs"
    and "takeWhile reading rs \<noteq> []" and "(u, t) \<in> set (holders us)" and "length us < 2 ^ 32"
  shows "unlock (queue_of us) t u = Some (None, queue_of (leave t us))"
    and "holders (leave t us) = leave t (holders us)"
proof -
  have u: "u = RequestReadonly" using assms(2,4) by (auto dest: set_takeWhileD)
  obtain k where k: "length (takeWhile reading rs) = Suc k"
    using assms(3) by (cases "takeWhile reading rs") auto
  have "Suc k \<le> length rs" using k length_takeWhile_le [of reading rs] by simp
  then have dec: "decrement (of_nat (Suc (Suc k))) = Some (of_nat (Suc k))"
    using assms(2,5) by (intro decrement_of_nat) simp
  have "of_nat (Suc (Suc k)) \<noteq> (1 :: u32)"
    using assms(2,5) \<open>Suc k \<le> length rs\<close>
    by (auto simp: word_unat_eq_iff unat_of_nat_exact simp del: of_nat_Suc)
  with dec have un: "unlock (queue_of us) t u =
      Some (None, Fifo (Some (Readonly (of_nat (Suc k)))) (dropWhile reading rs))"
    using assms(2) u by (simp add: unlock_def k del: of_nat_Suc)
  have "unlock (queue_of us) t u = Some (None, queue_of (leave t us)) \<and>
    holders (leave t us) = leave t (holders us)"
  proof (cases "t = r")
    case True
    then have "leave t rs = rs" "leave t (takeWhile reading rs) = takeWhile reading rs"
      using assms(1,2) by (auto intro!: leave_absent dest: set_takeWhileD)
    moreover obtain r' rs' where "rs = (RequestReadonly, r') # rs'"
      using assms(3) by (cases rs rule: holders.cases) auto
    ultimately show ?thesis using True un assms(2) k by (simp del: of_nat_Suc)
  next
    case False
    then have "distinct (map snd rs)" "t \<in> snd ` set (takeWhile reading rs)"
      using assms(1,2,4) by force+
    from leave_reader [OF this] show ?thesis using False un assms(2) k by (simp del: of_nat_Suc)
  qed
  then show "unlock (queue_of us) t u = Some (None, queue_of (leave t us))"
    and "holders (leave t us) = leave t (holders us)" by auto
qed

lemma unlock_single:
  assumes "distinct (map snd us)" and "length (holders us) = 1"
    and "(u, t) \<in> set (holders us)"
  shows "unlock (queue_of us) t u = Some (pop (Fifo None (leave t us)))"
proof -
  from assms(2,3) obtain us' where us: "us = (u, t) # us'" and dw: "u = RequestReadonly \<Longrightarrow> takeWhile reading us' = []"
    by (cases us rule: holders.cases) auto
  then have "leave t us = us'" using assms(1) leave_absent [of t us'] by auto
  moreover have "u = RequestReadonly \<Longrightarrow> dropWhile reading us' = us'"
    using dw by (cases us') auto
  ultimately show ?thesis
    using us dw by (cases u) (auto simp: unlock_def)
qed


lemma unlock_queue_of:
  assumes "distinct (map snd us)" and "(u, t) \<in> set (holders us)" and "length us < 2 ^ 32"
  shows "\<exists>l q. unlock (queue_of us) t u = Some (l, q) \<and>
    unlock_loop q counts unblocked l =
      map_option (\<lambda>(counts, unblocked). (queue_of (leave t us), counts, unblocked))
        (unblock_tasks (newly_held t us) counts unblocked)"
proof (cases "length (holders us) = 1")
  case True
  have "length (leave t us) < 2 ^ 32"
    unfolding leave_def using assms(3) by (rule le_less_trans [OF length_filter_le])
  from unlock_loop_free [OF this, of counts unblocked] unlock_single [OF assms(1) True assms(2)] True
  show ?thesis by (cases "pop (Fifo None (leave t us))") (auto simp: newly_held_def)
next
  case False
  with assms(2) obtain r rs where "us = (RequestReadonly, r) # rs" "takeWhile reading rs \<noteq> []"
    using holders_two by blast
  from unlock_readers(1) [OF assms(1) this assms(2,3)] False show ?thesis
    by (auto simp: newly_held_def)
qed

text \<open>After a holder left, the holders are the others and those newly held.\<close>

lemma held_leave:
  assumes "distinct (map snd us)" and "held us t" and "t' \<noteq> t" and "length us < 2 ^ 32"
  shows "held (leave t us) t' \<longleftrightarrow> held us t' \<or> t' \<in> set (newly_held t us)"
proof -
  from assms(2) obtain u where ut: "(u, t) \<in> set (holders us)" by (auto simp: held_def)
  show ?thesis
  proof (cases "length (holders us) = 1")
    case True
    with ut have "holders us = [(u, t)]" by (cases "holders us") auto
    with True assms(3) show ?thesis by (auto simp: held_def newly_held_def)
  next
    case False
    then obtain r rs where "us = (RequestReadonly, r) # rs" "takeWhile reading rs \<noteq> []"
      using holders_two ut by blast
    from unlock_readers(2) [OF assms(1) this ut assms(4)] False assms(3) show ?thesis
      by (auto simp: held_def newly_held_def leave_def)
  qed
qed

lemma newly_held_blocked:
  assumes "distinct (map snd us)" and "held us t" and "t' \<in> set (newly_held t us)"
  shows "\<not> held us t' \<and> t' \<in> snd ` set us \<and> t' \<noteq> t"
proof -
  from assms(3) have one: "length (holders us) = 1" and t': "held (leave t us) t'"
    by (auto simp: newly_held_def held_def split: if_splits)
  from held_in [OF t'] have "t' \<in> snd ` set us" "t' \<noteq> t" by (auto simp: leave_def)
  with one assms(2) show ?thesis by (cases "holders us") (auto simp: held_def)
qed

lemma holders_prefix: "holders us = take (length (holders us)) us"
  by (cases us rule: holders.cases) (simp_all flip: takeWhile_eq_take)

lemma distinct_holders: "distinct (map snd us) \<Longrightarrow> distinct (map snd (holders us))"
  by (subst holders_prefix) (simp add: take_map [symmetric])

lemma distinct_newly_held: "distinct (map snd us) \<Longrightarrow> distinct (newly_held t us)"
  by (simp add: newly_held_def leave_def distinct_holders distinct_map_filter)

end
