(* ===== verification/FifoMachine.thy ===== *)
theory FifoMachine
  imports FifoScheduling
begin

text \<open>
  The scheduling machine with first-in-first-out queues refines the abstract scheduler: the
  list of active tasks in arrival order determines the usage queues, the counters and which
  tasks are ready. Every operation preserves this relation and, within the range of the
  counters, none panics.
\<close>

section \<open>Requests of the active tasks\<close>

definition usage_in :: "LockContext list \<Rightarrow> cell \<Rightarrow> RequestedUsage option" where
  "usage_in cs a = map_of (map (\<lambda>c. (usage_queue c, requested_usage c)) cs) a"

abbreviation usage_on :: "Task \<Rightarrow> cell \<Rightarrow> RequestedUsage option" where
  "usage_on t \<equiv> usage_in (lock_contexts t)"

fun requests_on :: "Task list \<Rightarrow> cell \<Rightarrow> UsageFromTask list" where
  "requests_on [] a = []"
| "requests_on (t # ts) a =
     (case usage_on t a of None \<Rightarrow> requests_on ts a | Some u \<Rightarrow> (u, t) # requests_on ts a)"

definition blocked_on :: "(cell \<Rightarrow> UsageFromTask list) \<Rightarrow> Task \<Rightarrow> LockContext list" where
  "blocked_on req t = filter (\<lambda>c. \<not> held (req (usage_queue c)) t) (lock_contexts t)"

definition wf_task :: "Task \<Rightarrow> bool" where
  "wf_task t \<longleftrightarrow> distinct (map usage_queue (lock_contexts t)) \<and> length (lock_contexts t) < 2 ^ 32 - 1"

definition wf_requests :: "Task set \<Rightarrow> (cell \<Rightarrow> UsageFromTask list) \<Rightarrow> bool" where
  "wf_requests T req \<longleftrightarrow> (\<forall>a. distinct (map snd (req a)) \<and> length (req a) < 2 ^ 32 - 1 \<and>
     (\<forall>(u, t) \<in> set (req a). t \<in> T \<and> usage_on t a = Some u))"

lemma wf_requestsD:
  assumes "wf_requests T req"
  shows "distinct (map snd (req a))" and "length (req a) < 2 ^ 32 - 1"
    and "(u, t) \<in> set (req a) \<Longrightarrow> t \<in> T \<and> usage_on t a = Some u"
  using assms by (auto simp: wf_requests_def)

lemma usage_in_Nil [simp]: "usage_in [] a = None"
  by (simp add: usage_in_def)

lemma usage_in_Cons [simp]:
  "usage_in (c # cs) a = (if usage_queue c = a then Some (requested_usage c) else usage_in cs a)"
  by (simp add: usage_in_def)

lemma usage_in_None: "usage_in cs a = None \<longleftrightarrow> a \<notin> usage_queue ` set cs"
  by (induction cs) auto

lemma usage_in_mem:
  "distinct (map usage_queue cs) \<Longrightarrow> c \<in> set cs \<Longrightarrow> usage_in cs (usage_queue c) = Some (requested_usage c)"
  by (induction cs) auto

lemma requests_on_snoc:
  "requests_on (A @ [t]) a = requests_on A a @ (case usage_on t a of None \<Rightarrow> [] | Some u \<Rightarrow> [(u, t)])"
  by (induction A) (auto split: option.splits)

lemma requests_on_remove:
  "distinct A \<Longrightarrow> requests_on (remove1 t A) a = leave t (requests_on A a)"
proof (induction A)
  case (Cons x A)
  have "x = t \<Longrightarrow> leave t (requests_on A a) = requests_on A a"
    using Cons.prems by (intro leave_absent) (induction A, auto split: option.splits)
  with Cons show ?case by (auto split: option.splits)
qed simp

lemma requests_on_mem: "(u, t) \<in> set (requests_on A a) \<longleftrightarrow> t \<in> set A \<and> usage_on t a = Some u"
  by (induction A) (auto split: option.splits)

lemma snd_requests_on: "snd ` set (requests_on A a) \<subseteq> set A"
  by (force simp: requests_on_mem)

lemma wf_requests_on:
  assumes "distinct A" and "length A < 2 ^ 32 - 1"
  shows "wf_requests (set A) (requests_on A)"
  unfolding wf_requests_def
proof (intro allI conjI)
  fix a
  show "distinct (map snd (requests_on A a))"
    using assms(1) snd_requests_on [of _ a] by (induction A) (auto split: option.splits)
  have "length (requests_on A a) \<le> length A"
    by (induction A) (auto split: option.splits)
  then show "length (requests_on A a) < 2 ^ 32 - 1" using assms(2) by simp
  show "\<forall>(u, t) \<in> set (requests_on A a). t \<in> set A \<and> usage_on t a = Some u"
    by (auto simp: requests_on_mem)
qed

section \<open>Unblocking\<close>

lemma unblock_tasks_spec:
  assumes "distinct ts" and "inj_on blocked_usage_count (set ts)"
    and "\<forall>t \<in> set ts. counts (blocked_usage_count t) \<noteq> 0"
  shows "unblock_tasks ts counts ready =
    Some (\<lambda>c. if c \<in> blocked_usage_count ` set ts then counts c - 1 else counts c,
          ready @ filter (\<lambda>t. counts (blocked_usage_count t) = 1) ts)"
  using assms
proof (induction ts arbitrary: counts ready)
  case (Cons t ts)
  let ?c = "blocked_usage_count t"
  let ?counts = "counts(?c := counts ?c - 1)"
  have "counts ?c \<noteq> 0" using Cons.prems by simp
  then have "1 \<le> counts ?c" by (metis unsigned_eq_0_iff word_le_nat_alt unat_1 Suc_leI One_nat_def neq0_conv)
  then have "decrement (counts ?c) = Some (counts ?c - 1)"
    by (simp add: decrement_def checked_sub_def)
  then have step: "try_unblock t counts = Some (if counts ?c = 1 then Some t else None, ?counts)"
    by (auto simp: try_unblock_def with_borrow_mut_def)
  have fresh: "?c \<notin> blocked_usage_count ` set ts"
    using Cons.prems by (auto simp: inj_on_def)
  have "unblock_tasks ts ?counts ready' =
    Some (\<lambda>c. if c \<in> blocked_usage_count ` set ts then ?counts c - 1 else ?counts c,
      ready' @ filter (\<lambda>t. ?counts (blocked_usage_count t) = 1) ts)" for ready'
    using Cons.prems fresh by (intro Cons.IH) (auto simp: inj_on_def)
  moreover have "filter (\<lambda>t. ?counts (blocked_usage_count t) = 1) ts =
      filter (\<lambda>t. counts (blocked_usage_count t) = 1) ts"
    using fresh by (intro filter_cong) (force simp: image_iff)+
  ultimately show ?case using step fresh by (auto simp: fun_eq_iff)
qed auto

lemma length_filter_key:
  "distinct (map f xs) \<Longrightarrow> a \<in> f ` set xs \<Longrightarrow> length (filter (\<lambda>x. f x = a) xs) = 1"
  by (induction xs) (auto simp: filter_empty_conv, metis imageI)

text \<open>
  When a holder of an address leaves, the tasks newly holding it have one blocked usage less,
  all others as many as before.
\<close>

lemma blocked_on_leave:
  assumes "wf_requests T req" and "held (req a) t" and "t' \<noteq> t" and "wf_task t'"
  shows "length (blocked_on req t') =
    length (blocked_on (req(a := leave t (req a))) t')
      + (if t' \<in> set (newly_held t (req a)) then 1 else 0)"
proof -
  let ?us = "req a" and ?P = "\<lambda>c. usage_queue c = a" and ?cs = "lock_contexts t'"
  let ?req = "req(a := leave t ?us)"
  have wf: "distinct (map snd ?us)" "length ?us < 2 ^ 32"
    using wf_requestsD [OF assms(1), where a = a] by simp_all
  have split_len: "length (filter Q ?cs) =
      length (filter (\<lambda>c. Q c \<and> ?P c) ?cs) + length (filter (\<lambda>c. Q c \<and> \<not> ?P c) ?cs)" for Q
    using sum_length_filter_compl [of ?P "filter Q ?cs"] by simp
  have rest: "filter (\<lambda>c. \<not> held (?req (usage_queue c)) t' \<and> \<not> ?P c) ?cs =
      filter (\<lambda>c. \<not> held (req (usage_queue c)) t' \<and> \<not> ?P c) ?cs"
    by (intro filter_cong) auto
  have here: "filter (\<lambda>c. \<not> held (r (usage_queue c)) t' \<and> ?P c) ?cs =
      (if held (r a) t' then [] else filter ?P ?cs)" for r
    by (auto simp: filter_empty_conv intro: filter_cong)
  have new: "t' \<in> set (newly_held t ?us) \<Longrightarrow> \<not> held ?us t' \<and> length (filter ?P ?cs) = 1"
  proof -
    assume "t' \<in> set (newly_held t ?us)"
    from newly_held_blocked [OF wf(1) assms(2) this] have nh: "\<not> held ?us t'" "t' \<in> snd ` set ?us"
      by auto
    then obtain u where "usage_on t' a = Some u"
      using wf_requestsD(3) [OF assms(1)] by fastforce
    then have "a \<in> usage_queue ` set ?cs" by (metis option.distinct(1) usage_in_None)
    moreover have "distinct (map usage_queue ?cs)" using assms(4) by (simp add: wf_task_def)
    ultimately have "length (filter ?P ?cs) = 1" by (intro length_filter_key)
    with nh show ?thesis by simp
  qed
  show ?thesis
    unfolding blocked_on_def
    using split_len [of "\<lambda>c. \<not> held (req (usage_queue c)) t'"]
      split_len [of "\<lambda>c. \<not> held (?req (usage_queue c)) t'"]
      rest here [of req] here [of ?req] new held_leave [OF wf(1) assms(2,3) wf(2)]
    by (auto split: if_splits)
qed


section \<open>The lock and unlock loops\<close>

definition queues_match :: "(cell \<Rightarrow> UsageFromTask list) \<Rightarrow> SchedulingStateMachine \<Rightarrow> bool" where
  "queues_match req s \<longleftrightarrow> (\<forall>a. usage_queue_token s a = queue_of (req a))"

definition counts_match :: "Task set \<Rightarrow> (cell \<Rightarrow> UsageFromTask list) \<Rightarrow> SchedulingStateMachine \<Rightarrow> bool" where
  "counts_match T req s \<longleftrightarrow>
     (\<forall>t \<in> T. count_token s (blocked_usage_count t) = of_nat (length (blocked_on req t)))"

definition ready_match ::
    "Task set \<Rightarrow> Task set \<Rightarrow> (cell \<Rightarrow> UsageFromTask list) \<Rightarrow> SchedulingStateMachine \<Rightarrow> bool" where
  "ready_match T R req s \<longleftrightarrow> distinct (unblocked_task_queue s)
     \<and> set (unblocked_task_queue s) \<inter> R = {}
     \<and> set (unblocked_task_queue s) \<union> R = {t \<in> T. blocked_on req t = []}"

lemma try_lock_contexts_spec:
  assumes "\<forall>c \<in> set cs. usage_queue_token s (usage_queue c) = queue_of (req (usage_queue c))
        \<and> length (req (usage_queue c)) < 2 ^ 32 - 1"
    and "distinct (map usage_queue cs)" and "n + length cs < 2 ^ 32 - 1"
  shows "try_lock_contexts t cs (of_nat n) s =
    Some (of_nat (n + length (filter (\<lambda>c. \<not> grants (req (usage_queue c)) (requested_usage c)) cs)),
      s\<lparr>usage_queue_token := (\<lambda>a. case usage_in cs a of
           None \<Rightarrow> usage_queue_token s a | Some u \<Rightarrow> queue_of (req a @ [(u, t)]))\<rparr>)"
  using assms
proof (induction cs arbitrary: n s)
  case (Cons c cs)
  let ?a = "usage_queue c" and ?u = "requested_usage c"
  let ?s = "s\<lparr>usage_queue_token := (usage_queue_token s)(?a := queue_of (req ?a @ [(?u, t)]))\<rparr>"
  let ?m = "if grants (req ?a) ?u then n else Suc n"
  have "unat (of_nat n :: u32) < 2 ^ 32 - 1"
    using Cons.prems(3) by (simp add: unat_of_nat_exact)
  with Cons.prems have "try_lock_context t c (of_nat n) (count_token s) (usage_queue_token s ?a) =
      Some (of_nat ?m, count_token s, queue_of (req ?a @ [(?u, t)]))"
    by (simp add: try_lock_context_queue_of)
  then have step: "try_lock_contexts t (c # cs) (of_nat n) s = try_lock_contexts t cs (of_nat ?m) ?s"
    by simp
  have "try_lock_contexts t cs (of_nat ?m) ?s =
    Some (of_nat (?m + length (filter (\<lambda>c. \<not> grants (req (usage_queue c)) (requested_usage c)) cs)),
      ?s\<lparr>usage_queue_token := (\<lambda>a. case usage_in cs a of
           None \<Rightarrow> usage_queue_token ?s a | Some u \<Rightarrow> queue_of (req a @ [(u, t)]))\<rparr>)"
  proof (intro Cons.IH)
    have "\<forall>c' \<in> set cs. usage_queue c' \<noteq> ?a" using Cons.prems(2) by (simp add: image_iff) metis
    with Cons.prems(1) show "\<forall>c' \<in> set cs.
        usage_queue_token ?s (usage_queue c') = queue_of (req (usage_queue c'))
          \<and> length (req (usage_queue c')) < 2 ^ 32 - 1" by simp
  qed (use Cons.prems in auto)
  moreover have "usage_in cs ?a = None"
    using Cons.prems(2) by (auto simp: usage_in_None)
  ultimately show ?case unfolding step
    by (auto simp: fun_eq_iff simp del: try_lock_contexts.simps of_nat_Suc of_nat_add split: option.splits)
qed simp

lemma unlock_context_step:
  assumes wf: "wf_requests (insert t T) req" and inj: "inj_on blocked_usage_count T"
    and tasks: "\<forall>t' \<in> T. wf_task t'" and "t \<notin> T"
    and "queues_match req s" and "counts_match T req s" and "ready_match T R req s"
    and "held (req a) t" and "usage_on t a = Some u"
  defines "req' \<equiv> req(a := leave t (req a))"
  shows "\<exists>l q counts ready. unlock (usage_queue_token s a) t u = Some (l, q)
    \<and> unlock_loop q (count_token s) (unblocked_task_queue s) l = Some (queue_of (req' a), counts, ready)
    \<and> (let s' = s\<lparr>count_token := counts, unblocked_task_queue := ready,
                  usage_queue_token := (usage_queue_token s)(a := queue_of (req' a))\<rparr>
       in wf_requests (insert t T) req' \<and> queues_match req' s' \<and> counts_match T req' s' \<and> ready_match T R req' s')"
proof -
  let ?N = "newly_held t (req a)"
  let ?f = blocked_usage_count
  note wfa = wf_requestsD [OF wf, where a = a]
  have la: "length (req a) < 2 ^ 32" using wfa(2) by simp
  obtain u' where "(u', t) \<in> set (holders (req a))" using \<open>held (req a) t\<close> by (auto simp: held_def)
  with wfa(3) [of u' t] set_holders [of "req a"] \<open>usage_on t a = Some u\<close>
  have ut: "(u, t) \<in> set (holders (req a))" by auto
  have NT: "set ?N \<subseteq> T"
    using newly_held_blocked [OF wfa(1) \<open>held (req a) t\<close>] wfa(3) by fastforce
  have len: "t' \<in> T \<Longrightarrow> length (blocked_on req t') =
      length (blocked_on req' t') + (if t' \<in> set ?N then 1 else 0)" for t'
    unfolding req'_def using blocked_on_leave [OF wf \<open>held (req a) t\<close>, of t'] tasks \<open>t \<notin> T\<close>
    by (cases "t' = t") auto
  have small: "t' \<in> T \<Longrightarrow> length (blocked_on r t') < 2 ^ 32 - 1" for t' r
    unfolding blocked_on_def
    by (rule le_less_trans [OF length_filter_le]) (use tasks in \<open>auto simp: wf_task_def\<close>)
  have cnt: "t' \<in> T \<Longrightarrow> unat (count_token s (?f t')) = length (blocked_on req t')" for t'
    using \<open>counts_match T req s\<close> small [of t' req] by (simp add: counts_match_def unat_of_nat_exact)
  have nz: "\<forall>t' \<in> set ?N. count_token s (?f t') \<noteq> 0"
  proof
    fix t' assume "t' \<in> set ?N"
    with NT len [of t'] cnt [of t'] have "unat (count_token s (?f t')) \<noteq> 0" by auto
    then show "count_token s (?f t') \<noteq> 0" by (metis unsigned_0)
  qed
  let ?counts = "\<lambda>c. if c \<in> ?f ` set ?N then count_token s c - 1 else count_token s c"
  let ?ready = "unblocked_task_queue s @ filter (\<lambda>t. count_token s (?f t) = 1) ?N"
  have injN: "t' \<in> T \<Longrightarrow> ?f t' \<in> ?f ` set ?N \<longleftrightarrow> t' \<in> set ?N" for t'
    using inj NT by (meson inj_on_image_mem_iff)
  obtain l q where un: "unlock (usage_queue_token s a) t u = Some (l, q)"
    and loop: "unlock_loop q (count_token s) (unblocked_task_queue s) l =
      Some (queue_of (req' a), ?counts, ?ready)"
    using unlock_queue_of [OF wfa(1) ut la, of "count_token s" "unblocked_task_queue s"]
      unblock_tasks_spec [OF distinct_newly_held [OF wfa(1)] inj_on_subset [OF inj NT] nz]
      \<open>queues_match req s\<close>
    by (auto simp: queues_match_def req'_def)
  let ?s = "s\<lparr>count_token := ?counts, unblocked_task_queue := ?ready,
    usage_queue_token := (usage_queue_token s)(a := queue_of (req' a))\<rparr>"
  have "wf_requests (insert t T) req'"
    using wf unfolding wf_requests_def req'_def
    by (auto simp: leave_def distinct_map_filter intro: le_less_trans [OF length_filter_le])
  moreover have "queues_match req' ?s"
    using \<open>queues_match req s\<close> by (auto simp: queues_match_def req'_def)
  moreover have "counts_match T req' ?s"
    using \<open>counts_match T req s\<close> len injN by (auto simp: counts_match_def)
  moreover have "ready_match T R req' ?s"
  proof -
    have one: "t' \<in> T \<Longrightarrow> count_token s (?f t') = 1 \<longleftrightarrow> length (blocked_on req t') = 1" for t'
      using cnt [of t'] by (simp add: word_unat_eq_iff)
    have iff: "t' \<in> T \<Longrightarrow> blocked_on req' t' = [] \<longleftrightarrow>
        blocked_on req t' = [] \<or> t' \<in> set ?N \<and> count_token s (?f t') = 1" for t'
      using len [of t'] one [of t'] by (auto split: if_splits)
    have new: "t' \<in> set ?N \<Longrightarrow> t' \<in> T \<and> blocked_on req t' \<noteq> []" for t'
      using NT len [of t'] by (auto split: if_splits)
    from \<open>ready_match T R req s\<close> have r: "distinct (unblocked_task_queue s)"
        "set (unblocked_task_queue s) \<inter> R = {}"
        "set (unblocked_task_queue s) \<union> R = {t \<in> T. blocked_on req t = []}"
      by (auto simp: ready_match_def)
    have "set ?ready \<union> R = {t' \<in> T. blocked_on req' t' = []}"
      using r(3) iff new by auto
    moreover have "distinct ?ready" "set ?ready \<inter> R = {}"
      using r new distinct_newly_held [OF wfa(1)] by (auto simp: set_eq_iff)
    ultimately show ?thesis by (simp add: ready_match_def)
  qed
  ultimately show ?thesis using un loop by (auto simp: Let_def)
qed


lemma unlock_contexts_spec:
  assumes "wf_requests (insert t T) req" and "inj_on blocked_usage_count T"
    and "\<forall>t' \<in> T. wf_task t'" and "t \<notin> T"
    and "queues_match req s" and "counts_match T req s" and "ready_match T R req s"
    and "\<forall>c \<in> set cs. held (req (usage_queue c)) t \<and> usage_on t (usage_queue c) = Some (requested_usage c)"
    and "distinct (map usage_queue cs)"
  defines "req' \<equiv> \<lambda>a. if a \<in> usage_queue ` set cs then leave t (req a) else req a"
  shows "\<exists>counts ready queues.
    let s' = s\<lparr>count_token := counts, unblocked_task_queue := ready, usage_queue_token := queues\<rparr>
    in unlock_contexts t cs s = Some s' \<and> queues_match req' s' \<and> counts_match T req' s' \<and> ready_match T R req' s'"
  using assms(1,5-9) unfolding req'_def
proof (induction cs arbitrary: req s)
  case Nil
  then show ?case
    by (intro exI [of _ "count_token s"] exI [of _ "unblocked_task_queue s"] exI [of _ "usage_queue_token s"]) simp
next
  case (Cons c cs)
  let ?a = "usage_queue c"
  let ?req = "req(?a := leave t (req ?a))"
  have c: "held (req ?a) t" "usage_on t ?a = Some (requested_usage c)" using Cons.prems(5) by auto
  obtain l q counts ready where
    un: "unlock (usage_queue_token s ?a) t (requested_usage c) = Some (l, q)"
    and loop: "unlock_loop q (count_token s) (unblocked_task_queue s) l =
      Some (queue_of (?req ?a), counts, ready)"
    and next_ok: "let s' = s\<lparr>count_token := counts, unblocked_task_queue := ready,
                  usage_queue_token := (usage_queue_token s)(?a := queue_of (?req ?a))\<rparr>
       in wf_requests (insert t T) ?req \<and> queues_match ?req s' \<and> counts_match T ?req s' \<and> ready_match T R ?req s'"
    using unlock_context_step [OF Cons.prems(1) assms(2-4) Cons.prems(2-4) c] by blast
  let ?s = "s\<lparr>count_token := counts, unblocked_task_queue := ready,
                  usage_queue_token := (usage_queue_token s)(?a := queue_of (?req ?a))\<rparr>"
  have ok: "wf_requests (insert t T) ?req" "queues_match ?req ?s" "counts_match T ?req ?s" "ready_match T R ?req ?s"
    using next_ok by (auto simp: Let_def)
  have ne: "\<forall>c' \<in> set cs. usage_queue c' \<noteq> ?a" using Cons.prems(6) by (simp add: image_iff) metis
  have "\<forall>c' \<in> set cs. held (?req (usage_queue c')) t \<and> usage_on t (usage_queue c') = Some (requested_usage c')"
    using Cons.prems(5) ne by auto
  from Cons.IH [OF ok this] Cons.prems(6) obtain counts' ready' queues' where
    rec: "let s' = ?s\<lparr>count_token := counts', unblocked_task_queue := ready', usage_queue_token := queues'\<rparr>;
        req' = \<lambda>a. if a \<in> usage_queue ` set cs then leave t (?req a) else ?req a
    in unlock_contexts t cs ?s = Some s' \<and> queues_match req' s' \<and> counts_match T req' s' \<and> ready_match T R req' s'"
    by (auto simp: Let_def)
  moreover have "(\<lambda>a. if a \<in> usage_queue ` set cs then leave t (?req a) else ?req a) =
      (\<lambda>a. if a \<in> usage_queue ` set (c # cs) then leave t (req a) else req a)"
    using ne by (auto simp: fun_eq_iff)
  ultimately show ?case using un loop
    by (intro exI [of _ counts'] exI [of _ ready'] exI [of _ queues']) (simp add: Let_def)
qed

section \<open>The relation to the abstract scheduler\<close>

definition hashes_match :: "Task list \<Rightarrow> SchedulingStateMachine \<Rightarrow> bool" where
  "hashes_match A s \<longleftrightarrow>
     (case max_unique_active_task_count s of
        None \<Rightarrow> unique_active_task_hashes s = {}
      | Some n \<Rightarrow> unique_active_task_hashes s = task_hash ` set A
          \<and> inj_on task_hash (set A) \<and> length A \<le> n)"

text \<open>
  The statistics counters bound each other: no counter overflows as long as the total stays
  below \<open>2 ^ 31\<close> (a buffered task is counted twice in \<open>unblocked_task_count\<close>).
\<close>

definition counters_match :: "Task list \<Rightarrow> Task set \<Rightarrow> SchedulingStateMachine \<Rightarrow> bool" where
  "counters_match A R s \<longleftrightarrow>
     unat (active_task_count s) = length A \<and> unat (running_task_count s) = card R
     \<and> card R \<le> unat (max_running_task_count s)
     \<and> unat (dropped_task_count s) + unat (handled_task_count s) + length A = unat (total_task_count s)
     \<and> unat (unblocked_task_count s) + (length A - card R)
         \<le> 2 * (unat (total_task_count s) - unat (dropped_task_count s))
     \<and> unat (total_task_count s) < 2 ^ 31"

definition fifo_inv :: "Task list \<Rightarrow> Task set \<Rightarrow> SchedulingStateMachine \<Rightarrow> bool" where
  "fifo_inv A R s \<longleftrightarrow> distinct A \<and> inj_on blocked_usage_count (set A) \<and> (\<forall>t \<in> set A. wf_task t)
     \<and> queues_match (requests_on A) s \<and> counts_match (set A) (requests_on A) s
     \<and> ready_match (set A) R (requests_on A) s \<and> counters_match A R s \<and> hashes_match A s"

lemma fifo_inv_length: "fifo_inv A R s \<Longrightarrow> length A < 2 ^ 31"
  by (auto simp: fifo_inv_def counters_match_def)

lemma fifo_inv_running: "fifo_inv A R s \<Longrightarrow> R \<subseteq> set A \<and> finite R"
  by (auto simp: fifo_inv_def ready_match_def intro: finite_subset [of R "set A"])

lemma fifo_inv_requests: "fifo_inv A R s \<Longrightarrow> wf_requests (set A) (requests_on A)"
  using fifo_inv_length [of A R s] by (intro wf_requests_on) (auto simp: fifo_inv_def)

lemma increment_Some: "Suc (unat c) < 2 ^ 32 \<Longrightarrow> increment c = Some (c + 1) \<and> unat (c + 1) = Suc (unat c)"
  by (simp add: increment_def checked_add_def unat_add_exact)

lemma decrement_Some: "0 < unat c \<Longrightarrow> decrement c = Some (c - 1) \<and> unat (c - 1) = unat c - 1"
  by (simp add: decrement_def checked_sub_def unat_sub_exact word_le_nat_alt)

text \<open>A new task does not disturb the tasks already there.\<close>

lemma blocked_on_snoc_old:
  assumes "t \<noteq> t'"
  shows "blocked_on (requests_on (A @ [t])) t' = blocked_on (requests_on A) t'"
  unfolding blocked_on_def using assms
  by (intro filter_cong) (auto simp: requests_on_snoc held_snoc split: option.splits)

lemma blocked_on_snoc_new:
  assumes "t \<notin> set A" and "wf_task t"
  shows "blocked_on (requests_on (A @ [t])) t =
    filter (\<lambda>c. \<not> grants (requests_on A (usage_queue c)) (requested_usage c)) (lock_contexts t)"
  unfolding blocked_on_def
proof (intro filter_cong refl)
  fix c assume "c \<in> set (lock_contexts t)"
  then have "usage_on t (usage_queue c) = Some (requested_usage c)"
    using assms(2) by (simp add: wf_task_def usage_in_mem)
  moreover have "\<not> held (requests_on A (usage_queue c)) t"
    using held_in snd_requests_on assms(1) by blast
  ultimately show "(\<not> held (requests_on (A @ [t]) (usage_queue c)) t) =
      (\<not> grants (requests_on A (usage_queue c)) (requested_usage c))"
    by (simp add: requests_on_snoc held_snoc)
qed


section \<open>Scheduling\<close>

lemma try_lock_usage_queues_spec:
  assumes A: "distinct A" "length A < 2 ^ 31" "wf_task t" "t \<notin> set A"
    "blocked_usage_count t \<notin> blocked_usage_count ` set A"
    and s: "queues_match (requests_on A) s" "counts_match (set A) (requests_on A) s"
    "count_token s (blocked_usage_count t) = 0"
  defines "req \<equiv> requests_on (A @ [t])"
  shows "\<exists>counts queues. let s' = s\<lparr>count_token := counts, usage_queue_token := queues\<rparr> in
    try_lock_usage_queues s t = Some (if blocked_on req t = [] then Some t else None, s')
    \<and> queues_match req s' \<and> counts_match (set (A @ [t])) req s'"
proof -
  let ?cs = "lock_contexts t" and ?n = "length (blocked_on req t)" and ?f = blocked_usage_count
  let ?queues = "\<lambda>a. case usage_on t a of None \<Rightarrow> usage_queue_token s a
     | Some u \<Rightarrow> queue_of (requests_on A a @ [(u, t)])"
  have small: "length (requests_on A a) < 2 ^ 32 - 1" for a
    using wf_requestsD(2) [OF wf_requests_on] A(1,2) by simp
  have b: "blocked_on req t =
      filter (\<lambda>c. \<not> grants (requests_on A (usage_queue c)) (requested_usage c)) ?cs"
    unfolding req_def using A(3,4) by (intro blocked_on_snoc_new)
  have n: "?n < 2 ^ 32 - 1"
    unfolding blocked_on_def
    by (rule le_less_trans [OF length_filter_le]) (use A(3) in \<open>auto simp: wf_task_def\<close>)
  have lock: "try_lock_contexts t ?cs 0 s = Some (of_nat ?n, s\<lparr>usage_queue_token := ?queues\<rparr>)"
    unfolding b
    using try_lock_contexts_spec [of ?cs s "requests_on A" 0 t] s(1) A(3) small
    by (auto simp: queues_match_def wf_task_def)
  have q: "queues_match req (s'\<lparr>usage_queue_token := ?queues\<rparr>)" for s'
    using s(1) by (auto simp: queues_match_def req_def requests_on_snoc split: option.splits)
  have zero: "(of_nat ?n :: u32) = 0 \<longleftrightarrow> blocked_on req t = []"
    using n by (simp add: word_unat_eq_iff unat_of_nat_exact)
  have old: "t' \<in> set A \<Longrightarrow> blocked_on req t' = blocked_on (requests_on A) t' \<and> ?f t' \<noteq> ?f t" for t'
    unfolding req_def using A(4,5) by (metis blocked_on_snoc_old imageI)
  show ?thesis
  proof (cases "blocked_on req t = []")
    case True
    then show ?thesis
      using lock q [of s] s(2,3) old
      by (intro exI [of _ "count_token s"] exI [of _ ?queues])
        (auto simp: try_lock_usage_queues_def counts_match_def)
  next
    case False
    then show ?thesis
      using lock zero q s(2) old
      by (intro exI [of _ "(count_token s)(?f t := of_nat ?n)"] exI [of _ ?queues])
        (auto simp: try_lock_usage_queues_def set_blocked_usage_count_def counts_match_def queues_match_def)
  qed
qed

definition admits :: "Task \<Rightarrow> SchedulingStateMachine \<Rightarrow> bool" where
  "admits t s \<longleftrightarrow>
     (case max_unique_active_task_count s of
        None \<Rightarrow> True
      | Some n \<Rightarrow> card (unique_active_task_hashes s) < n \<and> task_hash t \<notin> unique_active_task_hashes s)"

definition new_task :: "Task \<Rightarrow> Task list \<Rightarrow> SchedulingStateMachine \<Rightarrow> bool" where
  "new_task t A s \<longleftrightarrow> wf_task t \<and> t \<notin> set A
     \<and> blocked_usage_count t \<notin> blocked_usage_count ` set A
     \<and> count_token s (blocked_usage_count t) = 0"

lemma admit_unique_spec:
  assumes "Suc (unat (dropped_task_count s)) < 2 ^ 32"
  shows "admit_unique t s = Some (if admits t s
    then Inr (s\<lparr>unique_active_task_hashes := (if max_unique_active_task_count s = None
           then unique_active_task_hashes s else insert (task_hash t) (unique_active_task_hashes s))\<rparr>)
    else Inl (s\<lparr>dropped_task_count := dropped_task_count s + 1\<rparr>))"
  using increment_Some [OF assms]
  by (auto simp: admit_unique_def admits_def not_less not_le split: option.splits)

lemma admits_total [simp]: "admits t (s\<lparr>total_task_count := n\<rparr>) = admits t s"
  by (simp add: admits_def split: option.split)

lemma ready_match_snoc:
  assumes "ready_match (set A) R (requests_on A) s" "t \<notin> set A"
    and "unblocked_task_queue s' = unblocked_task_queue s"
    and "blocked_on (requests_on (A @ [t])) t \<noteq> []"
  shows "ready_match (set (A @ [t])) R (requests_on (A @ [t])) s'"
  using assms blocked_on_snoc_old [of t _ A] by (auto simp: ready_match_def set_eq_iff) metis+

lemma ready_match_snoc_run:
  assumes "ready_match (set A) R (requests_on A) s" "t \<notin> set A"
    and "unblocked_task_queue s' = unblocked_task_queue s"
    and "blocked_on (requests_on (A @ [t])) t = []"
  shows "ready_match (set (A @ [t])) (insert t R) (requests_on (A @ [t])) s'"
  using assms blocked_on_snoc_old [of t _ A] by (auto simp: ready_match_def set_eq_iff) metis+

lemma ready_match_snoc_buffer:
  assumes "ready_match (set A) R (requests_on A) s" "t \<notin> set A"
    and "unblocked_task_queue s' = unblocked_task_queue s @ [t]"
    and "blocked_on (requests_on (A @ [t])) t = []"
  shows "ready_match (set (A @ [t])) R (requests_on (A @ [t])) s'"
  using assms blocked_on_snoc_old [of t _ A] by (auto simp: ready_match_def set_eq_iff) metis+


lemma schedule_dropped:
  assumes inv: "fifo_inv A R s" and "\<not> admits t s" and room: "Suc (unat (total_task_count s)) < 2 ^ 31"
  shows "\<exists>s'. schedule_or_buffer_task s t force = Some (None, s') \<and> fifo_inv A R s'"
proof -
  let ?s = "s\<lparr>total_task_count := total_task_count s + 1\<rparr>"
  have c: "counters_match A R s" using inv by (simp add: fifo_inv_def)
  then have d: "Suc (unat (dropped_task_count s)) < 2 ^ 32" using room by (auto simp: counters_match_def)
  have t: "increment (total_task_count s) = Some (total_task_count s + 1)"
    "unat (total_task_count s + 1) = Suc (unat (total_task_count s))"
    using increment_Some [of "total_task_count s"] room by auto
  have "schedule_or_buffer_task s t force = Some (None, ?s\<lparr>dropped_task_count := dropped_task_count s + 1\<rparr>)"
    using admit_unique_spec [of ?s t] d assms(2)
    by (simp add: schedule_or_buffer_task_def t(1))
  moreover have "fifo_inv A R (?s\<lparr>dropped_task_count := dropped_task_count s + 1\<rparr>)"
    using inv room t(2) increment_Some [OF d]
    by (auto simp: fifo_inv_def queues_match_def counts_match_def ready_match_def counters_match_def hashes_match_def
        split: option.splits)
  ultimately show ?thesis by blast
qed

lemma schedule_admitted:
  assumes inv: "fifo_inv A R s" and new: "new_task t A s" and adm: "admits t s"
    and room: "Suc (unat (total_task_count s)) < 2 ^ 31"
  defines "free \<equiv> blocked_on (requests_on (A @ [t])) t = []"
  shows "\<exists>s'. if free \<and> is_task_runnable s \<and> \<not> force
    then schedule_or_buffer_task s t force = Some (Some t, s') \<and> fifo_inv (A @ [t]) (insert t R) s'
    else schedule_or_buffer_task s t force = Some (None, s') \<and> fifo_inv (A @ [t]) R s'"
proof -
  have c: "counters_match A R s" using inv by (simp add: fifo_inv_def)
  then have d: "Suc (unat (dropped_task_count s)) < 2 ^ 32" using room by (auto simp: counters_match_def)
  have t: "increment (total_task_count s) = Some (total_task_count s + 1)"
    "unat (total_task_count s + 1) = Suc (unat (total_task_count s))"
    using increment_Some [of "total_task_count s"] room by auto
  have a: "increment (active_task_count s) = Some (active_task_count s + 1)"
    "unat (active_task_count s + 1) = Suc (unat (active_task_count s))"
    using increment_Some [of "active_task_count s"] c room by (auto simp: counters_match_def)
  have u: "increment (unblocked_task_count s) = Some (unblocked_task_count s + 1)"
    "unat (unblocked_task_count s + 1) = Suc (unat (unblocked_task_count s))"
    using increment_Some [of "unblocked_task_count s"] c room by (auto simp: counters_match_def)
  define h where "h = (if max_unique_active_task_count s = None then unique_active_task_hashes s
    else insert (task_hash t) (unique_active_task_hashes s))"
  have admitted: "admit_unique t (s\<lparr>total_task_count := total_task_count s + 1\<rparr>) =
      Some (Inr (s\<lparr>total_task_count := total_task_count s + 1, unique_active_task_hashes := h\<rparr>))"
    using admit_unique_spec [of "s\<lparr>total_task_count := total_task_count s + 1\<rparr>" t] d adm
    by (simp add: h_def)
  let ?s = "s\<lparr>total_task_count := total_task_count s + 1, unique_active_task_hashes := h,
    active_task_count := active_task_count s + 1,
    peak_active_task_count := max (peak_active_task_count s) (active_task_count s + 1)\<rparr>"
  have pre: "queues_match (requests_on A) ?s" "counts_match (set A) (requests_on A) ?s"
      "count_token ?s (blocked_usage_count t) = 0"
    using inv new by (auto simp: fifo_inv_def queues_match_def counts_match_def new_task_def)
  have A: "distinct A" "wf_task t" "t \<notin> set A" "blocked_usage_count t \<notin> blocked_usage_count ` set A"
    using inv new by (auto simp: fifo_inv_def new_task_def)
  from try_lock_usage_queues_spec [OF A(1) fifo_inv_length [OF inv] A(2-4) pre]
  obtain counts queues where
    lock: "try_lock_usage_queues ?s t =
      Some (if free then Some t else None, ?s\<lparr>count_token := counts, usage_queue_token := queues\<rparr>)"
    and q: "queues_match (requests_on (A @ [t])) (?s\<lparr>count_token := counts, usage_queue_token := queues\<rparr>)"
    and k: "counts_match (set (A @ [t])) (requests_on (A @ [t]))
      (?s\<lparr>count_token := counts, usage_queue_token := queues\<rparr>)"
    unfolding Let_def free_def by blast
  let ?s1 = "?s\<lparr>count_token := counts, usage_queue_token := queues\<rparr>"
  have sched: "schedule_or_buffer_task s t force =
     (if \<not> free then Some (None, ?s1)
      else if \<not> is_task_runnable s \<or> force
      then Some (None, ?s1\<lparr>unblocked_task_count := unblocked_task_count s + 1,
                         unblocked_task_queue := unblocked_task_queue s @ [t]\<rparr>)
      else do { r \<leftarrow> increment (running_task_count s); Some (Some t, ?s1\<lparr>running_task_count := r\<rparr>) })"
    using lock by (cases free) (simp_all add: schedule_or_buffer_task_def admitted t(1) a(1) u(1) is_task_runnable_def)
  have base: "distinct (A @ [t]) \<and> inj_on blocked_usage_count (set (A @ [t])) \<and> (\<forall>t \<in> set (A @ [t]). wf_task t)"
    using inv A by (auto simp: fifo_inv_def)
  have h: "hashes_match (A @ [t]) ?s1"
    using inv adm A(1,3)
    by (auto simp: h_def fifo_inv_def hashes_match_def admits_def card_image distinct_card split: option.splits)
  have cR: "card R \<le> length A" "t \<notin> R" "finite R"
    using fifo_inv_running [OF inv] A(3) card_mono [of "set A" R] distinct_card [OF A(1)] by auto
  have rdy: "ready_match (set A) R (requests_on A) s" using inv by (simp add: fifo_inv_def)
  note matches = fifo_inv_def queues_match_def counts_match_def counters_match_def hashes_match_def
  consider (blocked) "\<not> free" | (buffered) "free" "\<not> is_task_runnable s \<or> force"
    | (run) "free" "is_task_runnable s" "\<not> force" by blast
  then show ?thesis
  proof cases
    case blocked
    have "ready_match (set (A @ [t])) R (requests_on (A @ [t])) ?s1"
      using blocked by (intro ready_match_snoc [OF rdy A(3)]) (auto simp: free_def)
    then have "fifo_inv (A @ [t]) R ?s1"
      unfolding fifo_inv_def using base q k h c room cR a(2) t(2)
      by (auto simp: counters_match_def)
    with blocked sched show ?thesis by auto
  next
    case buffered
    let ?s2 = "?s1\<lparr>unblocked_task_count := unblocked_task_count s + 1,
                   unblocked_task_queue := unblocked_task_queue s @ [t]\<rparr>"
    have "ready_match (set (A @ [t])) R (requests_on (A @ [t])) ?s2"
      using buffered by (intro ready_match_snoc_buffer [OF rdy A(3)]) (auto simp: free_def)
    then have "fifo_inv (A @ [t]) R ?s2"
      using base q k h c room cR a(2) t(2) u(2)
      by (auto simp: matches split: option.splits)
    with buffered sched show ?thesis by auto
  next
    case run
    then have "unat (running_task_count s) < unat (max_running_task_count s)"
      by (simp add: is_task_runnable_def word_less_nat_alt)
    moreover have "unat (max_running_task_count s) < 2 ^ 32"
      using unat_lt_len [of "max_running_task_count s"] by simp
    ultimately have r: "increment (running_task_count s) = Some (running_task_count s + 1)"
        "unat (running_task_count s + 1) = Suc (unat (running_task_count s))"
        "unat (running_task_count s) < unat (max_running_task_count s)"
      using increment_Some [of "running_task_count s"] by auto
    let ?s2 = "?s1\<lparr>running_task_count := running_task_count s + 1\<rparr>"
    have "ready_match (set (A @ [t])) (insert t R) (requests_on (A @ [t])) ?s2"
      using run by (intro ready_match_snoc_run [OF rdy A(3)]) (auto simp: free_def)
    then have "fifo_inv (A @ [t]) (insert t R) ?s2"
      using base q k h c room cR a(2) t(2) r
      by (auto simp: matches split: option.splits)
    with run sched r show ?thesis by auto
  qed
qed

end
