(* ===== verification/FifoReachable.thy ===== *)
theory FifoReachable
  imports FifoMachine
begin

text \<open>
  Runs of the scheduling machine: the remaining operations preserve the relation to the
  abstract scheduler, and the properties that hold in every reachable state follow from it.
\<close>

section \<open>Next and finished tasks\<close>

lemma schedule_next_inv:
  assumes inv: "fifo_inv A R s"
  shows "\<exists>r s'. schedule_next_unblocked_task s = Some (r, s') \<and>
    (case r of
       None \<Rightarrow> s' = s \<and> (unblocked_task_queue s = [] \<or> \<not> is_task_runnable s)
     | Some t \<Rightarrow> t \<in> set A - R \<and> fifo_inv A (insert t R) s')"
proof (cases "is_task_runnable s")
  case False
  then show ?thesis by (simp add: schedule_next_unblocked_task_def)
next
  case True
  show ?thesis
  proof (cases "unblocked_task_queue s")
    case Nil
    with True show ?thesis by (simp add: schedule_next_unblocked_task_def)
  next
    case (Cons t ts)
    have c: "counters_match A R s" and rdy: "ready_match (set A) R (requests_on A) s"
      using inv by (auto simp: fifo_inv_def)
    have mem: "t \<in> set A" "t \<notin> R" "distinct (t # ts)" using rdy Cons by (auto simp: ready_match_def)
    have fin: "finite R" "R \<subseteq> set A" using fifo_inv_running [OF inv] by auto
    with mem have "card (insert t R) \<le> length A"
      using card_mono [of "set A" "insert t R"] inv by (auto simp: fifo_inv_def distinct_card)
    then have cR: "Suc (card R) \<le> length A" using fin mem by simp
    have r: "increment (running_task_count s) = Some (running_task_count s + 1)"
        "unat (running_task_count s + 1) = Suc (unat (running_task_count s))"
      using increment_Some [of "running_task_count s"] c cR fifo_inv_length [OF inv]
      by (auto simp: counters_match_def)
    have u: "increment (unblocked_task_count s) = Some (unblocked_task_count s + 1)"
        "unat (unblocked_task_count s + 1) = Suc (unat (unblocked_task_count s))"
      using increment_Some [of "unblocked_task_count s"] c cR by (auto simp: counters_match_def)
    let ?s = "s\<lparr>unblocked_task_queue := ts, running_task_count := running_task_count s + 1,
      unblocked_task_count := unblocked_task_count s + 1\<rparr>"
    have "ready_match (set A) (insert t R) (requests_on A) ?s"
      using rdy Cons by (auto simp: ready_match_def)
    moreover have "unat (running_task_count s) < unat (max_running_task_count s)"
      using True by (simp add: is_task_runnable_def word_less_nat_alt)
    ultimately have "fifo_inv A (insert t R) ?s"
      using inv c cR r u fin mem
      by (auto simp: fifo_inv_def queues_match_def counts_match_def counters_match_def hashes_match_def
          split: option.splits)
    with True Cons r u mem show ?thesis by (simp add: schedule_next_unblocked_task_def)
  qed
qed

lemma requests_on_remove_fun:
  assumes "distinct A"
  shows "(\<lambda>a. if a \<in> usage_queue ` set (lock_contexts t) then leave t (requests_on A a) else requests_on A a)
    = requests_on (remove1 t A)"
proof
  fix a
  have "a \<notin> usage_queue ` set (lock_contexts t) \<Longrightarrow> leave t (requests_on A a) = requests_on A a"
    by (rule leave_absent) (force simp: requests_on_mem usage_in_None [symmetric])
  then show "(if a \<in> usage_queue ` set (lock_contexts t) then leave t (requests_on A a) else requests_on A a)
    = requests_on (remove1 t A) a"
    using requests_on_remove [OF assms, of t a] by simp
qed

lemma deschedule_inv:
  assumes inv: "fifo_inv A R s" and "t \<in> R"
  shows "\<exists>s'. deschedule_task s t = Some s' \<and> fifo_inv (remove1 t A) (R - {t}) s'"
proof -
  let ?T = "set A - {t}"
  have c: "counters_match A R s" and rdy: "ready_match (set A) R (requests_on A) s"
    and cnt: "counts_match (set A) (requests_on A) s" and "queues_match (requests_on A) s"
    and A: "distinct A" "inj_on blocked_usage_count (set A)" "\<forall>t \<in> set A. wf_task t"
    and hm: "hashes_match A s"
    using inv by (auto simp: fifo_inv_def)
  have R: "R \<subseteq> set A" "finite R" "card R \<le> length A" "0 < card R"
    using fifo_inv_running [OF inv] \<open>t \<in> R\<close> card_mono [of "set A" R] distinct_card [OF A(1)]
    by (auto simp: card_gt_0_iff)
  then have "t \<in> set A" using \<open>t \<in> R\<close> by blast
  then have len: "length A = Suc (length (remove1 t A))" "set (remove1 t A) = ?T"
    using A(1) length_pos_if_in_set [of t A] by (auto simp: length_remove1)
  have r: "decrement (running_task_count s) = Some (running_task_count s - 1)"
      "unat (running_task_count s - 1) = unat (running_task_count s) - 1"
    using decrement_Some [of "running_task_count s"] c R by (auto simp: counters_match_def)
  have a: "decrement (active_task_count s) = Some (active_task_count s - 1)"
      "unat (active_task_count s - 1) = unat (active_task_count s) - 1"
    using decrement_Some [of "active_task_count s"] c len by (auto simp: counters_match_def)
  have h: "increment (handled_task_count s) = Some (handled_task_count s + 1)"
      "unat (handled_task_count s + 1) = Suc (unat (handled_task_count s))"
    using increment_Some [of "handled_task_count s"] c by (auto simp: counters_match_def)
  define hs where "hs = (if max_unique_active_task_count s = None then unique_active_task_hashes s
    else unique_active_task_hashes s - {task_hash t})"
  have hs: "max_unique_active_task_count s \<noteq> None \<Longrightarrow> task_hash t \<in> unique_active_task_hashes s"
    using hm \<open>t \<in> set A\<close> by (auto simp: hashes_match_def)
  let ?s = "s\<lparr>running_task_count := running_task_count s - 1, unique_active_task_hashes := hs,
    active_task_count := active_task_count s - 1, handled_task_count := handled_task_count s + 1\<rparr>"
  have desch: "deschedule_task s t = unlock_contexts t (lock_contexts t) ?s"
    using hs by (simp add: deschedule_task_def unlock_usage_queues_def r(1) a(1) h(1) hs_def)
  have free: "blocked_on (requests_on A) t = []"
    using rdy \<open>t \<in> R\<close> by (auto simp: ready_match_def)
  have "insert t ?T = set A" using \<open>t \<in> set A\<close> by blast
  then have "wf_requests (insert t ?T) (requests_on A)"
    using fifo_inv_requests [OF inv] by simp
  moreover have "inj_on blocked_usage_count ?T" "\<forall>t' \<in> ?T. wf_task t'" "t \<notin> ?T"
    using A by (auto intro: inj_on_subset)
  moreover have "queues_match (requests_on A) ?s" "counts_match ?T (requests_on A) ?s"
    using \<open>queues_match (requests_on A) s\<close> cnt by (auto simp: queues_match_def counts_match_def)
  moreover have "ready_match ?T (R - {t}) (requests_on A) ?s"
    using rdy \<open>t \<in> R\<close> by (auto simp: ready_match_def)
  moreover have "\<forall>c \<in> set (lock_contexts t). held (requests_on A (usage_queue c)) t
      \<and> usage_on t (usage_queue c) = Some (requested_usage c)"
    using free A(3) \<open>t \<in> set A\<close> by (auto simp: blocked_on_def wf_task_def usage_in_mem filter_empty_conv)
  moreover have "distinct (map usage_queue (lock_contexts t))"
    using A(3) \<open>t \<in> set A\<close> by (simp add: wf_task_def)
  ultimately obtain counts ready queues where
    "let s' = ?s\<lparr>count_token := counts, unblocked_task_queue := ready, usage_queue_token := queues\<rparr>
     in unlock_contexts t (lock_contexts t) ?s = Some s' \<and> queues_match (requests_on (remove1 t A)) s'
       \<and> counts_match ?T (requests_on (remove1 t A)) s' \<and> ready_match ?T (R - {t}) (requests_on (remove1 t A)) s'"
    using unlock_contexts_spec [of t ?T "requests_on A" ?s "R - {t}" "lock_contexts t"]
    unfolding requests_on_remove_fun [OF A(1)] by blast
  then obtain s' where s': "s' = ?s\<lparr>count_token := counts, unblocked_task_queue := ready, usage_queue_token := queues\<rparr>"
    "deschedule_task s t = Some s'" "queues_match (requests_on (remove1 t A)) s'"
    "counts_match ?T (requests_on (remove1 t A)) s'" "ready_match ?T (R - {t}) (requests_on (remove1 t A)) s'"
    unfolding desch by (auto simp: Let_def)
  have "counters_match (remove1 t A) (R - {t}) s'"
    using c len R \<open>t \<in> R\<close> r(2) a(2) h(2) by (auto simp: s'(1) counters_match_def)
  moreover have "hashes_match (remove1 t A) s'"
    using hm len \<open>t \<in> set A\<close>
    by (auto simp: s'(1) hashes_match_def hs_def inj_on_def split: option.splits)
  ultimately have "fifo_inv (remove1 t A) (R - {t}) s'"
    using s' A len(2) by (auto simp: fifo_inv_def intro: inj_on_subset)
  with s'(2) show ?thesis by blast
qed


section \<open>Runs\<close>

text \<open>
  A run of the machine over fresh first-in-first-out queues, with the list of active tasks in
  arrival order and the set of running tasks carried along. Callers schedule or buffer newly
  created tasks, take unblocked tasks, deschedule running tasks, and reinitialise.
\<close>

inductive fifo_run :: "Task list \<Rightarrow> Task set \<Rightarrow> SchedulingStateMachine \<Rightarrow> bool" where
  init: "exclusively_initialize max_running max_unique counts (\<lambda>_. UsageQueueInner_new FifoQueueing) = Some s
    \<Longrightarrow> fifo_run [] {} s"
| create: "fifo_run A R s \<Longrightarrow> c \<notin> blocked_usage_count ` set A
    \<Longrightarrow> do_create_task tx tid block_size epoch slot loader c (count_token s) = (t, counts)
    \<Longrightarrow> fifo_run A R (s\<lparr>count_token := counts\<rparr>)"
| dropped: "fifo_run A R s \<Longrightarrow> \<not> admits t s \<Longrightarrow> Suc (unat (total_task_count s)) < 2 ^ 31
    \<Longrightarrow> schedule_or_buffer_task s t force = Some (r, s') \<Longrightarrow> fifo_run A R s'"
| buffered: "fifo_run A R s \<Longrightarrow> admits t s \<Longrightarrow> new_task t A s \<Longrightarrow> Suc (unat (total_task_count s)) < 2 ^ 31
    \<Longrightarrow> schedule_or_buffer_task s t force = Some (None, s') \<Longrightarrow> fifo_run (A @ [t]) R s'"
| scheduled: "fifo_run A R s \<Longrightarrow> admits t s \<Longrightarrow> new_task t A s \<Longrightarrow> Suc (unat (total_task_count s)) < 2 ^ 31
    \<Longrightarrow> schedule_or_buffer_task s t force = Some (Some t', s') \<Longrightarrow> fifo_run (A @ [t]) (insert t' R) s'"
| unblocked: "fifo_run A R s \<Longrightarrow> schedule_next_unblocked_task s = Some (Some t, s')
    \<Longrightarrow> fifo_run A (insert t R) s'"
| finished: "fifo_run A R s \<Longrightarrow> t \<in> R \<Longrightarrow> deschedule_task s t = Some s'
    \<Longrightarrow> fifo_run (remove1 t A) (R - {t}) s'"
| restarted: "fifo_run A R s \<Longrightarrow> reinitialize s = Some s' \<Longrightarrow> fifo_run A R s'"

lemma fifo_inv_init:
  assumes "exclusively_initialize max_running max_unique counts (\<lambda>_. UsageQueueInner_new FifoQueueing) = Some s"
  shows "fifo_inv [] {} s"
  using assms
  by (auto simp: exclusively_initialize_def fifo_inv_def queues_match_def counts_match_def ready_match_def
      counters_match_def hashes_match_def split: bind_splits option.splits)

lemma fifo_inv_reinit:
  assumes "fifo_inv A R s" and "reinitialize s = Some s'"
  shows "fifo_inv A R s' \<and> A = [] \<and> R = {}"
proof -
  from assms have "A = []"
    by (auto simp: reinitialize_def has_no_active_task_def fifo_inv_def counters_match_def split: if_splits)
  moreover then have "R = {}" using fifo_inv_running [OF assms(1)] by simp
  ultimately show ?thesis using assms
    by (auto simp: reinitialize_def fifo_inv_def queues_match_def counts_match_def ready_match_def
        counters_match_def hashes_match_def split: if_splits option.splits)
qed

lemma fifo_inv_create:
  assumes "fifo_inv A R s" and "c \<notin> blocked_usage_count ` set A"
  shows "fifo_inv A R (s\<lparr>count_token := (count_token s)(c := 0)\<rparr>)"
  using assms
  by (auto simp: fifo_inv_def queues_match_def counts_match_def ready_match_def counters_match_def
      hashes_match_def split: option.splits)

lemma fifo_run_inv: "fifo_run A R s \<Longrightarrow> fifo_inv A R s"
proof (induction rule: fifo_run.induct)
  case (init max_running max_unique counts s)
  then show ?case by (rule fifo_inv_init)
next
  case (create A R s c tx tid block_size epoch slot loader t counts)
  then show ?case by (auto simp: do_create_task_def intro: fifo_inv_create)
next
  case (dropped A R s t force r s')
  then show ?case using schedule_dropped [of A R s t force] by auto
next
  case (buffered A R s t force s')
  then show ?case using schedule_admitted [of A R s t force] by (auto split: if_splits)
next
  case (scheduled A R s t force t' s')
  then show ?case using schedule_admitted [of A R s t force] by (auto split: if_splits)
next
  case (unblocked A R s t s')
  then show ?case using schedule_next_inv [of A R s] by auto
next
  case (finished A R s t s')
  then show ?case using deschedule_inv [of A R s t] by auto
next
  case (restarted A R s s')
  then show ?case using fifo_inv_reinit by blast
qed

section \<open>Properties of every run\<close>

definition conflicts :: "Task \<Rightarrow> Task \<Rightarrow> bool" where
  "conflicts t t' \<longleftrightarrow> (\<exists>a u u'. usage_on t a = Some u \<and> usage_on t' a = Some u'
     \<and> (u = RequestWritable \<or> u' = RequestWritable))"

lemma holders_readers:
  "x \<in> set (holders us) \<Longrightarrow> y \<in> set (holders us) \<Longrightarrow> x \<noteq> y \<Longrightarrow> reading x \<and> reading y"
  by (cases us rule: holders.cases) (auto dest: set_takeWhileD)

lemma holders_downward:
  assumes "us = xs @ x # ys" and "y \<in> set ys" and "y \<in> set (holders us)" and "distinct us"
  shows "x \<in> set (holders us)"
proof -
  let ?n = "length (holders us)"
  have "y \<notin> set (take (Suc (length xs)) us)" using assms by (auto simp: take_Suc_conv_app_nth)
  moreover have "y \<in> set (take ?n us)" using assms(3) holders_prefix [of us] by simp
  ultimately have "Suc (length xs) < ?n"
    by (metis not_less set_take_subset_set_take subsetD)
  then have "x \<in> set (take ?n us)" using assms(1) by (auto simp: take_Cons')
  then show ?thesis using holders_prefix [of us] by simp
qed

lemma requests_on_split: "requests_on (A @ B) a = requests_on A a @ requests_on B a"
  by (induction A) (auto split: option.splits)

lemma ready_no_earlier_conflict:
  assumes inv: "fifo_inv (A @ t' # B) R s" and "t \<in> set B"
    and free: "blocked_on (requests_on (A @ t' # B)) t = []"
  shows "\<not> conflicts t t'"
proof
  let ?A = "A @ t' # B"
  assume "conflicts t t'"
  then obtain a u u' where u: "usage_on t a = Some u" "usage_on t' a = Some u'"
    "u = RequestWritable \<or> u' = RequestWritable" by (auto simp: conflicts_def)
  let ?us = "requests_on ?A a"
  have t: "(u, t) \<in> set (requests_on B a)" using u(1) assms(2) by (simp add: requests_on_mem)
  have us: "?us = requests_on A a @ (u', t') # requests_on B a"
    using u(2) by (simp add: requests_on_split)
  have wf: "distinct (map snd ?us)" using wf_requestsD(1) [OF fifo_inv_requests [OF inv]] by simp
  have "a \<in> usage_queue ` set (lock_contexts t)" using u(1) usage_in_None by (metis option.distinct(1))
  then have "held ?us t" using free by (auto simp: blocked_on_def filter_empty_conv)
  then obtain v where v: "(v, t) \<in> set (holders ?us)" by (auto simp: held_def)
  moreover have "(v, t) \<in> set ?us" using v set_holders by blast
  then have "v = u" using u(1) by (simp only: requests_on_mem) simp
  ultimately have ht: "(u, t) \<in> set (holders ?us)" by simp
  then have "(u', t') \<in> set (holders ?us)"
    using holders_downward [OF us t] wf by (simp add: distinct_map)
  moreover have "t \<noteq> t'" using inv assms(2) by (auto simp: fifo_inv_def)
  ultimately show False using holders_readers [OF ht] u(3) by fastforce
qed

lemma running_ready: "fifo_inv A R s \<Longrightarrow> t \<in> R \<Longrightarrow> t \<in> set A \<and> blocked_on (requests_on A) t = []"
  by (auto simp: fifo_inv_def ready_match_def)

lemma conflicts_sym: "conflicts t t' \<longleftrightarrow> conflicts t' t"
  by (auto simp: conflicts_def)


lemma deadlock_free:
  assumes inv: "fifo_inv A R s" and "A \<noteq> []" and "R = {}"
  shows "unblocked_task_queue s \<noteq> []"
proof -
  obtain t A' where A: "A = t # A'" using assms(2) by (cases A) auto
  have "held (requests_on A (usage_queue c)) t" if "c \<in> set (lock_contexts t)" for c
  proof -
    have "usage_on t (usage_queue c) = Some (requested_usage c)"
      using that inv A by (auto simp: fifo_inv_def wf_task_def usage_in_mem)
    then show ?thesis using A by (cases "requested_usage c") (auto simp: held_def)
  qed
  then have "blocked_on (requests_on A) t = []" by (simp add: blocked_on_def filter_empty_conv)
  then have "t \<in> set (unblocked_task_queue s)"
    using inv A assms(3) by (auto simp: fifo_inv_def ready_match_def)
  then show ?thesis by auto
qed

lemma quiescent:
  assumes "fifo_inv [] R s"
  shows "has_no_active_task s" and "usage_queue_token s = (\<lambda>_. Fifo None [])"
    and "unblocked_task_queue s = []" and "running_task_count s = 0" and "unique_active_task_hashes s = {}"
proof -
  have "R = {}" using fifo_inv_running [OF assms] by simp
  with assms show "has_no_active_task s" "usage_queue_token s = (\<lambda>_. Fifo None [])"
    "unblocked_task_queue s = []" "running_task_count s = 0" "unique_active_task_hashes s = {}"
    by (auto simp: fifo_inv_def has_no_active_task_def queues_match_def ready_match_def counters_match_def
        hashes_match_def unsigned_eq_0_iff split: option.splits)
qed

lemma max_running_unlock:
  "unlock_contexts t cs s = Some s' \<Longrightarrow> max_running_task_count s' = max_running_task_count s"
  by (induction cs arbitrary: s) (fastforce split: bind_splits)+

lemma max_running_fixed:
  "schedule_next_unblocked_task s = Some (r, s') \<Longrightarrow> max_running_task_count s' = max_running_task_count s"
  "deschedule_task s t = Some s' \<Longrightarrow> max_running_task_count s' = max_running_task_count s"
  by (auto simp: schedule_next_unblocked_task_def deschedule_task_def unlock_usage_queues_def
      dest!: max_running_unlock split: if_splits list.splits bind_splits)

lemma clear_loop_spec:
  assumes "fifo_inv A {} s" and "0 < max_running_task_count s" and "n + length A < 2 ^ 32"
  shows "\<exists>s'. clear_loop s (of_nat n) = Some (of_nat (n + length A), s') \<and> fifo_inv [] {} s'"
  using assms
proof (induction "length A" arbitrary: A n s)
  case 0
  then have "schedule_next_unblocked_task s = Some (None, s)"
    using quiescent(3) [of "{}" s] by (simp add: schedule_next_unblocked_task_def)
  with 0 show ?case by (simp add: clear_loop.simps [of s])
next
  case (Suc m)
  then have "A \<noteq> []" by auto
  have "is_task_runnable s"
    using Suc.prems(1,2) by (simp add: is_task_runnable_def fifo_inv_def counters_match_def unsigned_eq_0_iff)
  with schedule_next_inv [OF Suc.prems(1)] deadlock_free [OF Suc.prems(1) \<open>A \<noteq> []\<close>]
  obtain t s1 where t: "schedule_next_unblocked_task s = Some (Some t, s1)" "t \<in> set A" "fifo_inv A {t} s1"
    by (auto split: option.splits)
  from deschedule_inv [OF t(3)] obtain s2 where
    s2: "deschedule_task s1 t = Some s2" "fifo_inv (remove1 t A) {} s2" by auto
  have len: "m = length (remove1 t A)" "length A = Suc m"
    using Suc.hyps(2) t(2) by (auto simp: length_remove1)
  have "0 < max_running_task_count s2"
    using Suc.prems(2) max_running_fixed(1) [OF t(1)] max_running_fixed(2) [OF s2(1)] by simp
  with Suc.hyps(1) [OF len(1) s2(2), of "Suc n"] Suc.prems(3) len obtain s' where
    rec: "clear_loop s2 (of_nat (Suc n)) = Some (of_nat (Suc n + m), s')" "fifo_inv [] {} s'"
    by (auto simp del: of_nat_Suc of_nat_add)
  moreover have "increment (of_nat n) = Some (of_nat (Suc n))"
    using Suc.prems(3) len by (intro increment_of_nat) simp
  ultimately show ?case using t(1) s2(1) len
    by (simp add: clear_loop.simps [of s] del: of_nat_Suc of_nat_add)
qed

section \<open>A run for the witnesses\<close>

text \<open>
  Task 1 writes address 10 and reads 11, task 2 reads 11 and writes 12, task 3 writes 10. The
  first two run side by side; with forced buffering task 1 waits in the unblocked queue.
\<close>

definition demo_task :: "nat \<Rightarrow> (cell \<times> RequestedUsage) list \<Rightarrow> Task" where
  "demo_task n uses = TaskInner \<lparr>message_hash = of_nat n, account_keys = [], is_writable = (\<lambda>_. False)\<rparr>
     (of_nat n) (map (\<lambda>(a, u). \<lparr>usage_queue = a, requested_usage = u\<rparr>) uses) n 0 0 0"

definition demo1 :: Task where "demo1 = demo_task 1 [(10, RequestWritable), (11, RequestReadonly)]"
definition demo2 :: Task where "demo2 = demo_task 2 [(11, RequestReadonly), (12, RequestWritable)]"
definition demo3 :: Task where "demo3 = demo_task 3 [(10, RequestWritable)]"

definition demo_start :: SchedulingStateMachine where
  "demo_start = the (exclusively_initialize (Some 2) (Some 5) (\<lambda>_. 0) (\<lambda>_. Fifo None []))"
definition demo_one :: SchedulingStateMachine where
  "demo_one = snd (the (schedule_or_buffer_task demo_start demo1 False))"
definition demo_two :: SchedulingStateMachine where
  "demo_two = snd (the (schedule_or_buffer_task demo_one demo2 False))"
definition demo_buffered :: SchedulingStateMachine where
  "demo_buffered = snd (the (schedule_or_buffer_task demo_start demo1 True))"

lemmas demo_defs = demo_task_def demo1_def demo2_def demo3_def demo_start_def exclusively_initialize_def
  schedule_or_buffer_task_def admit_unique_def increment_def checked_add_def try_lock_usage_queues_def
  try_lock_context_def is_task_runnable_def push_blocked_def task_hash_def

lemma demo_start_run: "fifo_run [] {} demo_start"
  by (rule fifo_run.init [of "Some 2" "Some 5" "\<lambda>_. 0"]) (simp add: demo_start_def exclusively_initialize_def)

lemma demo_one_step: "schedule_or_buffer_task demo_start demo1 False = Some (Some demo1, demo_one)"
  by (simp add: demo_one_def demo_defs)

lemma demo_two_step: "schedule_or_buffer_task demo_one demo2 False = Some (Some demo2, demo_two)"
  by (simp add: demo_two_def demo_one_def demo_defs)

lemma demo_buffered_step: "schedule_or_buffer_task demo_start demo1 True = Some (None, demo_buffered)"
  by (simp add: demo_buffered_def demo_defs)

lemma demo_one_run: "fifo_run [demo1] {demo1} demo_one"
  using fifo_run.scheduled [OF demo_start_run _ _ _ demo_one_step]
  by (simp add: admits_def new_task_def wf_task_def demo_defs)

lemma demo_two_run: "fifo_run [demo1, demo2] {demo1, demo2} demo_two"
  using fifo_run.scheduled [OF demo_one_run _ _ _ demo_two_step]
  by (simp add: admits_def new_task_def wf_task_def demo_one_def demo_defs insert_commute)

lemma demo_buffered_run: "fifo_run [demo1] {} demo_buffered"
  using fifo_run.buffered [OF demo_start_run _ _ _ demo_buffered_step]
  by (simp add: admits_def new_task_def wf_task_def demo_defs)

lemma demo_new: "new_task demo3 [demo1, demo2] demo_two" "Suc (unat (total_task_count demo_two)) < 2 ^ 31"
  by (simp_all add: new_task_def wf_task_def demo_two_def demo_one_def demo_defs)

section \<open>The properties\<close>

text \<open>C1: two distinct running tasks never conflict: no address that one of them writes is used
  by the other.\<close>

theorem fifo_running_tasks_do_not_conflict:
  assumes "fifo_run A R s" and "t \<in> R" and "t' \<in> R" and "t \<noteq> t'"
  shows "\<not> conflicts t t'"
proof -
  note inv = fifo_run_inv [OF assms(1)]
  have t: "t \<in> set A" "t' \<in> set A" "blocked_on (requests_on A) t = []" "blocked_on (requests_on A) t' = []"
    using running_ready [OF inv] assms by auto
  then obtain xs ys where A: "A = xs @ t # ys" by (meson split_list)
  with t(2) assms(4) have "t' \<in> set ys \<or> t' \<in> set xs" by auto
  then show ?thesis
  proof
    assume "t' \<in> set ys"
    with ready_no_earlier_conflict [of xs t ys R s t'] inv A t show ?thesis
      by (simp add: conflicts_sym)
  next
    assume "t' \<in> set xs"
    then obtain us vs where "xs = us @ t' # vs" by (meson split_list)
    with ready_no_earlier_conflict [of us t' "vs @ t # ys" R s t] inv A t show ?thesis by simp
  qed
qed

theorem fifo_running_tasks_do_not_conflict_witness:
  "fifo_run [demo1, demo2] {demo1, demo2} demo_two \<and> \<not> conflicts demo1 demo2"
  using demo_two_run fifo_running_tasks_do_not_conflict [OF demo_two_run, of demo1 demo2]
  by (simp add: demo_defs)

text \<open>C2: a running task conflicts with no active task that arrived before it: conflicting
  tasks run in the order in which they were scheduled.\<close>

theorem fifo_conflicting_tasks_run_in_order:
  assumes "fifo_run (A @ t' # B) R s" and "t \<in> set B" and "t \<in> R"
  shows "\<not> conflicts t t'"
  using ready_no_earlier_conflict [OF fifo_run_inv [OF assms(1)] assms(2)]
    running_ready [OF fifo_run_inv [OF assms(1)] assms(3)] by blast

theorem fifo_conflicting_tasks_run_in_order_witness:
  "fifo_run ([] @ demo1 # [demo2]) {demo1, demo2} demo_two \<and> \<not> conflicts demo2 demo1"
  using demo_two_run fifo_conflicting_tasks_run_in_order [of "[]" demo1 "[demo2]" "{demo1, demo2}" demo_two demo2]
  by simp

text \<open>C3: the scheduler cannot get stuck: when tasks are active, none is running and at least
  one may run, the next unblocked task exists and is returned.\<close>

theorem fifo_no_deadlock:
  assumes "fifo_run A {} s" and "A \<noteq> []" and "0 < max_running_task_count s"
  shows "\<exists>t s'. schedule_next_unblocked_task s = Some (Some t, s') \<and> t \<in> set A"
proof -
  note inv = fifo_run_inv [OF assms(1)]
  have "is_task_runnable s"
    using inv assms(3) by (simp add: is_task_runnable_def fifo_inv_def counters_match_def unsigned_eq_0_iff)
  with schedule_next_inv [OF inv] deadlock_free [OF inv assms(2)] show ?thesis
    by (auto split: option.splits)
qed

theorem fifo_no_deadlock_witness:
  "\<exists>t s'. schedule_next_unblocked_task demo_buffered = Some (Some t, s') \<and> t \<in> set [demo1]"
proof -
  have "0 < max_running_task_count demo_buffered" by (simp add: demo_buffered_def demo_defs)
  then show ?thesis using fifo_no_deadlock [OF demo_buffered_run] by simp
qed

text \<open>C4: no operation panics: scheduling a newly created task, taking the next task and
  descheduling a running task all return, while fewer than \<open>2 ^ 31 - 1\<close> tasks were scheduled since
  the last initialisation.\<close>

theorem fifo_operations_do_not_panic:
  assumes "fifo_run A R s" and "new_task t A s" and "Suc (unat (total_task_count s)) < 2 ^ 31"
  shows "schedule_or_buffer_task s t force \<noteq> None \<and> schedule_next_unblocked_task s \<noteq> None
    \<and> (\<forall>t' \<in> R. deschedule_task s t' \<noteq> None)"
  using schedule_admitted [OF fifo_run_inv [OF assms(1)] assms(2) _ assms(3), of force]
    schedule_dropped [OF fifo_run_inv [OF assms(1)] _ assms(3), of t force]
    schedule_next_inv [OF fifo_run_inv [OF assms(1)]] deschedule_inv [OF fifo_run_inv [OF assms(1)]]
  by (cases "admits t s") (fastforce split: if_splits)+

theorem fifo_operations_do_not_panic_witness:
  "schedule_or_buffer_task demo_two demo3 False \<noteq> None \<and> deschedule_task demo_two demo1 \<noteq> None"
  using fifo_operations_do_not_panic [OF demo_two_run demo_new, of False] by simp

text \<open>C5: clearing an idle machine drains it: with no task running, \<open>clear_and_reinitialize\<close>
  returns the number of active tasks and leaves no active task and every usage queue as newly
  created.\<close>

theorem fifo_clear_and_reinitialize:
  assumes "fifo_run A {} s" and "0 < max_running_task_count s"
  shows "\<exists>s'. clear_and_reinitialize s = Some (of_nat (length A), s') \<and> has_no_active_task s'
    \<and> usage_queue_token s' = (\<lambda>_. UsageQueueInner_new FifoQueueing) \<and> total_task_count s' = 0"
proof -
  note inv = fifo_run_inv [OF assms(1)]
  have len: "length A < 2 ^ 32" using fifo_inv_length [OF inv] by simp
  with clear_loop_spec [OF inv assms(2), of 0] obtain s1 where
    s1: "clear_loop s 0 = Some (of_nat (length A), s1)" "fifo_inv [] {} s1" by auto
  have "ucast (of_nat (length A) :: u32) = (of_nat (length A) :: usize)"
    using len by (simp add: word_unat_eq_iff unsigned_ucast_eq unat_of_nat_exact take_bit_nat_eq_self)
  with s1 quiescent [OF s1(2)] show ?thesis
    by (auto simp: clear_and_reinitialize_def reinitialize_def has_no_active_task_def)
qed

theorem fifo_clear_and_reinitialize_witness:
  "\<exists>s'. clear_and_reinitialize demo_buffered = Some (1, s') \<and> has_no_active_task s'"
proof -
  have "0 < max_running_task_count demo_buffered" by (simp add: demo_buffered_def demo_defs)
  then show ?thesis using fifo_clear_and_reinitialize [OF demo_buffered_run] by auto
qed

end
