(* ===== verification/TransactionContainer.thy ===== *)
theory TransactionContainer
  imports Transactions
begin

text \<open>
  The container of transaction states of the banking stage and the bundle stage
  (\<^verbatim>\<open>core/src/banking_stage/transaction_scheduler/transaction_state.rs\<close>,
  \<^verbatim>\<open>transaction_priority_id.rs\<close> and \<^verbatim>\<open>transaction_state_container.rs\<close>).

  The map of states is a slab of the \<open>slab\<close> crate: a map from keys to entries with a fixed
  capacity, in which the crate chooses the key of a new entry. That choice is an argument of the
  operations that insert; what they rely on is that the key is vacant and below the capacity. Of the
  byte buffers that the transaction views share with the container the model has the reference
  counts, not the bytes. Sizes of collections are natural numbers: they fit a \<open>usize\<close>. A panic is
  \<^term>\<open>None\<close>.
\<close>

section \<open>Transaction states\<close>

record MaxAge =
  sanitized_epoch :: Epoch
  alt_invalidation_slot :: Slot

record 'tx TransactionState =
  transaction :: "'tx option"
  max_age :: MaxAge
  priority :: u64
  cost :: u64

definition TransactionState_new :: "'tx \<Rightarrow> MaxAge \<Rightarrow> u64 \<Rightarrow> u64 \<Rightarrow> 'tx TransactionState" where
  "TransactionState_new tx age prio c = \<lparr>transaction = Some tx, max_age = age, priority = prio, cost = c\<rparr>"

definition take_transaction_for_scheduling ::
    "'tx TransactionState \<Rightarrow> (('tx \<times> MaxAge) \<times> 'tx TransactionState) option" where
  "take_transaction_for_scheduling state =
     (case transaction state of
        None \<Rightarrow> None
      | Some tx \<Rightarrow> Some ((tx, max_age state), state\<lparr>transaction := None\<rparr>))"

definition retry_state :: "'tx TransactionState \<Rightarrow> 'tx \<Rightarrow> 'tx TransactionState option" where
  "retry_state state tx =
     (case transaction state of None \<Rightarrow> Some (state\<lparr>transaction := Some tx\<rparr>) | Some _ \<Rightarrow> None)"

section \<open>Priority ids\<close>

datatype TransactionPriorityId = TransactionPriorityId (prio: u64) (tid: nat)

text \<open>The derived order: by priority, then by id.\<close>

definition TransactionPriorityId_le :: "TransactionPriorityId \<Rightarrow> TransactionPriorityId \<Rightarrow> bool" where
  "TransactionPriorityId_le a b \<longleftrightarrow> prio a < prio b \<or> prio a = prio b \<and> tid a \<le> tid b"

instantiation TransactionPriorityId :: linorder
begin

definition less_eq_TransactionPriorityId :: "TransactionPriorityId \<Rightarrow> TransactionPriorityId \<Rightarrow> bool" where
  "less_eq_TransactionPriorityId = TransactionPriorityId_le"

definition less_TransactionPriorityId :: "TransactionPriorityId \<Rightarrow> TransactionPriorityId \<Rightarrow> bool" where
  "less_TransactionPriorityId a b \<longleftrightarrow> prio a < prio b \<or> prio a = prio b \<and> tid a < tid b"

instance
  by standard (auto simp: less_eq_TransactionPriorityId_def TransactionPriorityId_le_def less_TransactionPriorityId_def
      intro: TransactionPriorityId.expand)

end

section \<open>The slab\<close>

record 'e Slab =
  slab_entries :: "(nat, 'e) btree"
  slab_capacity :: nat

definition slab_get :: "'e Slab \<Rightarrow> nat \<Rightarrow> 'e option" where
  "slab_get s key = map_of (slab_entries s) key"

definition slab_len :: "'e Slab \<Rightarrow> nat" where
  "slab_len s = length (slab_entries s)"

definition slab_put :: "'e Slab \<Rightarrow> nat \<Rightarrow> 'e \<Rightarrow> 'e Slab" where
  "slab_put s key e = s\<lparr>slab_entries := btree_insert key e (slab_entries s)\<rparr>"

definition slab_remove :: "'e Slab \<Rightarrow> nat \<Rightarrow> ('e \<times> 'e Slab) option" where
  "slab_remove s key =
     (case slab_get s key of
        None \<Rightarrow> None
      | Some e \<Rightarrow> Some (e, s\<lparr>slab_entries := btree_remove key (slab_entries s)\<rparr>))"

definition slab_ok :: "'e Slab \<Rightarrow> bool" where
  "slab_ok s \<longleftrightarrow> btree_ok (slab_entries s)"

lemma slab_get_put: "slab_ok s \<Longrightarrow> slab_get (slab_put s key e) = (slab_get s)(key \<mapsto> e)"
  by (simp add: slab_ok_def slab_get_def slab_put_def btree_lookup_insert fun_eq_iff)

lemma slab_ok_put: "slab_ok s \<Longrightarrow> slab_ok (slab_put s key e)"
  by (simp add: slab_ok_def slab_put_def btree_ok_insert)

lemma slab_len_put:
  "slab_ok s \<Longrightarrow> slab_len (slab_put s key e) = (if slab_get s key = None then Suc (slab_len s) else slab_len s)"
  by (auto simp: slab_ok_def slab_put_def slab_len_def slab_get_def length_btree_insert map_of_eq_None_iff)

lemma slab_remove_Some:
  assumes "slab_ok s" and "slab_remove s key = Some (e, s')"
  shows "slab_get s key = Some e" and "slab_get s' = (slab_get s)(key := None)" and "slab_ok s'"
    and "Suc (slab_len s') = slab_len s" and "slab_capacity s' = slab_capacity s"
proof -
  have e: "map_of (slab_entries s) key = Some e" and s': "s' = s\<lparr>slab_entries := btree_remove key (slab_entries s)\<rparr>"
    using assms(2) by (auto simp: slab_remove_def slab_get_def split: option.splits)
  then show "slab_get s key = Some e" "slab_get s' = (slab_get s)(key := None)" "slab_ok s'" "slab_capacity s' = slab_capacity s"
    using assms(1) by (auto simp: slab_get_def slab_ok_def btree_lookup_remove btree.invar_remove fun_eq_iff)
  have "key \<in> fst ` set (slab_entries s)" using e by (metis domI dom_map_of_conv_image_fst)
  then show "Suc (slab_len s') = slab_len s"
    using assms(1) by (simp add: s' slab_ok_def slab_len_def length_btree_remove)
qed

lemma slab_remove_None: "slab_remove s key = None \<longleftrightarrow> slab_get s key = None"
  by (simp add: slab_remove_def split: option.splits)

lemma slab_put_remove:
  assumes "slab_ok s" and "slab_get s key = None"
  shows "slab_remove (slab_put s key e) key = Some (e, s)"
proof -
  have "btree_remove key (btree_insert key e (slab_entries s)) = slab_entries s"
    using assms by (intro btree_ext)
      (auto simp: slab_ok_def slab_get_def btree.invar_insert btree.invar_remove btree.remove_insert_fresh)
  then show ?thesis unfolding slab_remove_def slab_get_put [OF assms(1)] by (simp add: slab_put_def)
qed

lemma slab_ext:
  "slab_ok s \<Longrightarrow> slab_ok s' \<Longrightarrow> slab_get s = slab_get s' \<Longrightarrow> slab_capacity s = slab_capacity s' \<Longrightarrow> s = s'"
  by (intro Slab.equality) (auto simp: slab_ok_def slab_get_def fun_eq_iff intro!: btree_ext)

section \<open>The container\<close>

record BatchInfo =
  batch_id :: nat
  revert_on_error :: bool
  max_schedule_slot :: u64

datatype 'tx BatchIdOrTransactionState = Batch BatchInfo | State "'tx TransactionState"

record 'tx TransactionStateContainer =
  capacity :: nat
  priority_queue :: "(TransactionPriorityId, unit) btree"
  id_to_transaction_state :: "'tx BatchIdOrTransactionState Slab"
  held_transactions :: "TransactionPriorityId list"
  batch_id_to_transaction_ids :: "nat \<rightharpoonup> nat list"

definition EXTRA_CAPACITY :: nat where "EXTRA_CAPACITY = 64"

text \<open>\<open>Slab::with_capacity\<close> allocates at least the capacity asked for; \<open>extra\<close> is what it adds.\<close>

definition with_capacity :: "nat \<Rightarrow> nat \<Rightarrow> 'tx TransactionStateContainer" where
  "with_capacity extra cap =
     \<lparr>capacity = cap, priority_queue = [],
      id_to_transaction_state = \<lparr>slab_entries = [], slab_capacity = cap + EXTRA_CAPACITY + extra\<rparr>,
      held_transactions = [], batch_id_to_transaction_ids = Map.empty\<rparr>"

definition queue_size :: "'tx TransactionStateContainer \<Rightarrow> nat" where
  "queue_size c = length (priority_queue c)"

definition buffer_size :: "'tx TransactionStateContainer \<Rightarrow> nat" where
  "buffer_size c = slab_len (id_to_transaction_state c)"

definition is_empty :: "'tx TransactionStateContainer \<Rightarrow> bool" where
  "is_empty c \<longleftrightarrow> priority_queue c = []"

definition pop :: "'tx TransactionStateContainer \<Rightarrow> TransactionPriorityId option \<times> 'tx TransactionStateContainer" where
  "pop c = (case btree_last (priority_queue c) of
      None \<Rightarrow> (None, c)
    | Some (pid, _) \<Rightarrow> (Some pid, c\<lparr>priority_queue := btree_remove pid (priority_queue c)\<rparr>))"

text \<open>\<open>get_mut_transaction_state\<close> returns a reference; \<open>set_transaction_state\<close> writes through it.\<close>

definition get_mut_transaction_state :: "'tx TransactionStateContainer \<Rightarrow> nat \<Rightarrow> 'tx TransactionState option" where
  "get_mut_transaction_state c txid =
     (case slab_get (id_to_transaction_state c) txid of
        Some (Batch _) \<Rightarrow> None
      | Some (State state) \<Rightarrow> Some state
      | None \<Rightarrow> None)"

definition set_transaction_state ::
    "'tx TransactionStateContainer \<Rightarrow> nat \<Rightarrow> 'tx TransactionState \<Rightarrow> 'tx TransactionStateContainer" where
  "set_transaction_state c txid state =
     c\<lparr>id_to_transaction_state := slab_put (id_to_transaction_state c) txid (State state)\<rparr>"

text \<open>The outer option is the panic of \<open>TransactionState::transaction\<close> on a pending transaction.\<close>

definition get_transaction :: "'tx TransactionStateContainer \<Rightarrow> nat \<Rightarrow> 'tx option option" where
  "get_transaction c txid =
     (case slab_get (id_to_transaction_state c) txid of
        None \<Rightarrow> Some None
      | Some (Batch _) \<Rightarrow> Some None
      | Some (State state) \<Rightarrow> map_option Some (transaction state))"

definition get_batch :: "'tx TransactionStateContainer \<Rightarrow> nat \<Rightarrow> (nat list \<times> bool \<times> u64) option" where
  "get_batch c txid =
     (case slab_get (id_to_transaction_state c) txid of
        Some (Batch info) \<Rightarrow>
          map_option (\<lambda>ids. (ids, revert_on_error info, max_schedule_slot info))
            (batch_id_to_transaction_ids c (batch_id info))
      | _ \<Rightarrow> None)"

fun drop_lowest :: "nat \<Rightarrow> 'tx TransactionStateContainer \<Rightarrow> 'tx TransactionStateContainer option" where
  "drop_lowest 0 c = Some c"
| "drop_lowest (Suc n) c =
     (case btree_first (priority_queue c) of
        None \<Rightarrow> None
      | Some (pid, _) \<Rightarrow> do {
          (_, slab) \<leftarrow> slab_remove (id_to_transaction_state c) (tid pid);
          drop_lowest n (c\<lparr>priority_queue := btree_remove pid (priority_queue c), id_to_transaction_state := slab\<rparr>)
        })"

definition push_ids_into_queue ::
    "'tx TransactionStateContainer \<Rightarrow> TransactionPriorityId list \<Rightarrow> (nat \<times> 'tx TransactionStateContainer) option" where
  "push_ids_into_queue c priority_ids =
     (let c = c\<lparr>priority_queue := foldl (\<lambda>q pid. btree_insert pid () q) (priority_queue c) priority_ids\<rparr>;
          num_dropped = slab_len (id_to_transaction_state c) - capacity c
      in map_option (\<lambda>c. (num_dropped, c)) (drop_lowest num_dropped c))"

definition hold_transaction :: "'tx TransactionStateContainer \<Rightarrow> TransactionPriorityId \<Rightarrow> 'tx TransactionStateContainer" where
  "hold_transaction c pid = c\<lparr>held_transactions := held_transactions c @ [pid]\<rparr>"

definition retry_transaction ::
    "'tx TransactionStateContainer \<Rightarrow> nat \<Rightarrow> 'tx \<Rightarrow> bool \<Rightarrow> 'tx TransactionStateContainer option" where
  "retry_transaction c transaction_id tx immediately_retryable = do {
     state \<leftarrow> get_mut_transaction_state c transaction_id;
     let pid = TransactionPriorityId (priority state) transaction_id;
     state \<leftarrow> retry_state state tx;
     let c = set_transaction_state c transaction_id state;
     (if immediately_retryable then map_option snd (push_ids_into_queue c [pid])
      else Some (hold_transaction c pid))
   }"

text \<open>The priority under which a slab entry is queued.\<close>

definition queued_priority :: "'tx TransactionStateContainer \<Rightarrow> 'tx BatchIdOrTransactionState \<Rightarrow> u64" where
  "queued_priority c entry =
     (case entry of
        State state \<Rightarrow> priority state
      | Batch info \<Rightarrow>
          (case batch_id_to_transaction_ids c (batch_id info) of
             Some (first # _) \<Rightarrow>
               (case slab_get (id_to_transaction_state c) first of
                  Some (State s) \<Rightarrow> priority s
                | _ \<Rightarrow> 0)
           | _ \<Rightarrow> 0))"

fun slab_remove_all :: "'e Slab \<Rightarrow> nat list \<Rightarrow> 'e Slab option" where
  "slab_remove_all s [] = Some s"
| "slab_remove_all s (key # keys) = do { (_, s) \<leftarrow> slab_remove s key; slab_remove_all s keys }"

definition remove_by_id :: "'tx TransactionStateContainer \<Rightarrow> nat \<Rightarrow> 'tx TransactionStateContainer option" where
  "remove_by_id c txid =
     (case slab_get (id_to_transaction_state c) txid of
        None \<Rightarrow> Some c
      | Some entry \<Rightarrow> do {
          let q = btree_remove (TransactionPriorityId (queued_priority c entry) txid) (priority_queue c);
          (removed, slab) \<leftarrow> slab_remove (id_to_transaction_state c) txid;
          let c = c\<lparr>priority_queue := q, id_to_transaction_state := slab\<rparr>;
          (case removed of
             State _ \<Rightarrow> Some c
           | Batch info \<Rightarrow>
               (case batch_id_to_transaction_ids c (batch_id info) of
                  None \<Rightarrow> Some c
                | Some ids \<Rightarrow> do {
                    slab \<leftarrow> slab_remove_all slab ids;
                    Some (c\<lparr>id_to_transaction_state := slab,
                           batch_id_to_transaction_ids := (batch_id_to_transaction_ids c)(batch_id info := None)\<rparr>)
                  }))
        })"

definition flush_held_transactions :: "'tx TransactionStateContainer \<Rightarrow> 'tx TransactionStateContainer option" where
  "flush_held_transactions c =
     map_option snd (push_ids_into_queue (c\<lparr>held_transactions := []\<rparr>) (held_transactions c))"

definition get_min_max_priority :: "'tx TransactionStateContainer \<Rightarrow> (u64 \<times> u64) option" where
  "get_min_max_priority c =
     (case (btree_first (priority_queue c), btree_last (priority_queue c)) of
        (Some (lo, _), Some (hi, _)) \<Rightarrow> Some (prio lo, prio hi)
      | _ \<Rightarrow> None)"

definition recheck_iter :: "'tx TransactionStateContainer \<Rightarrow> TransactionPriorityId option \<Rightarrow> TransactionPriorityId list" where
  "recheck_iter c cursor =
     (case cursor of
        None \<Rightarrow> rev (map fst (priority_queue c))
      | Some cursor \<Rightarrow> rev (filter (\<lambda>pid. pid < cursor) (map fst (priority_queue c))))"

text \<open>The assertion guards every insertion; \<open>key\<close> is the vacant key the slab offers.\<close>

definition insert_vacant ::
    "'tx TransactionStateContainer \<Rightarrow> nat \<Rightarrow> 'tx BatchIdOrTransactionState \<Rightarrow> 'tx TransactionStateContainer option" where
  "insert_vacant c key entry =
     (if slab_len (id_to_transaction_state c) < slab_capacity (id_to_transaction_state c)
      then Some (c\<lparr>id_to_transaction_state := slab_put (id_to_transaction_state c) key entry\<rparr>)
      else None)"

fun insert_batch_transactions ::
    "'tx TransactionStateContainer \<Rightarrow> nat list \<Rightarrow> ('tx \<times> MaxAge) list \<Rightarrow> u64 \<Rightarrow> u64 \<Rightarrow>
     (nat list \<times> 'tx TransactionStateContainer) option" where
  "insert_batch_transactions c (key # keys) ((tx, age) # txns) prty c' = do {
     c \<leftarrow> insert_vacant c key (State (TransactionState_new tx age prty c'));
     (ids, c) \<leftarrow> insert_batch_transactions c keys txns prty c';
     Some (key # ids, c)
   }"
| "insert_batch_transactions c _ _ prty c' = Some ([], c)"

definition insert_new_batch ::
    "'tx TransactionStateContainer \<Rightarrow> nat \<Rightarrow> nat list \<Rightarrow> ('tx \<times> MaxAge) list \<Rightarrow> u64 \<Rightarrow> u64 \<Rightarrow> bool \<Rightarrow> u64 \<Rightarrow>
     (nat option \<times> 'tx TransactionStateContainer) option" where
  "insert_new_batch c key keys txns_max_age prty cst revert slot =
     (let slab = id_to_transaction_state c in
      if length txns_max_age + 1 > slab_capacity slab - slab_len slab then Some (None, c)
      else do {
        c \<leftarrow> insert_vacant c key (Batch \<lparr>batch_id = key, revert_on_error = revert, max_schedule_slot = slot\<rparr>);
        (ids, c) \<leftarrow> insert_batch_transactions c keys txns_max_age prty cst;
        Some (Some key,
          c\<lparr>batch_id_to_transaction_ids := (batch_id_to_transaction_ids c)(key \<mapsto> ids),
            priority_queue := btree_insert (TransactionPriorityId prty key) () (priority_queue c)\<rparr>)
      })"

section \<open>Views of shared buffers\<close>

text \<open>
  The container of views allocates one buffer per slab key and shares it with the view parsed from it:
  \<open>shared_bytes\<close> is the index of the buffer whose reference a view holds, \<open>bytes_buffer\<close> the strong
  count of every buffer. A view dropped gives its reference back.
\<close>

record RuntimeTransactionView =
  runtime_transaction :: RuntimeTransaction
  shared_bytes :: nat

record TransactionViewStateContainer =
  inner :: "RuntimeTransactionView TransactionStateContainer"
  bytes_buffer :: "nat list"

definition view_with_capacity :: "nat \<Rightarrow> nat \<Rightarrow> TransactionViewStateContainer" where
  "view_with_capacity extra cap =
     (let c = with_capacity extra cap
      in \<lparr>inner = c, bytes_buffer = replicate (slab_capacity (id_to_transaction_state c)) 1\<rparr>)"

definition drop_views :: "nat list \<Rightarrow> RuntimeTransactionView list \<Rightarrow> nat list" where
  "drop_views counts views =
     foldl (\<lambda>counts view. counts[shared_bytes view := counts ! shared_bytes view - 1]) counts views"

definition stored_views :: "RuntimeTransactionView BatchIdOrTransactionState \<Rightarrow> RuntimeTransactionView list" where
  "stored_views entry =
     (case entry of
        Batch _ \<Rightarrow> []
      | State state \<Rightarrow> (case transaction state of None \<Rightarrow> [] | Some view \<Rightarrow> [view]))"

text \<open>What \<open>remove_by_id\<close> takes out of the slab is dropped with the views it holds.\<close>

definition view_remove_by_id :: "TransactionViewStateContainer \<Rightarrow> nat \<Rightarrow> TransactionViewStateContainer option" where
  "view_remove_by_id c txid = do {
     c' \<leftarrow> remove_by_id (inner c) txid;
     let removed = filter (\<lambda>(key, _). slab_get (id_to_transaction_state c') key = None)
                     (slab_entries (id_to_transaction_state (inner c)));
     Some \<lparr>inner = c', bytes_buffer = drop_views (bytes_buffer c) (concat (map (stored_views \<circ> snd) removed))\<rparr>
   }"

text \<open>
  \<open>f\<close> parses the packet data from a new reference to the buffer, given as its index and the data
  copied into it; on an error, reported by the caller, it drops the reference. Indexing the buffers
  out of range panics, and so does the assertion that the buffer is not shared.
\<close>

definition try_insert_map_only_with_data ::
    "TransactionViewStateContainer \<Rightarrow> nat \<Rightarrow> 'p \<Rightarrow> (nat \<times> 'p \<Rightarrow> 'e + RuntimeTransactionView TransactionState) \<Rightarrow>
     (nat option \<times> TransactionViewStateContainer) option" where
  "try_insert_map_only_with_data c key data f =
     (if slab_len (id_to_transaction_state (inner c)) < slab_capacity (id_to_transaction_state (inner c))
         \<and> key < length (bytes_buffer c) \<and> bytes_buffer c ! key = 1
      then (case f (key, data) of
              Inr state \<Rightarrow>
                map_option (\<lambda>c'. (Some key, \<lparr>inner = c', bytes_buffer = (bytes_buffer c)[key := 2]\<rparr>))
                  (insert_vacant (inner c) key (State state))
            | Inl _ \<Rightarrow> Some (None, c))
      else None)"

section \<open>Eviction\<close>

definition queue_ids :: "'tx TransactionStateContainer \<Rightarrow> TransactionPriorityId list" where
  "queue_ids c = map fst (priority_queue c)"

text \<open>Every queued id has an entry, queued under the priority of that entry.\<close>

definition container_ok :: "'tx TransactionStateContainer \<Rightarrow> bool" where
  "container_ok c \<longleftrightarrow> slab_ok (id_to_transaction_state c) \<and> btree_ok (priority_queue c)
     \<and> (\<forall>pid \<in> set (queue_ids c). \<exists>state.
          slab_get (id_to_transaction_state c) (tid pid) = Some (State state) \<and> priority state = prio pid)"

lemma btree_remove_first: "btree_ok ((k, v) # m) \<Longrightarrow> btree_remove k ((k, v) # m) = m"
  unfolding btree_remove_def by (fastforce intro: filter_True)

lemma queue_tid_inj:
  assumes "container_ok c" and "pid \<in> set (queue_ids c)" and "pid' \<in> set (queue_ids c)" and "tid pid = tid pid'"
  shows "pid = pid'"
proof -
  obtain state state' where "slab_get (id_to_transaction_state c) (tid pid) = Some (State state)" "priority state = prio pid"
    "slab_get (id_to_transaction_state c) (tid pid') = Some (State state')" "priority state' = prio pid'"
    using assms(1-3) unfolding container_ok_def by meson
  with assms(4) show ?thesis by (intro TransactionPriorityId.expand) simp
qed

lemma drop_lowest_spec:
  assumes "container_ok c" and "n \<le> length (priority_queue c)"
  shows "\<exists>c'. drop_lowest n c = Some c' \<and> container_ok c' \<and> queue_ids c' = drop n (queue_ids c)
    \<and> slab_get (id_to_transaction_state c') = slab_get (id_to_transaction_state c) |` (- tid ` set (take n (queue_ids c)))
    \<and> buffer_size c' = buffer_size c - n"
  using assms
proof (induction n arbitrary: c)
  case (Suc n)
  then obtain pid rest where q: "priority_queue c = (pid, ()) # rest" by (cases "priority_queue c") auto
  define slab where "slab = id_to_transaction_state c"
  obtain state where state: "slab_get slab (tid pid) = Some (State state)"
    using Suc.prems(1) by (auto simp: container_ok_def queue_ids_def q slab_def)
  then obtain slab' where rm: "slab_remove slab (tid pid) = Some (State state, slab')"
    by (simp add: slab_remove_def)
  define d where "d = c\<lparr>priority_queue := rest, id_to_transaction_state := slab'\<rparr>"
  have ok: "slab_ok slab" "btree_ok ((pid, ()) # rest)"
    using Suc.prems(1) by (simp_all add: container_ok_def slab_def q del: btree_ok_Cons)
  note rm' = slab_remove_Some [OF ok(1) rm]
  have other: "tid pid' \<noteq> tid pid" if "pid' \<in> set (map fst rest)" for pid'
    using queue_tid_inj [OF Suc.prems(1), of pid' pid] that ok(2) by (auto simp: queue_ids_def q)
  have "container_ok d"
    unfolding container_ok_def queue_ids_def
  proof (intro conjI ballI)
    show "slab_ok (id_to_transaction_state d)" "btree_ok (priority_queue d)"
      using rm'(3) ok(2) by (simp_all add: d_def)
    fix pid' assume "pid' \<in> set (map fst (priority_queue d))"
    with Suc.prems(1) other [of pid'] show "\<exists>state. slab_get (id_to_transaction_state d) (tid pid') = Some (State state) \<and> priority state = prio pid'"
      by (auto simp: d_def rm'(2) container_ok_def queue_ids_def q slab_def)
  qed
  with Suc.IH [of d] Suc.prems(2) obtain c' where c': "drop_lowest n d = Some c'" "container_ok c'"
    "queue_ids c' = drop n (queue_ids d)" "buffer_size c' = buffer_size d - n"
    "slab_get (id_to_transaction_state c') = slab_get (id_to_transaction_state d) |` (- tid ` set (take n (queue_ids d)))"
    by (auto simp: q d_def)
  have "drop_lowest (Suc n) c = Some c'"
    using c'(1) rm by (simp add: q btree_first_def btree_remove_first [OF ok(2)] slab_def d_def)
  moreover have "buffer_size c' = buffer_size c - Suc n"
    using c'(4) rm'(4) by (simp add: buffer_size_def d_def slab_def)
  moreover have "slab_get (id_to_transaction_state c') = slab_get (id_to_transaction_state c) |` (- tid ` set (take (Suc n) (queue_ids c)))"
    unfolding c'(5) by (auto simp: d_def rm'(2) queue_ids_def q slab_def restrict_map_def)
  ultimately show ?case using c'(2,3) by (simp add: queue_ids_def q d_def)
qed (auto simp: restrict_map_def)

lemma foldl_btree_insert:
  assumes "btree_ok q" and "distinct ids" and "set ids \<inter> fst ` set q = {}"
  shows "btree_ok (foldl (\<lambda>q pid. btree_insert pid () q) q ids)
    \<and> fst ` set (foldl (\<lambda>q pid. btree_insert pid () q) q ids) = fst ` set q \<union> set ids
    \<and> length (foldl (\<lambda>q pid. btree_insert pid () q) q ids) = length q + length ids"
  using assms
proof (induction ids arbitrary: q)
  case (Cons pid ids)
  then have "btree_ok (btree_insert pid () q)" "set ids \<inter> fst ` set (btree_insert pid () q) = {}"
    by (auto simp: btree_ok_insert)
  with Cons show ?case by (auto simp: length_btree_insert)
qed simp

text \<open>C10: pushing ids keeps the best: when the ids of newly inserted entries are queued, nothing
  panics, the container is back within its capacity, and exactly the excess entries are dropped, each
  of lower priority than every entry that stays queued.\<close>

theorem push_ids_evicts_lowest:
  assumes "container_ok c" and "distinct ids" and "set ids \<inter> set (queue_ids c) = {}"
    and "\<forall>pid \<in> set ids. \<exists>state. slab_get (id_to_transaction_state c) (tid pid) = Some (State state) \<and> priority state = prio pid"
    and "buffer_size c \<le> capacity c + length ids"
  shows "\<exists>c' dropped. push_ids_into_queue c ids = Some (length dropped, c') \<and> container_ok c'
    \<and> buffer_size c' = min (buffer_size c) (capacity c)
    \<and> set dropped \<union> set (queue_ids c') = set (queue_ids c) \<union> set ids
    \<and> (\<forall>d \<in> set dropped. \<forall>k \<in> set (queue_ids c'). d < k)
    \<and> slab_get (id_to_transaction_state c') = slab_get (id_to_transaction_state c) |` (- tid ` set dropped)"
proof -
  define q where "q = foldl (\<lambda>q pid. btree_insert pid () q) (priority_queue c) ids"
  define d where "d = c\<lparr>priority_queue := q\<rparr>"
  define n where "n = buffer_size c - capacity c"
  have q: "btree_ok q" "fst ` set q = set (queue_ids c) \<union> set ids" "length q = length (priority_queue c) + length ids"
    using foldl_btree_insert [of "priority_queue c" ids] assms(1-3) by (simp_all add: q_def container_ok_def queue_ids_def)
  have "container_ok d"
    using assms(1,4) q(1,2) by (auto simp: container_ok_def d_def queue_ids_def)
  moreover have "n \<le> length (priority_queue d)" using assms(5) q(3) by (simp add: n_def d_def)
  ultimately obtain c' where c': "drop_lowest n d = Some c'" "container_ok c'" "queue_ids c' = drop n (map fst q)"
    "slab_get (id_to_transaction_state c') = slab_get (id_to_transaction_state c) |` (- tid ` set (take n (map fst q)))"
    "buffer_size c' = buffer_size c - n"
    using drop_lowest_spec [of d n] by (auto simp: d_def queue_ids_def buffer_size_def)
  have "sorted_wrt (<) (take n (map fst q) @ drop n (map fst q))" using q(1) by (simp add: btree_ok_def)
  then have "\<forall>x \<in> set (take n (map fst q)). \<forall>k \<in> set (drop n (map fst q)). x < k"
    unfolding sorted_wrt_append by blast
  moreover have "set (take n (map fst q)) \<union> set (drop n (map fst q)) = set (queue_ids c) \<union> set ids"
    using q(2) by (metis append_take_drop_id image_set set_append)
  moreover have "push_ids_into_queue c ids = Some (n, c')"
    using c'(1) by (simp add: push_ids_into_queue_def d_def q_def n_def buffer_size_def)
  moreover have "length (take n (map fst q)) = n" using assms(5) q(3) by (simp add: n_def)
  moreover have "buffer_size c' = min (buffer_size c) (capacity c)" using c'(5) by (simp add: n_def)
  ultimately show ?thesis using c'(2-4) by (intro exI [of _ c'] exI [of _ "take n (map fst q)"]) simp
qed

definition demo_container :: "nat TransactionStateContainer" where
  "demo_container = the (insert_vacant
     (the (insert_vacant (with_capacity 0 1) 0
        (State (TransactionState_new 100 \<lparr>sanitized_epoch = 0, alt_invalidation_slot = 0\<rparr> 9 1))))
     1 (State (TransactionState_new 101 \<lparr>sanitized_epoch = 0, alt_invalidation_slot = 0\<rparr> 5 1)))"

theorem push_ids_evicts_lowest_witness:
  "\<exists>c' dropped. push_ids_into_queue demo_container [TransactionPriorityId 9 0, TransactionPriorityId 5 1]
     = Some (length (dropped :: TransactionPriorityId list), c') \<and> buffer_size c' = 1"
proof -
  note defs = demo_container_def with_capacity_def insert_vacant_def slab_len_def
    slab_put_def EXTRA_CAPACITY_def container_ok_def slab_ok_def queue_ids_def slab_get_def TransactionState_new_def
    buffer_size_def
  have h: "container_ok demo_container" "distinct [TransactionPriorityId 9 0, TransactionPriorityId 5 1]"
    "set [TransactionPriorityId 9 0, TransactionPriorityId 5 1] \<inter> set (queue_ids demo_container) = {}"
    "\<forall>pid \<in> set [TransactionPriorityId 9 0, TransactionPriorityId 5 1]. \<exists>state.
       slab_get (id_to_transaction_state demo_container) (tid pid) = Some (State state) \<and> priority state = prio pid"
    "buffer_size demo_container \<le> capacity demo_container + length [TransactionPriorityId 9 0, TransactionPriorityId 5 1]"
    by (simp_all add: defs)
  have "min (buffer_size demo_container) (capacity demo_container) = 1" by (simp add: defs)
  with push_ids_evicts_lowest [OF h] show ?thesis by metis
qed

end
