(* ===== verification/LockTable.thy ===== *)
theory LockTable
  imports Transactions "HOL-Library.Multiset"
begin

text \<open>
  The contract shared by the two lock tables of the validator, \<open>AccountLocks\<close> of the bank and
  \<open>BundleAccountLocks\<close> of the bundle stage: both count, per address and lock kind, the locks held.
\<close>

lemma count_le_size: "count M x \<le> size M"
  by (induction M) auto

locale lock_table =
  fixes lock :: "'l \<Rightarrow> lock_request list \<Rightarrow> 'l"
    and unlock :: "'l \<Rightarrow> lock_request list \<Rightarrow> 'l"
    and held :: "'l \<Rightarrow> lock_request \<Rightarrow> nat"
    and wf :: "'l \<Rightarrow> bool"
  assumes lock_held: "wf l \<Longrightarrow> \<forall>r. held l r + count_list reqs r < 2 ^ 64 \<Longrightarrow>
      wf (lock l reqs) \<and> held (lock l reqs) r = held l r + count_list reqs r"
    and unlock_held: "wf l \<Longrightarrow> \<forall>r. count_list reqs r \<le> held l r \<Longrightarrow>
      wf (unlock l reqs) \<and> held (unlock l reqs) r = held l r - count_list reqs r"
    and held_inject: "wf l \<Longrightarrow> wf l' \<Longrightarrow> held l = held l' \<Longrightarrow> l = l'"
begin

text \<open>The table tracks a multiset of requests: those granted and not yet released.\<close>

definition tracks :: "'l \<Rightarrow> lock_request multiset \<Rightarrow> bool" where
  "tracks l M \<longleftrightarrow> wf l \<and> (\<forall>r. held l r = count M r)"

lemma tracks_lock:
  assumes "tracks l M" and "size M + length reqs < 2 ^ 64"
  shows "tracks (lock l reqs) (mset reqs + M)"
proof -
  have "\<forall>r. held l r + count_list reqs r < 2 ^ 64"
  proof
    fix r
    have "held l r + count_list reqs r = count (M + mset reqs) r"
      using assms(1) by (simp add: tracks_def count_mset del: split_paired_All)
    also have "\<dots> \<le> size (M + mset reqs)" by (rule count_le_size)
    finally show "held l r + count_list reqs r < 2 ^ 64" using assms(2) by simp
  qed
  from lock_held [OF _ this] assms(1) show ?thesis by (simp add: tracks_def count_mset)
qed

lemma tracks_unlock:
  assumes "tracks l (mset reqs + M)"
  shows "tracks (unlock l reqs) M"
proof -
  have "\<forall>r. count_list reqs r \<le> held l r" using assms by (simp add: tracks_def count_mset)
  from unlock_held [OF _ this] assms show ?thesis by (simp add: tracks_def count_mset)
qed

lemma tracks_inject: "tracks l M \<Longrightarrow> tracks l' M \<Longrightarrow> l = l'"
  by (auto simp: tracks_def fun_eq_iff intro!: held_inject)

text \<open>Locks are released in any order.\<close>

lemma unlock_other:
  assumes "tracks l M" and "size M + length xs + length ys < 2 ^ 64"
  shows "unlock (lock (lock l xs) ys) xs = lock l ys"
proof -
  have "tracks (lock (lock l xs) ys) (mset ys + (mset xs + M))"
    using assms by (intro tracks_lock) simp_all
  then have "tracks (lock (lock l xs) ys) (mset xs + (mset ys + M))" by (simp add: ac_simps)
  then have "tracks (unlock (lock (lock l xs) ys) xs) (mset ys + M)" by (rule tracks_unlock)
  moreover have "tracks (lock l ys) (mset ys + M)" using assms by (intro tracks_lock) simp_all
  ultimately show ?thesis by (rule tracks_inject)
qed

end

text \<open>A table that takes and releases one lock at a time keeps the contract for a list of requests.\<close>

locale lock_step =
  fixes lock1 :: "'l \<Rightarrow> lock_request \<Rightarrow> 'l"
    and unlock1 :: "'l \<Rightarrow> lock_request \<Rightarrow> 'l"
    and held :: "'l \<Rightarrow> lock_request \<Rightarrow> nat"
    and wf :: "'l \<Rightarrow> bool"
  assumes lock1_held: "wf l \<Longrightarrow> Suc (held l q) < 2 ^ 64 \<Longrightarrow>
      wf (lock1 l q) \<and> held (lock1 l q) r = held l r + (if r = q then 1 else 0)"
    and unlock1_held: "wf l \<Longrightarrow> 0 < held l q \<Longrightarrow>
      wf (unlock1 l q) \<and> held (unlock1 l q) r = held l r - (if r = q then 1 else 0)"
    and step_held_inject: "wf l \<Longrightarrow> wf l' \<Longrightarrow> held l = held l' \<Longrightarrow> l = l'"
begin

lemma fold_lock_held:
  assumes "wf l" and "\<forall>r. held l r + count_list reqs r < 2 ^ 64"
  shows "wf (foldl lock1 l reqs) \<and> held (foldl lock1 l reqs) r = held l r + count_list reqs r"
  using assms
proof (induction reqs arbitrary: l)
  case (Cons q reqs)
  have "Suc (held l q) < 2 ^ 64" using Cons.prems(2) [rule_format, of q] by simp
  note one = lock1_held [OF Cons.prems(1) this]
  have "held (lock1 l q) r + count_list reqs r < 2 ^ 64" for r
    using one [of r] Cons.prems(2) [rule_format, of r] by (auto split: if_splits)
  with Cons.IH [of "lock1 l q"] one show ?case by auto
qed simp

lemma fold_unlock_held:
  assumes "wf l" and "\<forall>r. count_list reqs r \<le> held l r"
  shows "wf (foldl unlock1 l reqs) \<and> held (foldl unlock1 l reqs) r = held l r - count_list reqs r"
  using assms
proof (induction reqs arbitrary: l)
  case (Cons q reqs)
  have "0 < held l q" using Cons.prems(2) [rule_format, of q] by simp
  note one = unlock1_held [OF Cons.prems(1) this]
  have "count_list reqs r \<le> held (unlock1 l q) r" for r
    using one [of r] Cons.prems(2) [rule_format, of r] by (auto split: if_splits)
  with Cons.IH [of "unlock1 l q"] one show ?case by auto
qed simp

end

sublocale lock_step \<subseteq> lock_table "foldl lock1" "foldl unlock1" held wf
  by unfold_locales (rule fold_lock_held fold_unlock_held step_held_inject; assumption)+

text \<open>A table of counters without zero entries, the representation behind both lock tables.\<close>

definition count_at :: "('k \<rightharpoonup> u64) \<Rightarrow> 'k \<Rightarrow> nat" where
  "count_at m k = (case m k of None \<Rightarrow> 0 | Some c \<Rightarrow> unat c)"

definition no_zero :: "('k \<rightharpoonup> u64) \<Rightarrow> bool" where
  "no_zero m \<longleftrightarrow> (\<forall>k. m k \<noteq> Some 0)"

lemma count_at_inject:
  assumes "no_zero m" and "no_zero m'" and "count_at m = count_at m'"
  shows "m = m'"
proof
  fix k
  have "count_at m k = count_at m' k" "m k \<noteq> Some 0" "m' k \<noteq> Some 0"
    using assms by (auto simp: no_zero_def)
  then show "m k = m' k"
    by (cases "m k"; cases "m' k") (auto simp: count_at_def unsigned_eq_0_iff dest: unat_inject)
qed

lemma count_at_pos: "no_zero m \<Longrightarrow> 0 < count_at m k \<longleftrightarrow> m k \<noteq> None"
  by (auto simp: count_at_def no_zero_def unat_gt_0 split: option.splits)

lemma count_at_bump:
  assumes "no_zero m" and "Suc (count_at m k) < 2 ^ 64"
  defines "m' \<equiv> m(k \<mapsto> (case m k of None \<Rightarrow> 0 | Some c \<Rightarrow> c) + 1)"
  shows "no_zero m' \<and> count_at m' x = count_at m x + (if x = k then 1 else 0)"
proof -
  have "unat ((case m k of None \<Rightarrow> 0 | Some c \<Rightarrow> c) + 1 :: u64) = Suc (count_at m k)"
    using assms(2) by (simp add: count_at_def unat_add_exact split: option.splits)
  moreover from this have "(case m k of None \<Rightarrow> 0 | Some c \<Rightarrow> c) + 1 \<noteq> (0 :: u64)"
    by (metis nat.distinct(1) unsigned_0)
  ultimately show ?thesis using assms(1) by (auto simp: m'_def no_zero_def count_at_def)
qed

lemma count_at_drop:
  assumes "no_zero m" and "m k = Some c" and "c' = c - 1 \<or> c' = saturating_sub c 1"
  defines "m' \<equiv> (if c' = 0 then m(k := None) else m(k \<mapsto> c'))"
  shows "no_zero m' \<and> count_at m' x = count_at m x - (if x = k then 1 else 0)"
proof -
  have "c \<noteq> 0" using assms(1,2) by (auto simp: no_zero_def)
  then have "1 \<le> c" by (simp add: word_le_nat_alt unat_gt_0 Suc_le_eq)
  then have "unat c' = unat c - 1" using assms(3) by (auto simp: unat_sub_exact unat_ops)
  moreover have "c' = 0 \<longleftrightarrow> unat c' = 0" by (simp add: unsigned_eq_0_iff)
  ultimately show ?thesis
    using assms(1,2) by (auto simp: m'_def no_zero_def count_at_def)
qed

end
