(* ===== verification/AccountLocks.thy ===== *)
theory AccountLocks
  imports LockTable
begin

text \<open>
  Account locks of the bank (\<^verbatim>\<open>accounts-db/src/account_locks.rs\<close>), the validation of a
  transaction's account keys, and the locking of a batch of transactions
  (\<^verbatim>\<open>accounts-db/src/accounts.rs\<close>). The mutex around the table makes each operation of
  \<open>Accounts\<close> one step. Integer arithmetic is that of the release profile (wrapping, no debug
  assertions).
\<close>

record AccountLocks =
  write_locks :: "Pubkey \<rightharpoonup> u64"
  readonly_locks :: "Pubkey \<rightharpoonup> u64"

definition AccountLocks_default :: AccountLocks where
  "AccountLocks_default = \<lparr>write_locks = Map.empty, readonly_locks = Map.empty\<rparr>"

definition is_locked_readonly :: "AccountLocks \<Rightarrow> Pubkey \<Rightarrow> bool" where
  "is_locked_readonly l key = (case readonly_locks l key of None \<Rightarrow> False | Some n \<Rightarrow> 0 < n)"

definition is_locked_write :: "AccountLocks \<Rightarrow> Pubkey \<Rightarrow> bool" where
  "is_locked_write l key = (case write_locks l key of None \<Rightarrow> False | Some n \<Rightarrow> 0 < n)"

definition can_read_lock :: "AccountLocks \<Rightarrow> Pubkey \<Rightarrow> bool" where
  "can_read_lock l key = (\<not> is_locked_write l key)"

definition can_write_lock :: "AccountLocks \<Rightarrow> Pubkey \<Rightarrow> bool" where
  "can_write_lock l key = (\<not> is_locked_readonly l key \<and> \<not> is_locked_write l key)"

definition lock_readonly :: "AccountLocks \<Rightarrow> Pubkey \<Rightarrow> AccountLocks" where
  "lock_readonly l key = l\<lparr>readonly_locks := (readonly_locks l)(key \<mapsto>
     (case readonly_locks l key of None \<Rightarrow> 0 | Some n \<Rightarrow> n) + 1)\<rparr>"

definition lock_write :: "AccountLocks \<Rightarrow> Pubkey \<Rightarrow> AccountLocks" where
  "lock_write l key = l\<lparr>write_locks := (write_locks l)(key \<mapsto>
     (case write_locks l key of None \<Rightarrow> 0 | Some n \<Rightarrow> n) + 1)\<rparr>"

definition unlock_readonly :: "AccountLocks \<Rightarrow> Pubkey \<Rightarrow> AccountLocks" where
  "unlock_readonly l key =
     (case readonly_locks l key of
        Some n \<Rightarrow>
          (let n = n - 1 in
           l\<lparr>readonly_locks := (if n = 0 then (readonly_locks l)(key := None)
                                else (readonly_locks l)(key \<mapsto> n))\<rparr>)
      | None \<Rightarrow> l)"

definition unlock_write :: "AccountLocks \<Rightarrow> Pubkey \<Rightarrow> AccountLocks" where
  "unlock_write l key =
     (case write_locks l key of
        Some n \<Rightarrow>
          (let n = n - 1 in
           l\<lparr>write_locks := (if n = 0 then (write_locks l)(key := None)
                             else (write_locks l)(key \<mapsto> n))\<rparr>)
      | None \<Rightarrow> l)"

fun can_lock_accounts :: "AccountLocks \<Rightarrow> lock_request list \<Rightarrow> TransactionError + unit" where
  "can_lock_accounts l [] = Inr ()"
| "can_lock_accounts l ((key, writable) # keys) =
     (if writable then
        if \<not> can_write_lock l key then Inl AccountInUse else can_lock_accounts l keys
      else if \<not> can_read_lock l key then Inl AccountInUse
      else can_lock_accounts l keys)"

fun lock_accounts :: "AccountLocks \<Rightarrow> lock_request list \<Rightarrow> AccountLocks" where
  "lock_accounts l [] = l"
| "lock_accounts l ((key, writable) # keys) =
     lock_accounts (if writable then lock_write l key else lock_readonly l key) keys"

fun unlock_accounts :: "AccountLocks \<Rightarrow> lock_request list \<Rightarrow> AccountLocks" where
  "unlock_accounts l [] = l"
| "unlock_accounts l ((key, writable) # keys) =
     unlock_accounts (if writable then unlock_write l key else unlock_readonly l key) keys"

definition try_lock_accounts :: "AccountLocks \<Rightarrow> lock_request list \<Rightarrow> (TransactionError + unit) \<times> AccountLocks" where
  "try_lock_accounts l keys =
     (case can_lock_accounts l keys of
        Inl e \<Rightarrow> (Inl e, l)
      | Inr _ \<Rightarrow> (Inr (), lock_accounts l keys))"

text \<open>The batch form first checks every transaction against the table, then locks the rest.\<close>

fun lock_available :: "AccountLocks \<Rightarrow> (TransactionError + lock_request list) list \<Rightarrow>
    (TransactionError + unit) list \<times> AccountLocks" where
  "lock_available l [] = ([], l)"
| "lock_available l (Inl e # batch) =
     (let (results, l) = lock_available l batch in (Inl e # results, l))"
| "lock_available l (Inr keys # batch) =
     (let (results, l) = lock_available (lock_accounts l keys) batch in (Inr () # results, l))"

definition try_lock_transaction_batch ::
    "AccountLocks \<Rightarrow> (TransactionError + lock_request list) list \<Rightarrow> (TransactionError + unit) list \<times> AccountLocks" where
  "try_lock_transaction_batch l validated_batch_keys =
     lock_available l (map (\<lambda>validated_keys.
       case validated_keys of
         Inl e \<Rightarrow> Inl e
       | Inr keys \<Rightarrow> (case can_lock_accounts l keys of Inl e \<Rightarrow> Inl e | Inr _ \<Rightarrow> Inr keys))
       validated_batch_keys)"

section \<open>Validation\<close>

fun has_duplicates_set :: "Pubkey set \<Rightarrow> Pubkey list \<Rightarrow> bool" where
  "has_duplicates_set seen [] = False"
| "has_duplicates_set seen (key # keys) = (key \<in> seen \<or> has_duplicates_set (insert key seen) keys)"

fun has_duplicates_pairs :: "Pubkey list \<Rightarrow> bool" where
  "has_duplicates_pairs [] = False"
| "has_duplicates_pairs (key # keys) = ((\<exists>other \<in> set keys. key = other) \<or> has_duplicates_pairs keys)"

definition has_duplicates :: "Pubkey list \<Rightarrow> bool" where
  "has_duplicates keys =
     (if 32 \<le> length keys then has_duplicates_set {} keys
      else has_duplicates_pairs keys)"

definition validate_account_locks :: "Pubkey list \<Rightarrow> nat \<Rightarrow> TransactionError + unit" where
  "validate_account_locks keys tx_account_lock_limit =
     (if tx_account_lock_limit < length keys then Inl TooManyAccountLocks
      else if has_duplicates keys then Inl AccountLoadedTwice
      else Inr ())"

lemma has_duplicates_set_iff: "has_duplicates_set seen keys \<longleftrightarrow> \<not> distinct keys \<or> set keys \<inter> seen \<noteq> {}"
  by (induction seen keys rule: has_duplicates_set.induct) auto

lemma has_duplicates_iff: "has_duplicates keys \<longleftrightarrow> \<not> distinct keys"
proof -
  have "has_duplicates_pairs keys \<longleftrightarrow> \<not> distinct keys" by (induction keys) auto
  then show ?thesis by (simp add: has_duplicates_def has_duplicates_set_iff)
qed

section \<open>Batches\<close>

fun try_lock_each :: "AccountLocks \<Rightarrow> (TransactionError + lock_request list) list \<Rightarrow>
    (TransactionError + unit) list \<times> AccountLocks" where
  "try_lock_each l [] = ([], l)"
| "try_lock_each l (Inl e # batch) = (let (results, l) = try_lock_each l batch in (Inl e # results, l))"
| "try_lock_each l (Inr keys # batch) =
     (let (result, l) = try_lock_accounts l keys;
          (results, l) = try_lock_each l batch
      in (result # results, l))"

definition validated_keys ::
    "nat \<Rightarrow> 'z RuntimeTransaction_scheme \<times> (TransactionError + unit) \<Rightarrow> TransactionError + lock_request list" where
  "validated_keys tx_account_lock_limit = (\<lambda>(tx, result).
     case result of
       Inl e \<Rightarrow> Inl e
     | Inr _ \<Rightarrow> (case validate_account_locks (account_keys tx) tx_account_lock_limit of
                  Inl e \<Rightarrow> Inl e
                | Inr _ \<Rightarrow> Inr (accounts_with_is_writable tx)))"

definition Accounts_lock_accounts ::
    "AccountLocks \<Rightarrow> 'z RuntimeTransaction_scheme list \<Rightarrow> (TransactionError + unit) list \<Rightarrow> nat \<Rightarrow> bool \<Rightarrow>
     (TransactionError + unit) list \<times> AccountLocks" where
  "Accounts_lock_accounts l txs results tx_account_lock_limit relax_intrabatch_account_locks =
     (let validated_batch_keys = map (validated_keys tx_account_lock_limit) (zip txs results)
      in if relax_intrabatch_account_locks then try_lock_transaction_batch l validated_batch_keys
         else try_lock_each l validated_batch_keys)"

fun unlock_each :: "AccountLocks \<Rightarrow> ('z RuntimeTransaction_scheme \<times> (TransactionError + unit)) list \<Rightarrow> AccountLocks" where
  "unlock_each l [] = l"
| "unlock_each l ((tx, res) # batch) =
     unlock_each (if isl res then l else unlock_accounts l (accounts_with_is_writable tx)) batch"

definition Accounts_unlock_accounts ::
    "AccountLocks \<Rightarrow> ('z RuntimeTransaction_scheme \<times> (TransactionError + unit)) list \<Rightarrow> AccountLocks" where
  "Accounts_unlock_accounts l txs_and_results =
     (if \<not> (\<exists>(_, res) \<in> set txs_and_results. \<not> isl res) then l else unlock_each l txs_and_results)"

section \<open>The lock table contract\<close>

definition locks_held :: "AccountLocks \<Rightarrow> lock_request \<Rightarrow> nat" where
  "locks_held l r = (if snd r then count_at (write_locks l) (fst r) else count_at (readonly_locks l) (fst r))"

definition locks_wf :: "AccountLocks \<Rightarrow> bool" where
  "locks_wf l \<longleftrightarrow> no_zero (write_locks l) \<and> no_zero (readonly_locks l)"

lemma locks_wf_default [simp]: "locks_wf AccountLocks_default" "locks_held AccountLocks_default r = 0"
  by (auto simp: AccountLocks_default_def locks_wf_def no_zero_def locks_held_def count_at_def)

lemma lock_one:
  assumes "locks_wf l" and "Suc (locks_held l (key, writable)) < 2 ^ 64"
  defines "l' \<equiv> if writable then lock_write l key else lock_readonly l key"
  shows "locks_wf l' \<and> locks_held l' r = locks_held l r + (if r = (key, writable) then 1 else 0)"
proof (cases writable)
  case True
  with assms(1,2) have "no_zero (write_locks l)" "Suc (count_at (write_locks l) key) < 2 ^ 64"
    by (auto simp: locks_wf_def locks_held_def)
  from count_at_bump [OF this, of "fst r"] True assms(1) show ?thesis
    by (cases r) (auto simp: l'_def locks_wf_def locks_held_def lock_write_def)
next
  case False
  with assms(1,2) have "no_zero (readonly_locks l)" "Suc (count_at (readonly_locks l) key) < 2 ^ 64"
    by (auto simp: locks_wf_def locks_held_def)
  from count_at_bump [OF this, of "fst r"] False assms(1) show ?thesis
    by (cases r) (auto simp: l'_def locks_wf_def locks_held_def lock_readonly_def)
qed

lemma unlock_one:
  assumes "locks_wf l" and "0 < locks_held l (key, writable)"
  defines "l' \<equiv> if writable then unlock_write l key else unlock_readonly l key"
  shows "locks_wf l' \<and> locks_held l' r = locks_held l r - (if r = (key, writable) then 1 else 0)"
proof (cases writable)
  case True
  with assms(2) obtain c where c: "write_locks l key = Some c"
    by (auto simp: locks_held_def count_at_def split: option.splits)
  with True assms(1) count_at_drop [of "write_locks l" key c "c - 1" "fst r"] show ?thesis
    by (cases r) (auto simp: l'_def locks_wf_def locks_held_def unlock_write_def Let_def)
next
  case False
  with assms(2) obtain c where c: "readonly_locks l key = Some c"
    by (auto simp: locks_held_def count_at_def split: option.splits)
  with False assms(1) count_at_drop [of "readonly_locks l" key c "c - 1" "fst r"] show ?thesis
    by (cases r) (auto simp: l'_def locks_wf_def locks_held_def unlock_readonly_def Let_def)
qed

definition lock_account :: "AccountLocks \<Rightarrow> lock_request \<Rightarrow> AccountLocks" where
  "lock_account l = (\<lambda>(key, writable). if writable then lock_write l key else lock_readonly l key)"

definition unlock_account :: "AccountLocks \<Rightarrow> lock_request \<Rightarrow> AccountLocks" where
  "unlock_account l = (\<lambda>(key, writable). if writable then unlock_write l key else unlock_readonly l key)"

lemma lock_accounts_fold: "lock_accounts = foldl lock_account"
proof (intro ext)
  fix l keys show "lock_accounts l keys = foldl lock_account l keys"
    by (induction l keys rule: lock_accounts.induct) (simp_all add: lock_account_def)
qed

lemma unlock_accounts_fold: "unlock_accounts = foldl unlock_account"
proof (intro ext)
  fix l keys show "unlock_accounts l keys = foldl unlock_account l keys"
    by (induction l keys rule: unlock_accounts.induct) (simp_all add: unlock_account_def)
qed

interpretation account_locks: lock_step lock_account unlock_account locks_held locks_wf
proof (unfold_locales, goal_cases)
  case (1 l q r) then show ?case
    unfolding lock_account_def by (cases q) (simp only: prod.case lock_one)
next
  case (2 l q r) then show ?case
    unfolding unlock_account_def by (cases q) (simp only: prod.case unlock_one)
next
  case (3 l l')
  have "locks_held l (k, w) = locks_held l' (k, w)" for k w using 3(3) by simp
  from this [of _ True] this [of _ False]
  have "count_at (write_locks l) = count_at (write_locks l')"
    "count_at (readonly_locks l) = count_at (readonly_locks l')"
    by (auto simp: fun_eq_iff locks_held_def)
  with 3(1,2) have "write_locks l = write_locks l'" "readonly_locks l = readonly_locks l'"
    by (simp_all add: locks_wf_def count_at_inject)
  then show ?case by (intro AccountLocks.equality) simp_all
qed

section \<open>Locking and unlocking batches\<close>

text \<open>The requests a batch holds: those of its transactions whose lock result is \<open>Ok\<close>.\<close>

definition granted :: "('z RuntimeTransaction_scheme \<times> (TransactionError + unit)) list \<Rightarrow> lock_request list list" where
  "granted batch = map (accounts_with_is_writable \<circ> fst) (filter (Not \<circ> isl \<circ> snd) batch)"

lemma granted_simps [simp]:
  "granted [] = []"
  "granted ((tx, res) # batch) =
     (if isl res then granted batch else accounts_with_is_writable tx # granted batch)"
  by (simp_all add: granted_def)

lemma tracks_default: "account_locks.tracks AccountLocks_default {#}"
  by (simp add: account_locks.tracks_def)

lemma tracks_unlock_each:
  "account_locks.tracks l (mset (concat (granted batch)) + M) \<Longrightarrow> account_locks.tracks (unlock_each l batch) M"
proof (induction l batch rule: unlock_each.induct)
  case (2 l tx res batch)
  then show ?case
    using account_locks.tracks_unlock [of l "accounts_with_is_writable tx" "mset (concat (granted batch)) + M"]
    by (cases "isl res") (simp_all add: ac_simps unlock_accounts_fold)
qed simp

lemma Accounts_unlock_accounts_eq: "Accounts_unlock_accounts l batch = unlock_each l batch"
proof -
  have "\<forall>(_, res) \<in> set batch. isl res \<Longrightarrow> unlock_each l batch = l"
    by (induction l batch rule: unlock_each.induct) auto
  then show ?thesis by (auto simp: Accounts_unlock_accounts_def case_prod_unfold)
qed

lemma is_locked_iff:
  assumes "account_locks.tracks l M"
  shows "is_locked_write l k \<longleftrightarrow> (k, True) \<in># M" and "is_locked_readonly l k \<longleftrightarrow> (k, False) \<in># M"
proof -
  have "locks_held l r = count M r" for r using assms unfolding account_locks.tracks_def by blast
  from this [of "(k, True)"] this [of "(k, False)"]
  have "count M (k, True) = count_at (write_locks l) k" "count M (k, False) = count_at (readonly_locks l) k"
    by (simp_all add: locks_held_def)
  then show "is_locked_write l k \<longleftrightarrow> (k, True) \<in># M" "is_locked_readonly l k \<longleftrightarrow> (k, False) \<in># M"
    by (auto simp: is_locked_write_def is_locked_readonly_def count_at_def word_less_nat_alt
        simp flip: count_greater_zero_iff split: option.splits)
qed

lemma can_lock_accounts_iff:
  assumes "account_locks.tracks l (mset held)"
  shows "can_lock_accounts l keys = (if lock_conflict keys held then Inl AccountInUse else Inr ())"
proof (induction keys)
  case (Cons request keys)
  obtain key writable where request: "request = (key, writable)" by fastforce
  have "lock_conflict (request # keys) held \<longleftrightarrow>
      is_locked_write l key \<or> writable \<and> is_locked_readonly l key \<or> lock_conflict keys held"
    by (simp add: request lock_conflict_iff is_locked_iff [OF assms])
  with Cons.IH show ?case by (simp add: request can_write_lock_def can_read_lock_def)
qed (simp add: lock_conflict_iff)


text \<open>
  What locking a batch promises: each validated transaction is granted exactly when it conflicts
  with no request held before. In a strict batch the requests granted earlier in the batch count as
  held; with relaxed locking they do not.
\<close>

fun grant :: "bool \<Rightarrow> lock_request list \<Rightarrow> (TransactionError + lock_request list) list \<Rightarrow> (TransactionError + unit) list" where
  "grant relax held [] = []"
| "grant relax held (Inl e # batch) = Inl e # grant relax held batch"
| "grant relax held (Inr keys # batch) =
     (if lock_conflict keys held then Inl AccountInUse # grant relax held batch
      else Inr () # grant relax (if relax then held else keys @ held) batch)"

fun granted_keys :: "(TransactionError + lock_request list) list \<Rightarrow> (TransactionError + unit) list \<Rightarrow> lock_request list list" where
  "granted_keys (Inr keys # batch) (Inr _ # results) = keys # granted_keys batch results"
| "granted_keys (_ # batch) (_ # results) = granted_keys batch results"
| "granted_keys _ _ = []"

definition requested :: "(TransactionError + lock_request list) list \<Rightarrow> nat" where
  "requested batch = sum_list (map (case_sum (\<lambda>_. 0) length) batch)"

lemma requested_simps [simp]:
  "requested [] = 0" "requested (Inl e # batch) = requested batch"
  "requested (Inr keys # batch) = length keys + requested batch"
  by (simp_all add: requested_def)

lemma try_lock_each_grants:
  assumes "account_locks.tracks l (mset held)" and "length held + requested batch < 2 ^ 64"
    and "try_lock_each l batch = (results, l')"
  shows "results = grant False held batch
    \<and> account_locks.tracks l' (mset (concat (granted_keys batch results) @ held))"
  using assms
proof (induction l batch arbitrary: held results l' rule: try_lock_each.induct)
  case (2 l e batch)
  then show ?case by (auto split: prod.splits)
next
  case (3 l keys batch)
  show ?case
  proof (cases "lock_conflict keys held")
    case True
    then have "try_lock_accounts l keys = (Inl AccountInUse, l)"
      by (simp add: try_lock_accounts_def can_lock_accounts_iff [OF "3.prems"(1)])
    with "3.IH" [OF this [symmetric] refl] "3.prems" True show ?thesis by (auto split: prod.splits)
  next
    case False
    then have granted: "try_lock_accounts l keys = (Inr (), lock_accounts l keys)"
      by (simp add: try_lock_accounts_def can_lock_accounts_iff [OF "3.prems"(1)])
    have "account_locks.tracks (lock_accounts l keys) (mset (keys @ held))"
      using account_locks.tracks_lock [OF "3.prems"(1), of keys] "3.prems"(2) by (simp add: lock_accounts_fold)
    with "3.IH" [OF granted [symmetric] refl, of "keys @ held"] "3.prems" granted False show ?thesis
      by (auto simp: ac_simps split: prod.splits)
  qed
qed simp

lemma lock_available_grants:
  assumes "account_locks.tracks l M" and "size M + requested batch < 2 ^ 64"
    and "lock_available l batch = (results, l')"
  shows "results = map (map_sum id (\<lambda>_. ())) batch
    \<and> account_locks.tracks l' (mset (concat (granted_keys batch results)) + M)"
  using assms
proof (induction l batch arbitrary: M results l' rule: lock_available.induct)
  case (3 l keys batch)
  have "account_locks.tracks (lock_accounts l keys) (mset keys + M)"
    using account_locks.tracks_lock [OF "3.prems"(1), of keys] "3.prems"(2) by (simp add: lock_accounts_fold)
  with "3.IH" [of "mset keys + M"] "3.prems" show ?case by (auto simp: ac_simps split: prod.splits)
qed (auto split: prod.splits)

lemma try_lock_transaction_batch_grants:
  assumes "account_locks.tracks l (mset held)" and "length held + requested batch < 2 ^ 64"
    and "try_lock_transaction_batch l batch = (results, l')"
  shows "results = grant True held batch
    \<and> account_locks.tracks l' (mset (concat (granted_keys batch results) @ held))"
proof -
  define avail where "avail = map (\<lambda>v. case v of Inl e \<Rightarrow> Inl e
      | Inr keys \<Rightarrow> (case can_lock_accounts l keys of Inl e \<Rightarrow> Inl e | Inr _ \<Rightarrow> Inr keys)) batch"
  have res: "map (map_sum id (\<lambda>_. ())) avail = grant True held batch"
    and req: "requested avail \<le> requested batch"
    unfolding avail_def using can_lock_accounts_iff [OF assms(1)]
    by (induction "True" held batch rule: grant.induct) auto
  have keys: "granted_keys avail (map (map_sum id (\<lambda>_. ())) avail)
      = granted_keys batch (map (map_sum id (\<lambda>_. ())) avail)"
    unfolding avail_def by (induction batch) (auto split: sum.splits)
  from req lock_available_grants [OF assms(1), of avail results l'] assms(2,3)
  show ?thesis unfolding try_lock_transaction_batch_def
    by (auto simp: avail_def [symmetric] res keys [unfolded res])
qed

lemma Accounts_lock_accounts_grants:
  assumes "account_locks.tracks l (mset held)"
    and "length held + requested (map (validated_keys limit) (zip txs results)) < 2 ^ 64"
    and "Accounts_lock_accounts l txs results limit relax = (rs, l')"
  shows "rs = grant relax held (map (validated_keys limit) (zip txs results))
    \<and> account_locks.tracks l' (mset (concat (granted_keys (map (validated_keys limit) (zip txs results)) rs) @ held))"
  using assms try_lock_each_grants [OF assms(1,2)] try_lock_transaction_batch_grants [OF assms(1,2)]
  by (auto simp: Accounts_lock_accounts_def Let_def split: if_splits)

lemma granted_zip:
  assumes "length txs = length results"
    and "rs = grant relax held (map (validated_keys limit) (zip txs results))"
  shows "granted (zip txs rs) = granted_keys (map (validated_keys limit) (zip txs results)) rs"
  using assms
proof (induction txs results arbitrary: held rs rule: list_induct2)
  case (Cons tx txs result results)
  then show ?case
    by (cases "validated_keys limit (tx, result)")
       (auto simp: validated_keys_def split: sum.splits)
qed simp

lemma grant_compatible:
  "keys \<in> set (granted_keys batch (grant relax held batch)) \<Longrightarrow> \<not> lock_conflict keys held"
  by (induction relax held batch rule: grant.induct) (auto simp: lock_conflict_append split: if_splits)

lemma grant_strict_compatible:
  "sorted_wrt (\<lambda>xs ys. \<not> lock_conflict xs ys) (granted_keys batch (grant False held batch))"
proof (induction False held batch rule: grant.induct)
  case (3 held keys batch)
  then show ?case using grant_compatible [of _ batch False "keys @ held"]
    by (auto simp: lock_conflict_append lock_conflict_sym)
qed auto

lemma requested_validated:
  "length txs = length results \<Longrightarrow>
     requested (map (validated_keys limit) (zip txs results)) \<le> sum_list (map (length \<circ> account_keys) txs)"
proof (induction txs results rule: list_induct2)
  case (Cons tx txs result results)
  then show ?case
    by (cases "validated_keys limit (tx, result)") (auto simp: validated_keys_def split: sum.splits)
qed simp

section \<open>Validation is as specified\<close>

text \<open>Validation of account keys, for both ways of looking for duplicates: a transaction over
  the limit is refused first, then one that names an address twice; every other one passes.\<close>

lemma validate_account_locks_spec:
  "validate_account_locks keys limit =
     (if limit < length keys then Inl TooManyAccountLocks
      else if distinct keys then Inr () else Inl AccountLoadedTwice)"
  by (simp add: validate_account_locks_def has_duplicates_iff)

end
