(* ===== verification/BundleStorage.thy ===== *)
theory BundleStorage
  imports TransactionContainer AccountLocks
begin

text \<open>
  The store of bundles waiting for execution
  (\<^verbatim>\<open>core/src/bundle_stage/bundle_storage.rs\<close>) and the check of a bundle's packets
  (\<^verbatim>\<open>core/src/bundle_stage/bundle_packet_deserializer.rs\<close>).

  What comes from the banks and from other crates is collected in \<open>PacketEnv\<close>: the parser and
  sanitizer of a packet, the compute budget limits of a transaction, its priority and cost, the last
  valid slot of an address lookup table, and what the root bank answers. The keys that the slab offers
  for new entries are an argument of \<open>insert_bundle\<close>. A panic is \<^term>\<open>None\<close>.
\<close>

section \<open>Packets\<close>

datatype PacketHandlingError = Sanitization | LockValidation | ComputeBudget | ALTResolution | BlacklistedAccount

record 'p Packet =
  discard :: bool
  buffer :: 'p

definition packet_data :: "'p Packet \<Rightarrow> 'p option" where
  "packet_data packet = (if discard packet then None else Some (buffer packet))"

record ('p, 'b) PacketEnv =
  translate_to_runtime_view :: "'p \<Rightarrow> PacketHandlingError + RuntimeTransaction \<times> Slot"
  compute_budget_limits :: "RuntimeTransaction \<Rightarrow> 'b option"
  calculate_priority_and_cost :: "RuntimeTransaction \<Rightarrow> 'b \<Rightarrow> u64 \<times> u64"
  estimate_last_valid_slot :: "Slot \<Rightarrow> Slot"
  root_lock_limit :: nat
  root_epoch :: Epoch
  root_slot :: Slot
  blacklisted_accounts :: "Pubkey set"

definition calculate_max_age :: "('p, 'b) PacketEnv \<Rightarrow> Epoch \<Rightarrow> Slot \<Rightarrow> Slot \<Rightarrow> MaxAge" where
  "calculate_max_age env epoch deactivation_slot current_slot =
     \<lparr>sanitized_epoch = epoch,
      alt_invalidation_slot = estimate_last_valid_slot env (min deactivation_slot current_slot)\<rparr>"

text \<open>The view keeps the reference to the buffer it was parsed from.\<close>

definition try_handle_packet ::
    "('p, 'b) PacketEnv \<Rightarrow> nat \<times> 'p \<Rightarrow> PacketHandlingError + RuntimeTransactionView TransactionState" where
  "try_handle_packet env bytes =
     (case translate_to_runtime_view env (snd bytes) of
        Inl e \<Rightarrow> Inl e
      | Inr (view, deactivation_slot) \<Rightarrow>
          if isl (validate_account_locks (account_keys view) (root_lock_limit env)) then Inl LockValidation
          else if \<exists>account \<in> set (account_keys view). account \<in> blacklisted_accounts env then Inl BlacklistedAccount
          else
            (case compute_budget_limits env view of
               None \<Rightarrow> Inl ComputeBudget
             | Some limits \<Rightarrow>
                 (let age = calculate_max_age env (root_epoch env) deactivation_slot (root_slot env);
                      (prty, cst) = calculate_priority_and_cost env view limits
                  in Inr (TransactionState_new \<lparr>runtime_transaction = view, shared_bytes = fst bytes\<rparr> age prty cst))))"

section \<open>The storage\<close>

datatype BundleStorageError =
    EmptyBatch
  | ContainerFull
  | PacketMarkedDiscard nat
  | PacketFilterError PacketHandlingError nat
  | BundleTooLarge
  | DuplicateTransaction

record BundleStorageEntry =
  container_ids :: "nat list"
  transactions :: "RuntimeTransactionView list"
  max_ages :: "MaxAge list"

record BundleStorage =
  last_slot :: Slot
  transaction_capacity :: nat
  container :: TransactionViewStateContainer
  unprocessed_bundles :: "nat list list"
  cost_model_buffered_bundles :: "nat list list"

definition MAX_PACKETS_PER_BUNDLE :: nat where "MAX_PACKETS_PER_BUNDLE = 5"

definition BundleStorage_with_capacity :: "nat \<Rightarrow> nat \<Rightarrow> BundleStorage" where
  "BundleStorage_with_capacity extra cap =
     \<lparr>last_slot = 0, transaction_capacity = cap, container = view_with_capacity extra cap,
      unprocessed_bundles = [], cost_model_buffered_bundles = []\<rparr>"

definition unprocessed_bundles_len :: "BundleStorage \<Rightarrow> nat" where
  "unprocessed_bundles_len s = length (unprocessed_bundles s)"

definition cost_model_buffered_bundles_len :: "BundleStorage \<Rightarrow> nat" where
  "cost_model_buffered_bundles_len s = length (cost_model_buffered_bundles s)"

definition num_packets_buffered :: "BundleStorage \<Rightarrow> nat" where
  "num_packets_buffered s = buffer_size (inner (container s))"

text \<open>Writes through the reference that \<open>get_mut_transaction_state\<close> returns.\<close>

definition set_view_state ::
    "TransactionViewStateContainer \<Rightarrow> nat \<Rightarrow> RuntimeTransactionView TransactionState \<Rightarrow> TransactionViewStateContainer" where
  "set_view_state c container_id state = c\<lparr>inner := set_transaction_state (inner c) container_id state\<rparr>"

fun retry_transactions ::
    "TransactionViewStateContainer \<Rightarrow> (nat \<times> RuntimeTransactionView) list \<Rightarrow> TransactionViewStateContainer option" where
  "retry_transactions c [] = Some c"
| "retry_transactions c ((container_id, tx) # rest) = do {
     state \<leftarrow> get_mut_transaction_state (inner c) container_id;
     state \<leftarrow> retry_state state tx;
     retry_transactions (set_view_state c container_id state) rest
   }"

text \<open>The views that a consumed bundle still owns are dropped with it.\<close>

definition drop_transactions :: "TransactionViewStateContainer \<Rightarrow> RuntimeTransactionView list \<Rightarrow> TransactionViewStateContainer" where
  "drop_transactions c views = c\<lparr>bytes_buffer := drop_views (bytes_buffer c) views\<rparr>"

definition retry_bundle :: "BundleStorage \<Rightarrow> BundleStorageEntry \<Rightarrow> BundleStorage option" where
  "retry_bundle s bundle = do {
     c \<leftarrow> retry_transactions (container s) (zip (container_ids bundle) (transactions bundle));
     let c = drop_transactions c (drop (length (container_ids bundle)) (transactions bundle));
     Some (s\<lparr>container := c,
            cost_model_buffered_bundles := cost_model_buffered_bundles s @ [container_ids bundle]\<rparr>)
   }"

fun remove_ids :: "TransactionViewStateContainer \<Rightarrow> nat list \<Rightarrow> TransactionViewStateContainer option" where
  "remove_ids c [] = Some c"
| "remove_ids c (container_id # ids) = do { c \<leftarrow> view_remove_by_id c container_id; remove_ids c ids }"

definition destroy_bundle :: "BundleStorage \<Rightarrow> BundleStorageEntry \<Rightarrow> BundleStorage option" where
  "destroy_bundle s bundle = do {
     c \<leftarrow> remove_ids (container s) (container_ids bundle);
     Some (s\<lparr>container := drop_transactions c (transactions bundle)\<rparr>)
   }"

fun take_transactions ::
    "TransactionViewStateContainer \<Rightarrow> nat list \<Rightarrow>
     ((RuntimeTransactionView \<times> MaxAge) list \<times> TransactionViewStateContainer) option" where
  "take_transactions c [] = Some ([], c)"
| "take_transactions c (container_id # ids) = do {
     state \<leftarrow> get_mut_transaction_state (inner c) container_id;
     (taken, state) \<leftarrow> take_transaction_for_scheduling state;
     (rest, c) \<leftarrow> take_transactions (set_view_state c container_id state) ids;
     Some (taken # rest, c)
   }"

text \<open>
  \<open>while let Some(bundle) = buffered.pop_back() { unprocessed.push_front(bundle) }\<close>, with the
  back of a deque at the end of its list.
\<close>

fun requeue_buffered :: "nat list list \<Rightarrow> nat list list \<Rightarrow> nat list list" where
  "requeue_buffered buffered unprocessed =
     (if buffered = [] then unprocessed
      else requeue_buffered (butlast buffered) (last buffered # unprocessed))"

declare requeue_buffered.simps [simp del]

definition pop_bundle :: "BundleStorage \<Rightarrow> Slot \<Rightarrow> (BundleStorageEntry option \<times> BundleStorage) option" where
  "pop_bundle s slot =
     (let s = (if slot \<noteq> last_slot s
               then s\<lparr>unprocessed_bundles := requeue_buffered (cost_model_buffered_bundles s) (unprocessed_bundles s),
                      cost_model_buffered_bundles := [], last_slot := slot\<rparr>
               else s)
      in case unprocessed_bundles s of
           [] \<Rightarrow> Some (None, s)
         | bundle # rest \<Rightarrow> do {
             (taken, c) \<leftarrow> take_transactions (container s) bundle;
             Some (Some \<lparr>container_ids = bundle, transactions = map fst taken, max_ages = map snd taken\<rparr>,
                   s\<lparr>unprocessed_bundles := rest, container := c\<rparr>)
           })"

text \<open>\<open>maybe_error\<close> holds the error of the packet just parsed; \<open>unwrap_err\<close> panics without one.\<close>

fun insert_packets ::
    "('p, 'b) PacketEnv \<Rightarrow> TransactionViewStateContainer \<Rightarrow> nat list \<Rightarrow> nat \<Rightarrow> 'p Packet list \<Rightarrow> nat list \<Rightarrow>
     ((BundleStorageError + nat list) \<times> TransactionViewStateContainer) option" where
  "insert_packets env c keys idx [] ids = Some (Inr ids, c)"
| "insert_packets env c (key # keys) idx (packet # batch) ids = do {
     bytes \<leftarrow> packet_data packet;
     (inserted, c) \<leftarrow> try_insert_map_only_with_data c key bytes (try_handle_packet env);
     (case inserted of
        Some container_id \<Rightarrow> insert_packets env c keys (Suc idx) batch (ids @ [container_id])
      | None \<Rightarrow> do {
          c \<leftarrow> remove_ids c ids;
          (case try_handle_packet env (key, bytes) of
             Inl e \<Rightarrow> Some (Inl (PacketFilterError e idx), c)
           | Inr _ \<Rightarrow> None)
        })
   }"
| "insert_packets env c [] idx (packet # batch) ids = None"

text \<open>The hashes are kept in an array of fixed capacity; pushing onto the full array panics.\<close>

fun does_contain_duplicate_hashes ::
    "TransactionViewStateContainer \<Rightarrow> nat list \<Rightarrow> Hash list \<Rightarrow> bool option" where
  "does_contain_duplicate_hashes c [] transaction_hashes = Some False"
| "does_contain_duplicate_hashes c (container_id # ids) transaction_hashes = do {
     found \<leftarrow> get_transaction (inner c) container_id;
     view \<leftarrow> found;
     let transaction_hash = message_hash (runtime_transaction view);
     (if transaction_hash \<in> set transaction_hashes then Some True
      else if MAX_PACKETS_PER_BUNDLE \<le> length transaction_hashes then None
      else does_contain_duplicate_hashes c ids (transaction_hashes @ [transaction_hash]))
   }"

definition insert_bundle ::
    "('p, 'b) PacketEnv \<Rightarrow> BundleStorage \<Rightarrow> nat list \<Rightarrow> 'p Packet list \<Rightarrow> ((BundleStorageError + unit) \<times> BundleStorage) option" where
  "insert_bundle env s keys batch =
     (if batch = [] then Some (Inl EmptyBatch, s)
      else if MAX_PACKETS_PER_BUNDLE < length batch then Some (Inl BundleTooLarge, s)
      else
        (case find (\<lambda>(idx, packet). discard packet) (enumerate 0 batch) of
           Some (idx, _) \<Rightarrow> Some (Inl (PacketMarkedDiscard idx), s)
         | None \<Rightarrow>
             if transaction_capacity s < buffer_size (inner (container s)) + length batch then Some (Inl ContainerFull, s)
             else do {
               (result, c) \<leftarrow> insert_packets env (container s) keys 0 batch [];
               (case result of
                  Inl e \<Rightarrow> Some (Inl e, s\<lparr>container := c\<rparr>)
                | Inr ids \<Rightarrow> do {
                    is_duplicate \<leftarrow> does_contain_duplicate_hashes c ids [];
                    (if is_duplicate then do {
                       c \<leftarrow> remove_ids c ids;
                       Some (Inl DuplicateTransaction, s\<lparr>container := c\<rparr>)
                     }
                     else Some (Inr (), s\<lparr>container := c, unprocessed_bundles := unprocessed_bundles s @ [ids]\<rparr>))
                  })
             }))"

fun remove_bundles ::
    "TransactionViewStateContainer \<Rightarrow> nat list list \<Rightarrow> TransactionViewStateContainer option" where
  "remove_bundles c [] = Some c"
| "remove_bundles c (bundle # bundles) = do { c \<leftarrow> remove_ids c bundle; remove_bundles c bundles }"

definition clear :: "BundleStorage \<Rightarrow> BundleStorage option" where
  "clear s = do {
     c \<leftarrow> remove_bundles (container s) (unprocessed_bundles s);
     c \<leftarrow> remove_bundles c (cost_model_buffered_bundles s);
     Some (s\<lparr>container := c, unprocessed_bundles := [], cost_model_buffered_bundles := []\<rparr>)
   }"

end
