(* ===== verification/BundleStorageCorrect.thy ===== *)
theory BundleStorageCorrect
  imports BundleStorage "HOL-Library.Multiset"
begin

text \<open>
  Correctness of the bundle storage: the invariant that ties the queues of bundle ids and the bundles
  handed out for execution to the entries of the container, kept by every operation without a panic,
  and what each operation does to the sequence of stored bundles.
\<close>

section \<open>Effect on the container\<close>

abbreviation slab :: "TransactionViewStateContainer \<Rightarrow> RuntimeTransactionView BatchIdOrTransactionState Slab" where
  "slab c \<equiv> id_to_transaction_state (inner c)"

abbreviation stored :: "TransactionViewStateContainer \<Rightarrow> nat" where
  "stored c \<equiv> buffer_size (inner c)"

definition entry :: "TransactionViewStateContainer \<Rightarrow> nat \<Rightarrow> RuntimeTransactionView TransactionState option" where
  "entry c key = (case slab_get (slab c) key of Some (State state) \<Rightarrow> Some state | _ \<Rightarrow> None)"

text \<open>The transaction available at a key, with its maximum age.\<close>

definition tx_at :: "TransactionViewStateContainer \<Rightarrow> nat \<Rightarrow> (RuntimeTransaction \<times> MaxAge) option" where
  "tx_at c key = Option.bind (entry c key)
     (\<lambda>state. map_option (\<lambda>view. (runtime_transaction view, max_age state)) (transaction state))"

text \<open>
  A container as the bundle storage uses it: no queue, no batch entries, and every view stored under
  the key of its buffer. Every buffer is referenced by the container itself, by the view stored under
  its key and by the views outside the container, whose buffers are \<open>H\<close>.
\<close>

definition plain :: "TransactionViewStateContainer \<Rightarrow> nat multiset \<Rightarrow> bool" where
  "plain c H \<longleftrightarrow> slab_ok (slab c) \<and> priority_queue (inner c) = [] \<and> (\<forall>info. Some (Batch info) \<notin> range (slab_get (slab c)))
     \<and> (\<forall>key state. entry c key = Some state \<longrightarrow>
          key < slab_capacity (slab c) \<and> (\<forall>view. transaction state = Some view \<longrightarrow> shared_bytes view = key))
     \<and> length (bytes_buffer c) = slab_capacity (slab c)
     \<and> (\<forall>i < slab_capacity (slab c). bytes_buffer c ! i = Suc (count H i + of_bool (tx_at c i \<noteq> None)))"

definition same_frame :: "TransactionViewStateContainer \<Rightarrow> TransactionViewStateContainer \<Rightarrow> bool" where
  "same_frame c c' \<longleftrightarrow> (\<exists>s. inner c' = (inner c)\<lparr>id_to_transaction_state := s\<rparr> \<and> slab_capacity s = slab_capacity (slab c))"

lemma same_frame_refl [simp]: "same_frame c c"
  unfolding same_frame_def by (intro exI [of _ "slab c"]) simp

lemma same_frame_trans: "same_frame a b \<Longrightarrow> same_frame b c \<Longrightarrow> same_frame a c"
  by (auto simp: same_frame_def)

lemma same_frame_capacity: "same_frame c c' \<Longrightarrow> slab_capacity (slab c') = slab_capacity (slab c)"
  by (auto simp: same_frame_def)

lemma slab_get_plain: "plain c H \<Longrightarrow> slab_get (slab c) key = map_option State (entry c key)"
  by (auto simp: plain_def entry_def image_iff split: option.splits BatchIdOrTransactionState.splits) metis

lemma plain_ext:
  assumes "plain c H" and "plain c' H" and "entry c = entry c'" and "same_frame c c'"
  shows "c = c'"
proof -
  have "slab_get (slab c) = slab_get (slab c')"
    using assms(1-3) by (simp add: fun_eq_iff slab_get_plain)
  with assms have "slab c = slab c'" by (intro slab_ext) (auto simp: plain_def same_frame_def)
  with assms(4) have "inner c = inner c'" by (auto simp: same_frame_def)
  moreover have "bytes_buffer c = bytes_buffer c'"
    using assms(1-3) same_frame_capacity [OF assms(4)] by (auto simp: plain_def tx_at_def intro!: nth_equalityI)
  ultimately show ?thesis by simp
qed

lemma slab_capacity_put [simp]: "slab_capacity (slab_put s key e) = slab_capacity s"
  by (simp add: slab_put_def)

text \<open>What a changed entry must keep: its view, if any, and the number of references.\<close>

lemma plain_update:
  assumes "plain c H" and "slab_ok s" and "slab_get s = (slab_get (slab c))(key := map_option State new)"
    and "slab_capacity s = slab_capacity (slab c)" and "c' = \<lparr>inner = (inner c)\<lparr>id_to_transaction_state := s\<rparr>, bytes_buffer = b\<rparr>"
    and "\<And>state view. new = Some state \<Longrightarrow> transaction state = Some view \<Longrightarrow> shared_bytes view = key"
    and "key < slab_capacity (slab c)" and "length b = slab_capacity (slab c)"
    and "\<And>i. i < slab_capacity (slab c) \<Longrightarrow> b ! i = Suc (count H' i +
      of_bool (if i = key then \<exists>state. new = Some state \<and> transaction state \<noteq> None else tx_at c i \<noteq> None))"
  shows "plain c' H'" and "same_frame c c'" and "entry c' = (entry c)(key := new)"
proof -
  have get: "slab_get (slab c') = (slab_get (slab c))(key := map_option State new)" by (simp add: assms(3,5))
  show e: "entry c' = (entry c)(key := new)" by (auto simp: entry_def get split: option.splits)
  have tx: "tx_at c' i \<noteq> None \<longleftrightarrow> (if i = key then \<exists>state. new = Some state \<and> transaction state \<noteq> None else tx_at c i \<noteq> None)" for i
    by (cases new) (auto simp: tx_at_def e)
  have "priority_queue (inner c') = []" "slab_ok (slab c')" using assms(1,2) by (simp_all add: plain_def assms(5))
  moreover have "\<forall>info. Some (Batch info) \<notin> range (slab_get (slab c'))"
    using assms(1) unfolding get plain_def by (cases new) (auto simp: fun_upd_def split: if_splits)
  moreover have "\<forall>k state. entry c' k = Some state \<longrightarrow>
      k < slab_capacity (slab c') \<and> (\<forall>view. transaction state = Some view \<longrightarrow> shared_bytes view = k)"
    using assms(1,4,6,7) unfolding e plain_def by (auto simp: assms(5))
  moreover have "\<forall>i < slab_capacity (slab c'). bytes_buffer c' ! i = Suc (count H' i + of_bool (tx_at c' i \<noteq> None))"
    using assms(4,9) unfolding tx by (simp add: assms(5))
  ultimately show "plain c' H'" using assms(4,8) by (simp add: plain_def assms(5))
  show "same_frame c c'" using assms(4) by (auto simp: same_frame_def assms(5))
qed

lemma set_view_state_plain:
  assumes "plain c H" and "entry c key = Some old" and "\<And>view. transaction new = Some view \<Longrightarrow> shared_bytes view = key"
    and "\<And>i. count H i + of_bool (i = key \<and> transaction old \<noteq> None) = count H' i + of_bool (i = key \<and> transaction new \<noteq> None)"
  shows "plain (set_view_state c key new) H'" and "same_frame c (set_view_state c key new)"
    and "entry (set_view_state c key new) = (entry c)(key \<mapsto> new)"
    and "stored (set_view_state c key new) = stored c"
proof -
  have ok: "slab_ok (slab c)" and cap: "key < slab_capacity (slab c)" and len: "length (bytes_buffer c) = slab_capacity (slab c)"
    and refs: "\<And>i. i < slab_capacity (slab c) \<Longrightarrow> bytes_buffer c ! i = Suc (count H i + of_bool (tx_at c i \<noteq> None))"
    using assms(1,2) by (auto simp: plain_def)
  define s where "s = slab_put (slab c) key (State new)"
  have s: "slab_ok s" "slab_get s = (slab_get (slab c))(key := map_option State (Some new))" "slab_capacity s = slab_capacity (slab c)"
    using slab_ok_put [OF ok] slab_get_put [OF ok] by (simp_all add: s_def)
  have c': "set_view_state c key new = \<lparr>inner = (inner c)\<lparr>id_to_transaction_state := s\<rparr>, bytes_buffer = bytes_buffer c\<rparr>"
    by (simp add: set_view_state_def set_transaction_state_def s_def)
  have "bytes_buffer c ! i = Suc (count H' i +
      of_bool (if i = key then \<exists>state. Some new = Some state \<and> transaction state \<noteq> None else tx_at c i \<noteq> None))"
    if "i < slab_capacity (slab c)" for i
    using refs [OF that] assms(2) assms(4) [of i] by (auto simp: tx_at_def)
  moreover have "\<And>st view. Some new = Some st \<Longrightarrow> transaction st = Some view \<Longrightarrow> shared_bytes view = key"
    using assms(3) by auto
  ultimately show "plain (set_view_state c key new) H'" "same_frame c (set_view_state c key new)"
    "entry (set_view_state c key new) = (entry c)(key \<mapsto> new)"
    using plain_update [OF assms(1) s c' _ cap len] by blast+
  show "stored (set_view_state c key new) = stored c"
    using assms(2) slab_get_plain [OF assms(1), of key] slab_len_put [OF ok, of key "State new"]
    by (simp add: buffer_size_def c' s_def)
qed

lemma try_insert_plain:
  assumes "plain c H" and "entry c key = None" and "key < slab_capacity (slab c)" and "count H key = 0"
    and "stored c < slab_capacity (slab c)"
  shows "f (key, data) = Inl e \<Longrightarrow> try_insert_map_only_with_data c key data f = Some (None, c)"
    and "f (key, data) = Inr state \<Longrightarrow> transaction state = Some \<lparr>runtime_transaction = tx, shared_bytes = key\<rparr> \<Longrightarrow>
      \<exists>c'. try_insert_map_only_with_data c key data f = Some (Some key, c') \<and> plain c' H \<and> same_frame c c'
        \<and> entry c' = (entry c)(key \<mapsto> state) \<and> stored c' = Suc (stored c)"
proof -
  have ok: "slab_ok (slab c)" and len: "length (bytes_buffer c) = slab_capacity (slab c)"
    and refs: "\<And>i. i < slab_capacity (slab c) \<Longrightarrow> bytes_buffer c ! i = Suc (count H i + of_bool (tx_at c i \<noteq> None))"
    using assms(1) by (auto simp: plain_def)
  have vacant: "tx_at c key = None" using assms(2) by (simp add: tx_at_def)
  then have one: "bytes_buffer c ! key = 1" using refs [OF assms(3)] assms(4) by simp
  then show "f (key, data) = Inl e \<Longrightarrow> try_insert_map_only_with_data c key data f = Some (None, c)"
    using assms(3,5) len by (simp add: try_insert_map_only_with_data_def buffer_size_def)
  assume f: "f (key, data) = Inr state" "transaction state = Some \<lparr>runtime_transaction = tx, shared_bytes = key\<rparr>"
  define s where "s = slab_put (slab c) key (State state)"
  have s: "slab_ok s" "slab_get s = (slab_get (slab c))(key := map_option State (Some state))" "slab_capacity s = slab_capacity (slab c)"
    using slab_ok_put [OF ok] slab_get_put [OF ok] by (simp_all add: s_def)
  define c' where "c' = \<lparr>inner = (inner c)\<lparr>id_to_transaction_state := s\<rparr>, bytes_buffer = (bytes_buffer c)[key := 2]\<rparr>"
  have "(bytes_buffer c)[key := 2] ! i = Suc (count H i +
      of_bool (if i = key then \<exists>st. Some state = Some st \<and> transaction st \<noteq> None else tx_at c i \<noteq> None))"
    if "i < slab_capacity (slab c)" for i
    using refs [OF that] assms(3,4) f(2) len that by (cases "i = key") simp_all
  moreover have "\<And>st view. Some state = Some st \<Longrightarrow> transaction st = Some view \<Longrightarrow> shared_bytes view = key"
    using f(2) by auto
  moreover have "length ((bytes_buffer c)[key := 2]) = slab_capacity (slab c)" by (simp add: len)
  ultimately have "plain c' H" "same_frame c c'" "entry c' = (entry c)(key \<mapsto> state)"
    using plain_update [OF assms(1) s c'_def _ assms(3)] by blast+
  moreover have "try_insert_map_only_with_data c key data f = Some (Some key, c')"
    using assms(3,5) len one f(1)
    by (simp add: try_insert_map_only_with_data_def insert_vacant_def c'_def s_def buffer_size_def)
  moreover have "stored c' = Suc (stored c)"
    using assms(2) slab_get_plain [OF assms(1), of key] slab_len_put [OF ok, of key "State state"]
    by (simp add: buffer_size_def c'_def s_def)
  ultimately show "\<exists>c'. try_insert_map_only_with_data c key data f = Some (Some key, c') \<and> plain c' H \<and> same_frame c c'
      \<and> entry c' = (entry c)(key \<mapsto> state) \<and> stored c' = Suc (stored c)" by blast
qed

lemma drop_views_nth:
  "length (drop_views counts views) = length counts"
  "i < length counts \<Longrightarrow> drop_views counts views ! i = counts ! i - count (mset (map shared_bytes views)) i"
proof (induction views arbitrary: counts)
  case (Cons view views)
  {
    case 1
    show ?case using Cons.IH(1) by (simp add: drop_views_def)
  next
    case 2
    then show ?case using Cons.IH(2) [of "counts[shared_bytes view := counts ! shared_bytes view - 1]"]
      by (cases "i = shared_bytes view") (simp_all add: drop_views_def)
  }
qed (simp_all add: drop_views_def)

lemma drop_transactions_plain:
  assumes "plain c (mset (map shared_bytes views) + H)"
  shows "plain (drop_transactions c views) H" and "same_frame c (drop_transactions c views)"
    and "entry (drop_transactions c views) = entry c" and "stored (drop_transactions c views) = stored c"
proof -
  show e: "entry (drop_transactions c views) = entry c" by (auto simp: entry_def drop_transactions_def)
  have "tx_at (drop_transactions c views) = tx_at c" by (auto simp: tx_at_def e)
  with assms show "plain (drop_transactions c views) H"
    unfolding plain_def e by (simp add: drop_transactions_def drop_views_nth)
  show "same_frame c (drop_transactions c views)" "stored (drop_transactions c views) = stored c"
    by (simp_all add: drop_transactions_def same_frame_def exI [of _ "slab c"])
qed

lemma filter_key: "distinct (map fst xs) \<Longrightarrow> map_of xs key = Some v \<Longrightarrow> filter (\<lambda>(k, _). k = key) xs = [(key, v)]"
proof (induction xs)
  case (Cons x xs)
  then show ?case
    by (cases x) (force simp: filter_empty_conv split: if_splits)
qed simp

lemma removed_entries:
  assumes "slab_ok s" and "slab_remove s key = Some (e, s')"
  shows "filter (\<lambda>(k, _). slab_get s' k = None) (slab_entries s) = [(key, e)]"
proof -
  have d: "distinct (map fst (slab_entries s))"
    using assms(1) by (simp add: slab_ok_def btree_distinct)
  have "slab_get s' k = None \<longleftrightarrow> k = key" if "(k, v) \<in> set (slab_entries s)" for k v
    using slab_remove_Some(2) [OF assms] map_of_is_SomeI [OF d that] by (auto simp: slab_get_def)
  then have "filter (\<lambda>(k, _). slab_get s' k = None) (slab_entries s) = filter (\<lambda>(k, _). k = key) (slab_entries s)"
    by (intro filter_cong) auto
  also have "\<dots> = [(key, e)]" using slab_remove_Some(1) [OF assms] by (intro filter_key [OF d]) (simp add: slab_get_def)
  finally show ?thesis .
qed

lemma view_remove_by_id_plain:
  assumes "plain c H" and "entry c key \<noteq> None"
  shows "\<exists>c'. view_remove_by_id c key = Some c' \<and> plain c' H \<and> same_frame c c'
    \<and> entry c' = (entry c)(key := None) \<and> Suc (stored c') = stored c"
proof -
  obtain state where e: "entry c key = Some state" and get: "slab_get (slab c) key = Some (State state)"
    using assms(2) by (auto simp: entry_def split: option.splits BatchIdOrTransactionState.splits)
  then obtain s where rm: "slab_remove (slab c) key = Some (State state, s)" by (simp add: slab_remove_def)
  have ok: "slab_ok (slab c)" and cap: "key < slab_capacity (slab c)" and len: "length (bytes_buffer c) = slab_capacity (slab c)"
    and refs: "\<And>i. i < slab_capacity (slab c) \<Longrightarrow> bytes_buffer c ! i = Suc (count H i + of_bool (tx_at c i \<noteq> None))"
    and view: "\<And>view. transaction state = Some view \<Longrightarrow> shared_bytes view = key"
    using assms(1) e by (auto simp: plain_def)
  note rm' = slab_remove_Some [OF ok rm]
  define b where "b = drop_views (bytes_buffer c) (stored_views (State state))"
  define c' where "c' = \<lparr>inner = (inner c)\<lparr>id_to_transaction_state := s\<rparr>, bytes_buffer = b\<rparr>"
  have rem: "remove_by_id (inner c) key = Some ((inner c)\<lparr>id_to_transaction_state := s\<rparr>)"
    using get rm assms(1) by (auto simp: remove_by_id_def plain_def btree_remove_def)
  have ret: "view_remove_by_id c key = Some c'"
    by (simp add: view_remove_by_id_def rem removed_entries [OF ok rm] c'_def b_def)
  have refs': "b ! i = Suc (count H i +
      of_bool (if i = key then \<exists>st. None = Some st \<and> transaction st \<noteq> None else tx_at c i \<noteq> None))"
    if "i < slab_capacity (slab c)" for i
    using refs [OF that] that len e view
    by (cases "transaction state") (auto simp: b_def drop_views_nth stored_views_def tx_at_def)
  have "length b = slab_capacity (slab c)" by (simp add: b_def drop_views_nth len)
  moreover have "slab_get s = (slab_get (slab c))(key := map_option State None)" using rm'(2) by simp
  ultimately have "plain c' H" "same_frame c c'" "entry c' = (entry c)(key := None)"
    using plain_update [OF assms(1) rm'(3) _ rm'(5) c'_def _ cap _ refs'] by simp_all
  moreover have "Suc (stored c') = stored c" using rm'(4) by (simp add: buffer_size_def c'_def)
  ultimately show ?thesis using ret by blast
qed

lemma remove_ids_plain:
  assumes "plain c H" and "distinct ids" and "\<forall>key \<in> set ids. entry c key \<noteq> None"
  shows "\<exists>c'. remove_ids c ids = Some c' \<and> plain c' H \<and> same_frame c c'
    \<and> entry c' = entry c |` (- set ids) \<and> stored c' + length ids = stored c"
  using assms
proof (induction ids arbitrary: c)
  case (Cons key ids)
  then obtain d where d: "view_remove_by_id c key = Some d" "plain d H" "same_frame c d"
    "entry d = (entry c)(key := None)" "Suc (stored d) = stored c"
    using view_remove_by_id_plain [of c H key] by auto
  have "distinct ids" "\<forall>k \<in> set ids. entry d k \<noteq> None" using Cons.prems(2,3) by (auto simp: d(4))
  from Cons.IH [OF d(2) this] obtain c' where c': "remove_ids d ids = Some c'" "plain c' H" "same_frame d c'"
    "entry c' = entry d |` (- set ids)" "stored c' + length ids = stored d"
    by blast
  then have "entry c' = entry c |` (- set (key # ids))" by (auto simp: d(4) restrict_map_def fun_eq_iff)
  with c' d show ?case by (auto intro: same_frame_trans)
qed (auto simp: restrict_map_def)

text \<open>Taking and retrying move the reference of a view out of the container and back.\<close>

lemma take_transactions_plain:
  assumes "plain c H" and "distinct ids" and "\<forall>key \<in> set ids. \<exists>state. entry c key = Some state \<and> transaction state \<noteq> None"
  shows "\<exists>taken c'. take_transactions c ids = Some (taken, c') \<and> plain c' (mset ids + H) \<and> same_frame c c'
    \<and> map (\<lambda>(view, age). Some (runtime_transaction view, age)) taken = map (tx_at c) ids
    \<and> map (shared_bytes \<circ> fst) taken = ids
    \<and> entry c' = (\<lambda>key. if key \<in> set ids then map_option (transaction_update (\<lambda>_. None)) (entry c key) else entry c key)
    \<and> stored c' = stored c"
  using assms
proof (induction ids arbitrary: c H)
  case (Cons key ids)
  then obtain state view where st: "entry c key = Some state" "transaction state = Some view" by auto
  then have bytes: "shared_bytes view = key" using Cons.prems(1) by (auto simp: plain_def)
  define d where "d = set_view_state c key (state\<lparr>transaction := None\<rparr>)"
  have d: "plain d (add_mset key H)" "same_frame c d" "entry d = (entry c)(key \<mapsto> state\<lparr>transaction := None\<rparr>)" "stored d = stored c"
    using set_view_state_plain [OF Cons.prems(1) st(1), of "state\<lparr>transaction := None\<rparr>" "add_mset key H"] st(2)
    by (simp_all add: d_def)
  have dist: "distinct ids" using Cons.prems(2) by simp
  have "\<forall>key \<in> set ids. \<exists>state. entry d key = Some state \<and> transaction state \<noteq> None"
    using Cons.prems(2,3) by (auto simp: d(3))
  from Cons.IH [OF d(1) dist this] obtain taken c' where c': "take_transactions d ids = Some (taken, c')"
    "plain c' (mset ids + add_mset key H)" "same_frame d c'"
    "map (\<lambda>(view, age). Some (runtime_transaction view, age)) taken = map (tx_at d) ids" "map (shared_bytes \<circ> fst) taken = ids"
    "entry c' = (\<lambda>key. if key \<in> set ids then map_option (transaction_update (\<lambda>_. None)) (entry d key) else entry d key)"
    "stored c' = stored d" by blast
  have get: "get_mut_transaction_state (inner c) key = Some state"
    using st(1) slab_get_plain [OF Cons.prems(1), of key] by (simp add: get_mut_transaction_state_def)
  have "take_transactions c (key # ids) = Some ((view, max_age state) # taken, c')"
    using c'(1) get st(2) by (simp add: take_transaction_for_scheduling_def d_def)
  moreover have "map (tx_at d) ids = map (tx_at c) ids" using Cons.prems(2) by (auto simp: d(3) tx_at_def)
  moreover have "tx_at c key = Some (runtime_transaction view, max_age state)" using st by (simp add: tx_at_def)
  moreover have "entry c' = (\<lambda>k. if k \<in> set (key # ids) then map_option (transaction_update (\<lambda>_. None)) (entry c k) else entry c k)"
    using st Cons.prems(2) by (auto simp: c'(6) d(3) fun_eq_iff)
  moreover have "plain c' (mset (key # ids) + H)" using c'(2) by (simp add: ac_simps)
  ultimately show ?case using c'(3,4,5,7) d(2,4) bytes by (auto intro: same_frame_trans)
qed auto

lemma retry_transactions_plain:
  assumes "plain c (mset (map fst pairs) + H)" and "distinct (map fst pairs)"
    and "\<forall>key \<in> set (map fst pairs). \<exists>state. entry c key = Some state \<and> transaction state = None"
    and "\<forall>(key, view) \<in> set pairs. shared_bytes view = key"
  shows "\<exists>c'. retry_transactions c pairs = Some c' \<and> plain c' H \<and> same_frame c c' \<and> stored c' = stored c
    \<and> entry c' = (\<lambda>key. case map_of pairs key of
         None \<Rightarrow> entry c key
       | Some view \<Rightarrow> map_option (transaction_update (\<lambda>_. Some view)) (entry c key))"
  using assms
proof (induction pairs arbitrary: c)
  case (Cons p pairs)
  obtain key view where p: "p = (key, view)" by fastforce
  with Cons.prems(3,4) obtain state where st: "entry c key = Some state" "transaction state = None" "shared_bytes view = key" by auto
  define d where "d = set_view_state c key (state\<lparr>transaction := Some view\<rparr>)"
  have d: "plain d (mset (map fst pairs) + H)" "same_frame c d" "entry d = (entry c)(key \<mapsto> state\<lparr>transaction := Some view\<rparr>)"
    "stored d = stored c"
    using set_view_state_plain [OF Cons.prems(1) st(1), of "state\<lparr>transaction := Some view\<rparr>" "mset (map fst pairs) + H"] st(2,3)
    by (simp_all add: d_def p)
  have "entry d k = entry c k" if "k \<in> set (map fst pairs)" for k
    using that Cons.prems(2) by (cases "k = key") (simp_all add: p d(3))
  then have "\<forall>k \<in> set (map fst pairs). \<exists>state. entry d k = Some state \<and> transaction state = None"
    using Cons.prems(3) by simp
  moreover have "distinct (map fst pairs)" "\<forall>(key, view) \<in> set pairs. shared_bytes view = key"
    using Cons.prems(2,4) by auto
  ultimately
  obtain c' where c': "retry_transactions d pairs = Some c'" "plain c' H" "same_frame d c'"
    "stored c' = stored d"
    "entry c' = (\<lambda>key. case map_of pairs key of None \<Rightarrow> entry d key
       | Some view \<Rightarrow> map_option (transaction_update (\<lambda>_. Some view)) (entry d key))"
    using Cons.IH [OF d(1)] by blast
  have "get_mut_transaction_state (inner c) key = Some state"
    using st(1) slab_get_plain [OF Cons.prems(1), of key] by (simp add: get_mut_transaction_state_def)
  then have "retry_transactions c (p # pairs) = Some c'"
    using c'(1) st(2) by (simp add: p retry_state_def d_def)
  moreover have "map_of pairs key = None" using Cons.prems(2) by (simp add: p map_of_eq_None_iff)
  then have "entry c' = (\<lambda>k. case map_of (p # pairs) k of None \<Rightarrow> entry c k
       | Some view \<Rightarrow> map_option (transaction_update (\<lambda>_. Some view)) (entry c k))"
    using st by (auto simp: c'(5) d(3) p fun_eq_iff split: option.splits)
  ultimately show ?case using c'(2-4) d(2,4) st by (auto intro: same_frame_trans)
qed auto

section \<open>Inserting packets\<close>

text \<open>What the check of a packet says of its data, whatever buffer holds it.\<close>

definition handled :: "('p, 'b) PacketEnv \<Rightarrow> 'p \<Rightarrow> PacketHandlingError + (RuntimeTransaction \<times> MaxAge)" where
  "handled env data = map_sum id (\<lambda>state. (runtime_transaction (the (transaction state)), max_age state))
     (try_handle_packet env (0, data))"

lemma handled_error: "handled env data = Inl e \<Longrightarrow> try_handle_packet env (key, data) = Inl e"
  by (auto simp: handled_def try_handle_packet_def split: sum.splits option.splits prod.splits if_splits)

lemma handled_ok:
  "handled env data = Inr (tx, age) \<Longrightarrow> \<exists>state. try_handle_packet env (key, data) = Inr state
     \<and> transaction state = Some \<lparr>runtime_transaction = tx, shared_bytes = key\<rparr> \<and> max_age state = age"
  by (auto simp: handled_def try_handle_packet_def TransactionState_new_def Let_def
      split: sum.splits option.splits prod.splits if_splits)

text \<open>The first packet that fails, and the transactions of a batch without failures.\<close>

fun first_failure :: "('p, 'b) PacketEnv \<Rightarrow> nat \<Rightarrow> 'p Packet list \<Rightarrow> (PacketHandlingError \<times> nat) option" where
  "first_failure env idx [] = None"
| "first_failure env idx (packet # batch) =
     (case handled env (buffer packet) of
        Inl e \<Rightarrow> Some (e, idx)
      | Inr _ \<Rightarrow> first_failure env (Suc idx) batch)"

definition bundle_items :: "('p, 'b) PacketEnv \<Rightarrow> 'p Packet list \<Rightarrow> (RuntimeTransaction \<times> MaxAge) list" where
  "bundle_items env batch = map (projr \<circ> handled env \<circ> buffer) batch"

lemma insert_packets_plain:
  assumes "plain c0 H" and "plain c H" and "same_frame c0 c" and "entry c0 = entry c |` (- set ids)"
    and "distinct (ids @ keys)" and "\<forall>key \<in> set ids. entry c key \<noteq> None"
    and "\<forall>key \<in> set keys. entry c key = None \<and> key < slab_capacity (slab c) \<and> count H key = 0"
    and "length batch \<le> length keys" and "stored c + length batch \<le> slab_capacity (slab c)"
    and "\<forall>packet \<in> set batch. \<not> discard packet"
  shows "case first_failure env idx batch of
      Some (e, i) \<Rightarrow> insert_packets env c keys idx batch ids = Some (Inl (PacketFilterError e i), c0)
    | None \<Rightarrow> \<exists>c'. insert_packets env c keys idx batch ids = Some (Inr (ids @ take (length batch) keys), c')
        \<and> plain c' H \<and> same_frame c0 c' \<and> stored c' = stored c + length batch
        \<and> (\<forall>key. key \<notin> set (take (length batch) keys) \<longrightarrow> entry c' key = entry c key)
        \<and> map (tx_at c') (take (length batch) keys) = map Some (bundle_items env batch)"
  using assms
proof (induction env c keys idx batch ids rule: insert_packets.induct)
  case (1 env c keys idx ids)
  then show ?case by (auto simp: bundle_items_def)
next
  case (2 env c key keys idx packet batch ids)
  have data: "packet_data packet = Some (buffer packet)" using "2.prems"(10) by (simp add: packet_data_def)
  have key: "entry c key = None" "key < slab_capacity (slab c)" "count H key = 0" "stored c < slab_capacity (slab c)"
    using "2.prems"(7,9) by simp_all
  show ?case
  proof (cases "handled env (buffer packet)")
    case (Inl e)
    obtain c' where c': "remove_ids c ids = Some c'" "plain c' H" "same_frame c c'" "entry c' = entry c |` (- set ids)"
      using remove_ids_plain [OF "2.prems"(2) _ "2.prems"(6)] "2.prems"(5) by auto
    have "c0 = c'" using "2.prems"(1,3,4) c' by (intro plain_ext) (auto intro: same_frame_trans)
    with Inl c'(1) data handled_error [OF Inl, of key] try_insert_plain(1) [OF "2.prems"(2) key, of "try_handle_packet env" "buffer packet" e]
    show ?thesis by simp
  next
    case (Inr item)
    then obtain tx age where item: "handled env (buffer packet) = Inr (tx, age)" by (cases item) simp
    obtain state where st: "try_handle_packet env (key, buffer packet) = Inr state"
      "transaction state = Some \<lparr>runtime_transaction = tx, shared_bytes = key\<rparr>" "max_age state = age"
      using handled_ok [OF item, of key] by blast
    obtain d where d: "try_insert_map_only_with_data c key (buffer packet) (try_handle_packet env) = Some (Some key, d)"
      "plain d H" "same_frame c d" "entry d = (entry c)(key \<mapsto> state)" "stored d = Suc (stored c)"
      using try_insert_plain(2) [OF "2.prems"(2) key, of "try_handle_packet env" "buffer packet" state tx] st(1,2) by blast
    note cap = same_frame_capacity [OF d(3)]
    have "entry c0 = entry d |` (- set (ids @ [key]))"
      using "2.prems"(4) key(1) by (auto simp: d(4) restrict_map_def fun_eq_iff)
    moreover have "\<forall>k \<in> set (ids @ [key]). entry d k \<noteq> None"
      "\<forall>k \<in> set keys. entry d k = None \<and> k < slab_capacity (slab d) \<and> count H k = 0"
      using "2.prems"(5-7) cap by (auto simp: d(4))
    ultimately have IH: "case first_failure env (Suc idx) batch of
        Some (e, i) \<Rightarrow> insert_packets env d keys (Suc idx) batch (ids @ [key]) = Some (Inl (PacketFilterError e i), c0)
      | None \<Rightarrow> \<exists>c'. insert_packets env d keys (Suc idx) batch (ids @ [key])
            = Some (Inr ((ids @ [key]) @ take (length batch) keys), c')
          \<and> plain c' H \<and> same_frame c0 c' \<and> stored c' = stored d + length batch
          \<and> (\<forall>key. key \<notin> set (take (length batch) keys) \<longrightarrow> entry c' key = entry d key)
          \<and> map (tx_at c') (take (length batch) keys) = map Some (bundle_items env batch)"
      using "2.IH"(1) [OF data d(1) refl refl "2.prems"(1) d(2)] "2.prems" cap d(3,5)
      by (auto intro: same_frame_trans)
    have new: "tx_at c' key = Some (tx, age)" if "\<forall>k. k \<notin> set (take (length batch) keys) \<longrightarrow> entry c' k = entry d k" for c'
    proof -
      have "key \<notin> set (take (length batch) keys)" using "2.prems"(5) by (auto dest: in_set_takeD)
      with that show ?thesis by (simp add: tx_at_def d(4) st(2,3))
    qed
    have old: "entry c' k = entry c k" if "\<forall>k. k \<notin> set (take (length batch) keys) \<longrightarrow> entry c' k = entry d k"
      and "k \<notin> set (take (length (packet # batch)) (key # keys))" for c' k
      using that by (simp add: d(4))
    show ?thesis
    proof (cases "first_failure env (Suc idx) batch")
      case None
      with IH obtain c' where c': "insert_packets env d keys (Suc idx) batch (ids @ [key])
            = Some (Inr ((ids @ [key]) @ take (length batch) keys), c')"
          "plain c' H" "same_frame c0 c'" "stored c' = stored d + length batch"
          "\<forall>key. key \<notin> set (take (length batch) keys) \<longrightarrow> entry c' key = entry d key"
          "map (tx_at c') (take (length batch) keys) = map Some (bundle_items env batch)" by auto
      have "insert_packets env c (key # keys) idx (packet # batch) ids
          = Some (Inr (ids @ take (length (packet # batch)) (key # keys)), c')"
        using c'(1) d(1) data by simp
      moreover have "map (tx_at c') (take (length (packet # batch)) (key # keys)) = map Some (bundle_items env (packet # batch))"
        using c'(6) new [OF c'(5)] item by (simp add: bundle_items_def)
      ultimately show ?thesis using None item c'(2-4) d(5) old [OF c'(5)] by auto
    next
      case (Some f)
      with IH data d(1) item show ?thesis by (cases f) simp
    qed
  qed
next
  case (3 env c idx packet batch ids)
  then show ?case by simp
qed

section \<open>The invariant\<close>

definition queued :: "BundleStorage \<Rightarrow> nat list" where
  "queued s = concat (unprocessed_bundles s @ cost_model_buffered_bundles s)"

definition handed_out :: "BundleStorageEntry list \<Rightarrow> nat list" where
  "handed_out P = concat (map container_ids P)"

text \<open>A bundle handed out has one view per id, of the buffer of that id and with the maximum age of its entry.\<close>

definition entry_shape :: "TransactionViewStateContainer \<Rightarrow> BundleStorageEntry \<Rightarrow> bool" where
  "entry_shape c e \<longleftrightarrow> map shared_bytes (transactions e) = container_ids e
     \<and> map (\<lambda>key. map_option max_age (entry c key)) (container_ids e) = map Some (max_ages e)"

lemma entry_shape_cong:
  assumes "\<forall>key \<in> set (container_ids e). map_option max_age (entry c' key) = map_option max_age (entry c key)"
  shows "entry_shape c' e \<longleftrightarrow> entry_shape c e"
proof -
  have "map (\<lambda>key. map_option max_age (entry c' key)) (container_ids e)
      = map (\<lambda>key. map_option max_age (entry c key)) (container_ids e)"
    using assms by simp
  then show ?thesis unfolding entry_shape_def by (rule arg_cong)
qed

text \<open>
  \<open>P\<close> are the bundles popped and neither retried nor destroyed yet: their transactions are out of
  the container, with the references to their buffers, all others are in it.
\<close>

definition storage_ok :: "BundleStorage \<Rightarrow> BundleStorageEntry list \<Rightarrow> bool" where
  "storage_ok s P \<longleftrightarrow> plain (container s) (mset (handed_out P))
     \<and> distinct (queued s @ handed_out P) \<and> dom (entry (container s)) = set (queued s @ handed_out P)
     \<and> (\<forall>key \<in> set (queued s). \<exists>state. entry (container s) key = Some state \<and> transaction state \<noteq> None)
     \<and> (\<forall>key \<in> set (handed_out P). \<exists>state. entry (container s) key = Some state \<and> transaction state = None)
     \<and> (\<forall>e \<in> set P. entry_shape (container s) e)
     \<and> stored (container s) \<le> transaction_capacity s \<and> transaction_capacity s \<le> slab_capacity (slab (container s))"

text \<open>The stored bundles: those of this slot in the order they are popped, and those kept for the next.\<close>

type_synonym stored_bundle = "(RuntimeTransaction \<times> MaxAge) option list"

definition bundle_of :: "BundleStorageEntry \<Rightarrow> (RuntimeTransaction \<times> MaxAge) list" where
  "bundle_of e = zip (map runtime_transaction (transactions e)) (max_ages e)"

definition waiting :: "BundleStorage \<Rightarrow> stored_bundle list" where
  "waiting s = map (map (tx_at (container s))) (unprocessed_bundles s)"

definition retrying :: "BundleStorage \<Rightarrow> stored_bundle list" where
  "retrying s = map (map (tx_at (container s))) (cost_model_buffered_bundles s)"

lemma requeue_buffered_append: "requeue_buffered buffered unprocessed = buffered @ unprocessed"
proof (induction buffered arbitrary: unprocessed rule: rev_induct)
  case Nil
  then show ?case by (simp add: requeue_buffered.simps)
next
  case (snoc b buffered)
  then show ?case by (subst requeue_buffered.simps) simp
qed

lemma storage_ok_new: "storage_ok (BundleStorage_with_capacity extra cap) []"
  by (auto simp: storage_ok_def BundleStorage_with_capacity_def view_with_capacity_def with_capacity_def plain_def queued_def
      handed_out_def slab_ok_def entry_def tx_at_def slab_get_def buffer_size_def slab_len_def)

lemma storage_ok_perm:
  assumes "storage_ok s P" and "container s' = container s" and "transaction_capacity s' = transaction_capacity s"
    and "mset (queued s') = mset (queued s)" and "mset P' = mset P"
  shows "storage_ok s' P'"
proof -
  have h: "mset (handed_out P') = mset (handed_out P)"
    using assms(5) by (simp add: handed_out_def mset_concat flip: sum_mset_sum_list)
  with assms(4) have "distinct (queued s' @ handed_out P') = distinct (queued s @ handed_out P)"
    by (intro mset_eq_imp_distinct_iff) simp
  moreover have "set (queued s') = set (queued s)" "set (handed_out P') = set (handed_out P)" "set P' = set P"
    using assms(4,5) h by (metis mset_eq_setD)+
  ultimately show ?thesis using assms(1-3) h unfolding storage_ok_def by (simp only: set_append) blast
qed

text \<open>What a change of slot does before the front bundle is taken.\<close>

definition refresh :: "BundleStorage \<Rightarrow> Slot \<Rightarrow> BundleStorage" where
  "refresh s slot = (if slot \<noteq> last_slot s
     then s\<lparr>unprocessed_bundles := cost_model_buffered_bundles s @ unprocessed_bundles s,
            cost_model_buffered_bundles := [], last_slot := slot\<rparr> else s)"

lemma pop_bundle_refresh:
  "pop_bundle s slot =
     (case unprocessed_bundles (refresh s slot) of
        [] \<Rightarrow> Some (None, refresh s slot)
      | bundle # rest \<Rightarrow> do {
          (taken, c) \<leftarrow> take_transactions (container (refresh s slot)) bundle;
          Some (Some \<lparr>container_ids = bundle, transactions = map fst taken, max_ages = map snd taken\<rparr>,
                (refresh s slot)\<lparr>unprocessed_bundles := rest, container := c\<rparr>)
        })"
  unfolding pop_bundle_def requeue_buffered_append refresh_def by (simp only: Let_def)

lemma refresh_ok: "storage_ok s P \<Longrightarrow> storage_ok (refresh s slot) P"
  by (erule storage_ok_perm) (simp_all add: refresh_def queued_def ac_simps)

lemma refresh_contents:
  "waiting (refresh s slot) = (if slot = last_slot s then waiting s else retrying s @ waiting s)"
  "retrying (refresh s slot) = (if slot = last_slot s then retrying s else [])"
  "last_slot (refresh s slot) = slot"
  by (auto simp: refresh_def waiting_def retrying_def)

lemma pop_front_ok:
  assumes "storage_ok s P" and "unprocessed_bundles s = bundle # rest"
  obtains taken c where "take_transactions (container s) bundle = Some (taken, c)"
    and "storage_ok (s\<lparr>unprocessed_bundles := rest, container := c\<rparr>)
      (\<lparr>container_ids = bundle, transactions = map fst taken, max_ages = map snd taken\<rparr> # P)"
    and "map (\<lambda>(view, age). Some (runtime_transaction view, age)) taken = map (tx_at (container s)) bundle"
    and "\<forall>key \<in> set (concat rest @ concat (cost_model_buffered_bundles s)). tx_at c key = tx_at (container s) key"
proof -
  have q: "queued s = bundle @ concat rest @ concat (cost_model_buffered_bundles s)"
    by (simp add: queued_def assms(2))
  have pl: "plain (container s) (mset (handed_out P))" and d: "distinct bundle"
    and b: "\<forall>key \<in> set bundle. \<exists>state. entry (container s) key = Some state \<and> transaction state \<noteq> None"
    using assms(1) by (auto simp: storage_ok_def q)
  obtain taken c where t: "take_transactions (container s) bundle = Some (taken, c)" 
    "plain c (mset bundle + mset (handed_out P))" "same_frame (container s) c"
    "map (\<lambda>(view, age). Some (runtime_transaction view, age)) taken = map (tx_at (container s)) bundle"
    "map (shared_bytes \<circ> fst) taken = bundle"
    and e: "entry c = (\<lambda>key. if key \<in> set bundle then map_option (transaction_update (\<lambda>_. None)) (entry (container s) key)
        else entry (container s) key)" and size: "stored c = stored (container s)"
    using take_transactions_plain [OF pl d b] by blast
  define s' where "s' = s\<lparr>unprocessed_bundles := rest, container := c\<rparr>"
  define P' where "P' = \<lparr>container_ids = bundle, transactions = map fst taken, max_ages = map snd taken\<rparr> # P"
  have q': "queued s' = concat rest @ concat (cost_model_buffered_bundles s)" "handed_out P' = bundle @ handed_out P"
    by (simp_all add: queued_def s'_def P'_def handed_out_def)
  have disj: "set bundle \<inter> set (queued s') = {}" "set bundle \<inter> set (handed_out P) = {}"
    using assms(1) by (auto simp: storage_ok_def q q')
  have f: "container s' = c" "transaction_capacity s' = transaction_capacity s" by (simp_all add: s'_def)
  have "dom (entry c) = dom (entry (container s))" by (auto simp: e split: if_splits)
  then have dom: "dom (entry c) = set (queued s' @ handed_out P')" "distinct (queued s' @ handed_out P')"
    using assms(1) by (auto simp: storage_ok_def q q')
  have queue: "\<forall>key \<in> set (queued s'). \<exists>state. entry c key = Some state \<and> transaction state \<noteq> None"
    using assms(1) disj by (auto simp: e storage_ok_def q q')
  have handed: "\<forall>key \<in> set (handed_out P'). \<exists>state. entry c key = Some state \<and> transaction state = None"
    using assms(1) b by (auto simp: e storage_ok_def q')
  have "map_option max_age (entry c key) = map_option max_age (entry (container s) key)" for key
    by (cases "entry (container s) key") (auto simp: e)
  moreover have "map (\<lambda>key. map_option max_age (entry (container s) key)) bundle = map (Some \<circ> snd) taken"
  proof -
    have "map (\<lambda>key. map_option max_age (entry (container s) key)) bundle = map (map_option snd) (map (tx_at (container s)) bundle)"
      using b by (auto simp: tx_at_def)
    then show ?thesis by (simp add: case_prod_beta comp_def flip: t(4))
  qed
  ultimately have "\<forall>e \<in> set P'. entry_shape c e"
    using assms(1) t(5) by (auto simp: P'_def storage_ok_def entry_shape_def)
  moreover have "stored c \<le> transaction_capacity s" "transaction_capacity s \<le> slab_capacity (slab c)"
    using assms(1) size same_frame_capacity [OF t(3)] by (auto simp: storage_ok_def)
  moreover have "plain c (mset (handed_out P'))" using t(2) by (simp add: q')
  ultimately have "storage_ok s' P'" unfolding storage_ok_def f using dom queue handed by blast
  moreover have "\<forall>key \<in> set (concat rest @ concat (cost_model_buffered_bundles s)). tx_at c key = tx_at (container s) key"
    using disj by (auto simp: tx_at_def e q')
  ultimately show thesis using that [OF t(1)] t(4) by (simp add: s'_def P'_def tx_at_def comp_def)
qed

section \<open>Every operation keeps the invariant\<close>

text \<open>The stored bundles with the slot they belong to.\<close>

definition contents :: "BundleStorage \<Rightarrow> Slot \<times> stored_bundle list \<times> stored_bundle list" where
  "contents s = (last_slot s, waiting s, retrying s)"

lemma contents_cong:
  assumes "last_slot s' = last_slot s" and "unprocessed_bundles s' = unprocessed_bundles s"
    and "cost_model_buffered_bundles s' = cost_model_buffered_bundles s"
    and "\<forall>key \<in> set (queued s). tx_at (container s') key = tx_at (container s) key"
  shows "contents s' = contents s"
  using assms by (auto simp: contents_def waiting_def retrying_def queued_def ball_Un)

lemma pop_bundle_ok:
  fixes slot :: Slot
  assumes "storage_ok s P"
  defines "todo_now \<equiv> (if slot = last_slot s then waiting s else retrying s @ waiting s)"
    and "kept \<equiv> (if slot = last_slot s then retrying s else [])"
  shows "case todo_now of
      [] \<Rightarrow> \<exists>s'. pop_bundle s slot = Some (None, s') \<and> storage_ok s' P \<and> contents s' = (slot, [], kept)
    | txs # rest \<Rightarrow> \<exists>e s'. pop_bundle s slot = Some (Some e, s') \<and> storage_ok s' (e # P)
        \<and> map Some (bundle_of e) = txs \<and> contents s' = (slot, rest, kept)"
proof -
  define r where "r = refresh s slot"
  have ok: "storage_ok r P" using refresh_ok [OF assms(1)] by (simp add: r_def)
  have c: "waiting r = todo_now" "retrying r = kept" "last_slot r = slot"
    by (auto simp: r_def refresh_contents todo_now_def kept_def)
  show ?thesis
  proof (cases "unprocessed_bundles r")
    case Nil
    then have "todo_now = []" using c(1) by (simp add: waiting_def)
    with Nil ok c show ?thesis by (simp add: pop_bundle_refresh r_def contents_def)
  next
    case (Cons front rest)
    obtain taken d where t: "take_transactions (container r) front = Some (taken, d)"
      "storage_ok (r\<lparr>unprocessed_bundles := rest, container := d\<rparr>)
        (\<lparr>container_ids = front, transactions = map fst taken, max_ages = map snd taken\<rparr> # P)"
      "map (\<lambda>(view, age). Some (runtime_transaction view, age)) taken = map (tx_at (container r)) front"
      "\<forall>key \<in> set (concat rest @ concat (cost_model_buffered_bundles r)). tx_at d key = tx_at (container r) key"
      by (rule pop_front_ok [OF ok Cons])
    have st: "todo_now = map (tx_at (container r)) front # map (map (tx_at (container r))) rest"
      using c(1) Cons by (simp add: waiting_def)
    have "contents (r\<lparr>unprocessed_bundles := rest, container := d\<rparr>) = (slot, map (map (tx_at (container r))) rest, kept)"
      using t(4) c(2,3) by (auto simp: contents_def waiting_def retrying_def ball_Un)
    moreover have "map Some (zip (map runtime_transaction (map fst taken)) (map snd taken)) = map (tx_at (container r)) front"
      by (simp add: zip_map1 zip_map2 zip_same_conv_map case_prod_beta comp_def flip: t(3))
    ultimately show ?thesis using t Cons by (simp add: st pop_bundle_refresh r_def bundle_of_def)
  qed
qed

lemma destroy_bundle_ok:
  assumes "storage_ok s (e # P)"
  shows "\<exists>s'. destroy_bundle s e = Some s' \<and> storage_ok s' P \<and> contents s' = contents s"
proof -
  have pl: "plain (container s) (mset (handed_out (e # P)))" and d: "distinct (container_ids e)"
    and en: "\<forall>key \<in> set (container_ids e). entry (container s) key \<noteq> None"
    using assms by (auto simp: storage_ok_def handed_out_def)
  obtain c0 where c0: "remove_ids (container s) (container_ids e) = Some c0" "plain c0 (mset (handed_out (e # P)))"
    "same_frame (container s) c0" "entry c0 = entry (container s) |` (- set (container_ids e))"
    "stored c0 + length (container_ids e) = stored (container s)"
    using remove_ids_plain [OF pl d en] by blast
  define c where "c = drop_transactions c0 (transactions e)"
  have "mset (handed_out (e # P)) = mset (map shared_bytes (transactions e)) + mset (handed_out P)"
    using assms by (simp add: storage_ok_def entry_shape_def handed_out_def)
  note drop = drop_transactions_plain [OF c0(2) [unfolded this], folded c_def]
  have c: "plain c (mset (handed_out P))" "same_frame (container s) c"
    and e: "entry c = entry (container s) |` (- set (container_ids e))"
    and size: "stored c + length (container_ids e) = stored (container s)"
    using drop c0 by (auto intro: same_frame_trans)
  define s' where "s' = s\<lparr>container := c\<rparr>"
  have f: "container s' = c" "transaction_capacity s' = transaction_capacity s" "queued s' = queued s"
    by (simp_all add: s'_def queued_def)
  have disj: "set (container_ids e) \<inter> set (queued s @ handed_out P) = {}"
    using assms by (auto simp: storage_ok_def handed_out_def)
  have "storage_ok s' P"
    unfolding storage_ok_def f
  proof (intro conjI)
    show "distinct (queued s @ handed_out P)" "dom (entry c) = set (queued s @ handed_out P)"
      using assms disj by (auto simp: storage_ok_def e handed_out_def)
    show "\<forall>key \<in> set (queued s). \<exists>state. entry c key = Some state \<and> transaction state \<noteq> None"
      "\<forall>key \<in> set (handed_out P). \<exists>state. entry c key = Some state \<and> transaction state = None"
      using assms disj by (auto simp: storage_ok_def e handed_out_def restrict_map_def)
    show "stored c \<le> transaction_capacity s" "transaction_capacity s \<le> slab_capacity (slab c)"
      using assms size same_frame_capacity [OF c(2)] by (auto simp: storage_ok_def)
    show "\<forall>f \<in> set P. entry_shape c f"
    proof
      fix f assume f: "f \<in> set P"
      then have "set (container_ids f) \<inter> set (container_ids e) = {}" using disj by (auto simp: handed_out_def)
      with f assms show "entry_shape c f"
        by (subst entry_shape_cong [of f c "container s"]) (auto simp: e storage_ok_def restrict_map_def)
    qed
  qed (use assms c(1) in \<open>auto simp: storage_ok_def\<close>)
  moreover have "contents s' = contents s"
    using disj by (intro contents_cong) (auto simp: s'_def tx_at_def e restrict_map_def)
  ultimately show ?thesis using c0(1) by (auto simp: destroy_bundle_def s'_def c_def)
qed

lemma retry_bundle_ok:
  assumes "storage_ok s (e # P)"
  shows "\<exists>s'. retry_bundle s e = Some s' \<and> storage_ok s' P
    \<and> contents s' = (last_slot s, waiting s, retrying s @ [map Some (bundle_of e)])"
proof -
  define pairs where "pairs = zip (container_ids e) (transactions e)"
  have bytes: "map shared_bytes (transactions e) = container_ids e" using assms by (simp add: storage_ok_def entry_shape_def)
  then have len: "length (container_ids e) = length (transactions e)" by (metis length_map)
  then have fst: "map fst pairs = container_ids e" by (simp add: pairs_def)
  then have keys: "fst ` set pairs = set (container_ids e)" by (metis set_map)
  have pl: "plain (container s) (mset (map fst pairs) + mset (handed_out P))" and d: "distinct (map fst pairs)"
    and en: "\<forall>key \<in> set (map fst pairs). \<exists>state. entry (container s) key = Some state \<and> transaction state = None"
    using assms by (auto simp: storage_ok_def handed_out_def fst)
  have "\<forall>(key, view) \<in> set pairs. shared_bytes view = key"
    by (auto simp: pairs_def set_zip nth_map simp flip: bytes)
  then obtain c where c: "retry_transactions (container s) pairs = Some c" "plain c (mset (handed_out P))" "same_frame (container s) c"
    and size: "stored c = stored (container s)"
    and e: "entry c = (\<lambda>key. case map_of pairs key of None \<Rightarrow> entry (container s) key
       | Some tx \<Rightarrow> map_option (transaction_update (\<lambda>_. Some tx)) (entry (container s) key))"
    using retry_transactions_plain [OF pl d en] by blast
  define s' where "s' = s\<lparr>container := c, cost_model_buffered_bundles := cost_model_buffered_bundles s @ [container_ids e]\<rparr>"
  have f: "container s' = c" "transaction_capacity s' = transaction_capacity s" "queued s' = queued s @ container_ids e"
    "handed_out (e # P) = container_ids e @ handed_out P"
    by (simp_all add: s'_def queued_def handed_out_def)
  have other: "map_of pairs key = None" if "key \<in> set (queued s @ handed_out P)" for key
    unfolding map_of_eq_None_iff keys using assms that by (auto simp: storage_ok_def f)
  have mine: "\<exists>view age. map_of pairs key = Some view \<and> map_option max_age (entry (container s) key) = Some age
      \<and> tx_at c key = Some (runtime_transaction view, age)" if "key \<in> set (container_ids e)" for key
  proof -
    from that obtain tx where "map_of pairs key = Some tx" by (metis keys map_of_eq_None_iff not_None_eq)
    with en that fst show ?thesis by (fastforce simp: e tx_at_def)
  qed
  have "storage_ok s' P"
    unfolding storage_ok_def f
  proof (intro conjI)
    show "dom (entry c) = set ((queued s @ container_ids e) @ handed_out P)"
    proof -
      have "dom (entry c) = dom (entry (container s))" by (auto simp: e split: option.splits)
      with assms show ?thesis by (auto simp: storage_ok_def f)
    qed
    show "distinct ((queued s @ container_ids e) @ handed_out P)" using assms by (auto simp: storage_ok_def f)
    show "\<forall>key \<in> set (queued s @ container_ids e). \<exists>state. entry c key = Some state \<and> transaction state \<noteq> None"
      using assms other mine by (fastforce simp: storage_ok_def e tx_at_def)
    show "\<forall>key \<in> set (handed_out P). \<exists>state. entry c key = Some state \<and> transaction state = None"
      using assms other by (auto simp: storage_ok_def e f)
    show "stored c \<le> transaction_capacity s" "transaction_capacity s \<le> slab_capacity (slab c)"
      using assms size same_frame_capacity [OF c(3)] by (auto simp: storage_ok_def)
    show "\<forall>f \<in> set P. entry_shape c f"
    proof
      fix f assume f: "f \<in> set P"
      then have "\<forall>key \<in> set (container_ids f). map_of pairs key = None" using other by (auto simp: handed_out_def)
      with f assms show "entry_shape c f"
        by (subst entry_shape_cong [of f c "container s"]) (auto simp: e storage_ok_def)
    qed
  qed (use assms c(2) in \<open>auto simp: storage_ok_def\<close>)
  moreover have "map (tx_at c) (container_ids e) = map Some (bundle_of e)"
  proof -
    have ages: "map (\<lambda>key. map_option max_age (entry (container s) key)) (container_ids e) = map Some (max_ages e)"
      using assms by (simp add: storage_ok_def entry_shape_def)
    then have len': "length (max_ages e) = length (container_ids e)" by (metis length_map)
    have "tx_at c (container_ids e ! i) = Some (runtime_transaction (transactions e ! i), max_ages e ! i)" if "i < length (container_ids e)" for i
    proof -
      have "map_of pairs (container_ids e ! i) = Some (transactions e ! i)"
        using d fst len that unfolding pairs_def by (simp add: map_of_zip_nth)
      moreover have "map_option max_age (entry (container s) (container_ids e ! i)) = Some (max_ages e ! i)"
        using ages that len' by (metis (no_types, lifting) nth_map)
      ultimately show ?thesis using mine [of "container_ids e ! i"] that by auto
    qed
    then show ?thesis using len len' by (simp add: bundle_of_def list_eq_iff_nth_eq)
  qed
  moreover have "\<forall>key \<in> set (queued s). tx_at c key = tx_at (container s) key"
    using other by (auto simp: tx_at_def e)
  moreover have "drop_transactions c (drop (length (container_ids e)) (transactions e)) = c"
    by (simp add: len drop_transactions_def drop_views_def)
  ultimately show ?thesis using c(1)
    by (auto simp: retry_bundle_def s'_def pairs_def contents_def waiting_def retrying_def queued_def ball_Un)
qed

subsection \<open>Insertion\<close>

lemma does_contain_duplicate_hashes_eq:
  assumes "plain c H" and "map (tx_at c) ids = map Some txs" and "length hashes + length ids \<le> MAX_PACKETS_PER_BUNDLE"
  shows "does_contain_duplicate_hashes c ids hashes =
    Some (\<not> distinct (map (message_hash \<circ> fst) txs) \<or> set hashes \<inter> (message_hash \<circ> fst) ` set txs \<noteq> {})"
  using assms(2,3)
proof (induction c ids hashes arbitrary: txs rule: does_contain_duplicate_hashes.induct)
  case (2 c key ids hashes)
  then obtain tx age txs' where txs: "txs = (tx, age) # txs'" "tx_at c key = Some (tx, age)" "map (tx_at c) ids = map Some txs'"
    by (cases txs) auto
  then obtain state view where "entry c key = Some state" "transaction state = Some view" and view: "runtime_transaction view = tx"
    by (auto simp: tx_at_def split: bind_splits)
  then have get: "get_transaction (inner c) key = Some (Some view)"
    by (auto simp: get_transaction_def entry_def split: option.splits BatchIdOrTransactionState.splits)
  show ?case
  proof (cases "message_hash tx \<in> set hashes")
    case True
    then show ?thesis using get view txs(1) by simp
  next
    case False
    with "2.IH" [OF get refl refl] "2.prems"(2) txs view get show ?thesis by (auto simp: image_iff)
  qed
qed simp

text \<open>
  What \<open>insert_bundle\<close> promises: the errors in the order of the checks, or the transactions of the
  bundle.
\<close>

definition bundle_check ::
    "('p, 'b) PacketEnv \<Rightarrow> nat \<Rightarrow> nat \<Rightarrow> 'p Packet list \<Rightarrow> BundleStorageError + (RuntimeTransaction \<times> MaxAge) list" where
  "bundle_check env cap len batch =
     (if batch = [] then Inl EmptyBatch
      else if MAX_PACKETS_PER_BUNDLE < length batch then Inl BundleTooLarge
      else
        (case find (\<lambda>(idx, packet). discard packet) (enumerate 0 batch) of
           Some (idx, _) \<Rightarrow> Inl (PacketMarkedDiscard idx)
         | None \<Rightarrow>
             if cap < len + length batch then Inl ContainerFull
             else
               (case first_failure env 0 batch of
                  Some (e, idx) \<Rightarrow> Inl (PacketFilterError e idx)
                | None \<Rightarrow>
                    if distinct (map (message_hash \<circ> fst) (bundle_items env batch))
                    then Inr (bundle_items env batch)
                    else Inl DuplicateTransaction)))"

lemma inserted_contents:
  assumes "storage_ok s P" and "set ids \<inter> dom (entry (container s)) = {}"
    and "\<And>key. key \<notin> set ids \<Longrightarrow> entry c' key = entry (container s) key" and "map (tx_at c') ids = txs"
  shows "contents (s\<lparr>container := c', unprocessed_bundles := unprocessed_bundles s @ [ids]\<rparr>)
    = (last_slot s, waiting s @ [txs], retrying s)"
proof -
  have "tx_at c' key = tx_at (container s) key" if "key \<in> set (queued s)" for key
  proof -
    have "key \<notin> set ids" using assms(1,2) that by (auto simp: storage_ok_def)
    then show ?thesis by (simp add: tx_at_def assms(3))
  qed
  with assms(4) show ?thesis
    by (auto simp: contents_def waiting_def retrying_def queued_def)
qed

lemma inserted_ok:
  assumes "storage_ok s P" and "distinct ids" and "set ids \<inter> dom (entry (container s)) = {}"
    and "\<And>key. key \<notin> set ids \<Longrightarrow> entry c' key = entry (container s) key" and "map (tx_at c') ids = map Some txs"
    and "plain c' (mset (handed_out P))" and "same_frame (container s) c'" and "stored c' \<le> transaction_capacity s"
  shows "storage_ok (s\<lparr>container := c', unprocessed_bundles := unprocessed_bundles s @ [ids]\<rparr>) P"
proof -
  define s' where "s' = s\<lparr>container := c', unprocessed_bundles := unprocessed_bundles s @ [ids]\<rparr>"
  have f: "container s' = c'" "transaction_capacity s' = transaction_capacity s"
    "set (queued s') = set (queued s) \<union> set ids" "mset (queued s' @ handed_out P) = mset (ids @ queued s @ handed_out P)"
    by (auto simp: s'_def queued_def)
  have fresh: "set ids \<inter> set (queued s @ handed_out P) = {}" using assms(1,3) by (simp add: storage_ok_def)
  have new: "\<exists>state. entry c' key = Some state \<and> transaction state \<noteq> None" if key: "key \<in> set ids" for key
  proof -
    have "tx_at c' key \<in> set (map Some txs)" using key assms(5) by (metis image_eqI set_map)
    then show ?thesis by (auto simp: tx_at_def split: bind_splits)
  qed
  have "storage_ok s' P"
    unfolding storage_ok_def f(1,2) set_append f(3)
  proof (intro conjI)
    show "distinct (queued s' @ handed_out P)"
      using mset_eq_imp_distinct_iff [OF f(4)] assms(1,2) fresh by (auto simp: storage_ok_def)
    have "key \<in> dom (entry c') \<longleftrightarrow> key \<in> set (queued s) \<union> set ids \<union> set (handed_out P)" for key
      using assms(1,4) [unfolded storage_ok_def] new [of key] by (cases "key \<in> set ids") auto
    then show "dom (entry c') = set (queued s) \<union> set ids \<union> set (handed_out P)" by blast
    show "\<forall>key \<in> set (queued s) \<union> set ids. \<exists>state. entry c' key = Some state \<and> transaction state \<noteq> None"
      using assms(1,4) new fresh unfolding storage_ok_def by (metis UnE)
    show "\<forall>key \<in> set (handed_out P). \<exists>state. entry c' key = Some state \<and> transaction state = None"
      using assms(1,4) fresh unfolding storage_ok_def set_append by (metis Un_iff disjoint_iff)
    show "transaction_capacity s \<le> slab_capacity (slab c')"
      using assms(1) same_frame_capacity [OF assms(7)] by (simp add: storage_ok_def)
    show "\<forall>f \<in> set P. entry_shape c' f"
    proof
      fix f assume f: "f \<in> set P"
      then have "\<forall>key \<in> set (container_ids f). key \<notin> set ids" using fresh by (auto simp: handed_out_def)
      with f assms(1,4) show "entry_shape c' f"
        by (subst entry_shape_cong [of f c' "container s"]) (auto simp: storage_ok_def)
    qed
  qed (use assms in \<open>auto simp: storage_ok_def\<close>)
  then show ?thesis by (simp add: s'_def)
qed

lemma insert_bundle_ok:
  assumes "storage_ok s P" and "distinct keys"
    and "\<forall>key \<in> set keys. entry (container s) key = None \<and> key < slab_capacity (slab (container s))"
    and "length batch \<le> length keys"
  shows "case bundle_check env (transaction_capacity s) (stored (container s)) batch of
      Inl e \<Rightarrow> insert_bundle env s keys batch = Some (Inl e, s)
    | Inr txs \<Rightarrow> \<exists>s'. insert_bundle env s keys batch = Some (Inr (), s') \<and> storage_ok s' P
        \<and> contents s' = (last_slot s, waiting s @ [map Some txs], retrying s)"
proof (cases "batch \<noteq> [] \<and> length batch \<le> MAX_PACKETS_PER_BUNDLE
    \<and> find (\<lambda>(idx, packet). discard packet) (enumerate 0 batch) = None
    \<and> stored (container s) + length batch \<le> transaction_capacity s")
  case False
  then show ?thesis
    by (auto simp: bundle_check_def insert_bundle_def split: option.splits)
next
  case True
  define c where "c = container s"
  define H where "H = mset (handed_out P)"
  have pl: "plain c H" using assms(1) by (simp add: storage_ok_def c_def H_def)
  have vacant: "\<forall>key \<in> set keys. entry c key = None \<and> key < slab_capacity (slab c) \<and> count H key = 0"
  proof
    fix key assume key: "key \<in> set keys"
    then have "key \<notin> dom (entry c)" using assms(3) by (auto simp: c_def)
    then have "key \<notin># H" using assms(1) by (auto simp: storage_ok_def c_def H_def)
    with key assms(3) show "entry c key = None \<and> key < slab_capacity (slab c) \<and> count H key = 0"
      by (simp add: c_def not_in_iff)
  qed
  have "\<forall>packet \<in> set batch. \<not> discard packet"
  proof
    fix packet assume "packet \<in> set batch"
    then obtain i where "i < length batch" "packet = batch ! i" by (auto simp: in_set_conv_nth)
    then have "(i, packet) \<in> set (enumerate 0 batch)" by (simp add: in_set_enumerate_eq)
    with True show "\<not> discard packet" by (fastforce simp: find_None_iff)
  qed
  moreover have "stored c + length batch \<le> slab_capacity (slab c)"
    using True assms(1) by (simp add: storage_ok_def c_def)
  ultimately have ins: "case first_failure env 0 batch of
      Some (e, i) \<Rightarrow> insert_packets env c keys 0 batch [] = Some (Inl (PacketFilterError e i), c)
    | None \<Rightarrow> \<exists>c'. insert_packets env c keys 0 batch [] = Some (Inr (take (length batch) keys), c')
        \<and> plain c' H \<and> same_frame c c' \<and> stored c' = stored c + length batch
        \<and> (\<forall>key. key \<notin> set (take (length batch) keys) \<longrightarrow> entry c' key = entry c key)
        \<and> map (tx_at c') (take (length batch) keys) = map Some (bundle_items env batch)"
    using insert_packets_plain [OF pl pl, of "[]" keys batch env 0, unfolded append_Nil] assms(2,4) vacant
    by (simp add: restrict_map_def)
  show ?thesis
  proof (cases "first_failure env 0 batch")
    case (Some f)
    with ins True show ?thesis
      by (cases f) (simp add: bundle_check_def insert_bundle_def c_def)
  next
    case None
    define ids where "ids = take (length batch) keys"
    from ins None obtain c' where c': "insert_packets env c keys 0 batch [] = Some (Inr ids, c')" "plain c' H" "same_frame c c'"
      "stored c' = stored c + length batch" and old: "\<And>key. key \<notin> set ids \<Longrightarrow> entry c' key = entry c key"
      and txs: "map (tx_at c') ids = map Some (bundle_items env batch)"
      by (auto simp: ids_def)
    have ids: "distinct ids" "length ids = length batch" "set ids \<inter> dom (entry c) = {}"
      using assms(2,4) vacant by (auto simp: ids_def dest!: in_set_takeD)
    have dup: "does_contain_duplicate_hashes c' ids [] = Some (\<not> distinct (map (message_hash \<circ> fst) (bundle_items env batch)))"
      using does_contain_duplicate_hashes_eq [OF c'(2) txs, of "[]"] ids(2) True by simp
    show ?thesis
    proof (cases "distinct (map (message_hash \<circ> fst) (bundle_items env batch))")
      case False
      have "entry c' key \<noteq> None" if "key \<in> set ids" for key
      proof -
        have "tx_at c' key \<in> set (map Some (bundle_items env batch))" using that txs by (metis image_eqI set_map)
        then show ?thesis by (auto simp: tx_at_def split: bind_splits)
      qed
      then obtain d where d: "remove_ids c' ids = Some d" "plain d H" "same_frame c' d" "entry d = entry c' |` (- set ids)"
        using remove_ids_plain [OF c'(2) ids(1)] by blast
      have "entry c = entry d" using ids(3) old by (auto simp: d(4) restrict_map_def fun_eq_iff)
      then have "c = d" using pl d(2,3) c'(3) by (intro plain_ext) (auto intro: same_frame_trans)
      with d(1) True None False c'(1) dup show ?thesis
        by (simp add: bundle_check_def insert_bundle_def c_def)
    next
      case dist: True
      define s' where "s' = s\<lparr>container := c', unprocessed_bundles := unprocessed_bundles s @ [ids]\<rparr>"
      have "insert_bundle env s keys batch = Some (Inr (), s')"
        using True None dist c'(1) dup by (simp add: insert_bundle_def c_def s'_def)
      moreover have "contents s' = (last_slot s, waiting s @ [map Some (bundle_items env batch)], retrying s)"
        using inserted_contents [OF assms(1)] ids(3) old txs by (simp add: s'_def c_def)
      moreover have "storage_ok s' P"
        using inserted_ok [OF assms(1)] ids old txs c'(2-4) True by (simp add: s'_def c_def H_def)
      ultimately show ?thesis using True None dist by (simp add: bundle_check_def c_def)
    qed
  qed
qed

subsection \<open>Clearing\<close>

lemma remove_ids_append: "remove_ids c (xs @ ys) = Option.bind (remove_ids c xs) (\<lambda>c. remove_ids c ys)"
  by (induction c xs rule: remove_ids.induct) (auto split: bind_splits)

lemma remove_bundles_concat: "remove_bundles c bundles = remove_ids c (concat bundles)"
  by (induction c bundles rule: remove_bundles.induct) (auto simp: remove_ids_append intro: Option.bind_cong)

lemma clear_ok:
  assumes "storage_ok s P"
  shows "\<exists>s'. clear s = Some s' \<and> storage_ok s' P \<and> contents s' = (last_slot s, [], [])"
proof -
  have pl: "plain (container s) (mset (handed_out P))" and d: "distinct (queued s)" and en: "\<forall>key \<in> set (queued s). entry (container s) key \<noteq> None"
    using assms by (auto simp: storage_ok_def)
  obtain c where c: "remove_ids (container s) (queued s) = Some c" "plain c (mset (handed_out P))" "same_frame (container s) c"
    and e: "entry c = entry (container s) |` (- set (queued s))"
    and size: "stored c + length (queued s) = stored (container s)"
    using remove_ids_plain [OF pl d en] by blast
  define s' where "s' = s\<lparr>container := c, unprocessed_bundles := [], cost_model_buffered_bundles := []\<rparr>"
  have f: "container s' = c" "transaction_capacity s' = transaction_capacity s" "queued s' = []"
    by (simp_all add: s'_def queued_def)
  have old: "entry c key = entry (container s) key" if "key \<in> set (handed_out P)" for key
    using assms that by (auto simp: storage_ok_def e restrict_map_def)
  have "storage_ok s' P"
    unfolding storage_ok_def f
  proof (intro conjI)
    show "distinct ([] @ handed_out P)" "dom (entry c) = set ([] @ handed_out P)"
      using assms by (auto simp: storage_ok_def e)
    show "\<forall>key \<in> set (handed_out P). \<exists>state. entry c key = Some state \<and> transaction state = None"
      using assms old by (auto simp: storage_ok_def)
    show "stored c \<le> transaction_capacity s" "transaction_capacity s \<le> slab_capacity (slab c)"
      using assms size same_frame_capacity [OF c(3)] by (auto simp: storage_ok_def)
    show "\<forall>f \<in> set P. entry_shape c f"
    proof
      fix f assume f: "f \<in> set P"
      then have "\<forall>key \<in> set (container_ids f). entry c key = entry (container s) key"
        using old by (auto simp: handed_out_def)
      with f assms show "entry_shape c f"
        by (subst entry_shape_cong [of f c "container s"]) (auto simp: storage_ok_def)
    qed
  qed (use c(2) in auto)
  moreover have "clear s = Some s'"
    using c(1) by (cases "remove_ids (container s) (concat (unprocessed_bundles s))")
      (simp_all add: clear_def remove_bundles_concat queued_def remove_ids_append s'_def)
  ultimately show ?thesis by (auto simp: contents_def waiting_def retrying_def s'_def)
qed

section \<open>The properties\<close>

text \<open>
  For the witnesses: packets are numbers, parsed into a transaction that writes the account of that
  number, below 100; account 50 is blacklisted.
\<close>

definition demo_env :: "(nat, unit) PacketEnv" where
  "demo_env = \<lparr>translate_to_runtime_view = (\<lambda>n. if n < 100
       then Inr (\<lparr>message_hash = of_nat n, account_keys = [of_nat n], is_writable = (\<lambda>_. True)\<rparr>, 7)
       else Inl Sanitization),
     compute_budget_limits = (\<lambda>_. Some ()), calculate_priority_and_cost = (\<lambda>_ _. (1, 1)),
     estimate_last_valid_slot = (\<lambda>slot. slot), root_lock_limit = 64, root_epoch = 1, root_slot = 5,
     blacklisted_accounts = {50}\<rparr>"

definition demo_packet :: "nat \<Rightarrow> nat Packet" where
  "demo_packet n = \<lparr>discard = False, buffer = n\<rparr>"

definition demo_item :: "nat \<Rightarrow> RuntimeTransaction \<times> MaxAge" where
  "demo_item n = (\<lparr>message_hash = of_nat n, account_keys = [of_nat n], is_writable = (\<lambda>_. True)\<rparr>,
     \<lparr>sanitized_epoch = 1, alt_invalidation_slot = 5\<rparr>)"

lemmas demo_check_defs = bundle_check_def MAX_PACKETS_PER_BUNDLE_def demo_packet_def demo_env_def try_handle_packet_def
  validate_account_locks_def has_duplicates_def bundle_items_def handled_def TransactionState_new_def
  calculate_max_age_def demo_item_def

definition demo_storage :: BundleStorage where "demo_storage = BundleStorage_with_capacity 0 4"

lemmas demo_storage_defs = demo_storage_def BundleStorage_with_capacity_def view_with_capacity_def with_capacity_def

lemma demo_storage_facts:
  "storage_ok demo_storage []" "transaction_capacity demo_storage = 4" "stored (container demo_storage) = 0"
  "entry (container demo_storage) key = None" "slab_capacity (slab (container demo_storage)) = 68"
  "contents demo_storage = (0, [], [])"
  using storage_ok_new [of 0 4]
  by (simp_all add: demo_storage_defs EXTRA_CAPACITY_def buffer_size_def slab_len_def entry_def slab_get_def
      contents_def waiting_def retrying_def)

lemma demo_checks:
  "bundle_check demo_env 4 0 [demo_packet 1, demo_packet 2] = Inr [demo_item 1, demo_item 2]"
  "bundle_check demo_env 4 2 [demo_packet 3] = Inr [demo_item 3]"
  "bundle_check demo_env 4 0 [demo_packet 1, demo_packet 50] = Inl (PacketFilterError BlacklistedAccount 1)"
  "bundle_check demo_env 4 0 [demo_packet 1, demo_packet 1] = Inl DuplicateTransaction"
  by (simp_all add: demo_check_defs)

lemma demo_stored: "\<exists>s. storage_ok s [] \<and> contents s = (0, [[Some (demo_item 1), Some (demo_item 2)]], [])"
  using insert_bundle_ok [OF demo_storage_facts(1), of "[0, 1]" "[demo_packet 1, demo_packet 2]" demo_env]
    demo_storage_facts demo_checks(1) by (auto simp: contents_def)

lemma map_Some_eq: "map Some xs = map Some ys \<Longrightarrow> xs = ys"
  by (simp add: inj_map_eq_map)

lemma demo_popped: "\<exists>s e. storage_ok s [e] \<and> bundle_of e = [demo_item 1, demo_item 2] \<and> contents s = (0, [], [])"
proof -
  obtain s where s: "storage_ok s []" "contents s = (0, [[Some (demo_item 1), Some (demo_item 2)]], [])"
    using demo_stored by blast
  obtain e s' where "storage_ok s' [e]" "map Some (bundle_of e) = map Some [demo_item 1, demo_item 2]" "contents s' = (0, [], [])"
    using pop_bundle_ok [OF s(1), of 0] s(2) by (auto simp: contents_def)
  with map_Some_eq show ?thesis by blast
qed

text \<open>C11: the bundle storage never panics and keeps its invariant. The new storage has it; from any
  storage that has it, with any bundles handed out, inserting a bundle under vacant keys of the slab,
  popping the next, clearing the storage, and returning for retry or destroying any bundle handed out
  all return, the indexing of the byte buffers and the assertion that a buffer is not shared included.
  Afterwards every id is in exactly one queue or handed out, with its transaction in the container
  exactly when it is queued, and every buffer is referenced exactly by the container and by the view
  parsed from it.\<close>

theorem bundle_storage_keeps_invariant:
  assumes "storage_ok s P" and "distinct keys"
    and "\<forall>key \<in> set keys. entry (container s) key = None \<and> key < slab_capacity (slab (container s))"
    and "length batch \<le> length keys"
  shows "storage_ok (BundleStorage_with_capacity extra cap) []
    \<and> (\<exists>r s'. insert_bundle env s keys batch = Some (r, s') \<and> storage_ok s' P)
    \<and> (\<exists>s'. pop_bundle s slot = Some (None, s') \<and> storage_ok s' P
         \<or> (\<exists>e. pop_bundle s slot = Some (Some e, s') \<and> storage_ok s' (e # P)))
    \<and> (\<exists>s'. clear s = Some s' \<and> storage_ok s' P)
    \<and> (\<forall>e Q. mset P = mset (e # Q) \<longrightarrow>
         (\<exists>s'. retry_bundle s e = Some s' \<and> storage_ok s' Q) \<and> (\<exists>s'. destroy_bundle s e = Some s' \<and> storage_ok s' Q))"
proof (intro conjI allI impI)
  show "\<exists>r s'. insert_bundle env s keys batch = Some (r, s') \<and> storage_ok s' P"
    using insert_bundle_ok [OF assms, of env] assms(1) by (auto split: sum.splits)
  show "\<exists>s'. pop_bundle s slot = Some (None, s') \<and> storage_ok s' P
      \<or> (\<exists>e. pop_bundle s slot = Some (Some e, s') \<and> storage_ok s' (e # P))"
    using pop_bundle_ok [OF assms(1), of slot] by (auto split: list.splits)
  show "storage_ok (BundleStorage_with_capacity extra cap) []" by (rule storage_ok_new)
  show "\<exists>s'. clear s = Some s' \<and> storage_ok s' P" using clear_ok [OF assms(1)] by blast
  fix e Q assume "mset P = mset (e # Q)"
  then have "storage_ok s (e # Q)" by (intro storage_ok_perm [OF assms(1)]) simp_all
  then show "\<exists>s'. retry_bundle s e = Some s' \<and> storage_ok s' Q" "\<exists>s'. destroy_bundle s e = Some s' \<and> storage_ok s' Q"
    using retry_bundle_ok destroy_bundle_ok by blast+
qed

theorem bundle_storage_keeps_invariant_witness:
  "(\<exists>r s'. insert_bundle demo_env demo_storage [0, 1] [demo_packet 1, demo_packet 50] = Some (r, s') \<and> storage_ok s' [])
   \<and> (\<exists>s e s'. storage_ok s [e] \<and> bundle_of e = [demo_item 1, demo_item 2] \<and> retry_bundle s e = Some s' \<and> storage_ok s' [])"
proof -
  obtain s e where s: "storage_ok s [e]" "bundle_of e = [demo_item 1, demo_item 2]" using demo_popped by blast
  from bundle_storage_keeps_invariant [OF s(1), of "[]" "[]" 0 0 demo_env 0]
  obtain s' where "retry_bundle s e = Some s'" "storage_ok s' []" by auto
  moreover from bundle_storage_keeps_invariant [OF demo_storage_facts(1), of "[0, 1]" "[demo_packet 1, demo_packet 50]" 0 0 demo_env 0]
  have "\<exists>r s'. insert_bundle demo_env demo_storage [0, 1] [demo_packet 1, demo_packet 50] = Some (r, s') \<and> storage_ok s' []"
    using demo_storage_facts(4,5) by simp
  ultimately show ?thesis using s by blast
qed

text \<open>C12: insertion checks a bundle in the order of the code (empty, too large, discarded packet,
  no room, first packet that fails, repeated message) and leaves the storage exactly as it was when any
  check fails, rolling back the packets already inserted; a bundle that passes is appended whole.\<close>

theorem insert_bundle_all_or_nothing:
  assumes "storage_ok s P" and "distinct keys"
    and "\<forall>key \<in> set keys. entry (container s) key = None \<and> key < slab_capacity (slab (container s))"
    and "length batch \<le> length keys"
  shows "case bundle_check env (transaction_capacity s) (stored (container s)) batch of
      Inl e \<Rightarrow> insert_bundle env s keys batch = Some (Inl e, s)
    | Inr items \<Rightarrow> \<exists>s'. insert_bundle env s keys batch = Some (Inr (), s')
        \<and> contents s' = (last_slot s, waiting s @ [map Some items], retrying s)"
  using insert_bundle_ok [OF assms, of env] by (auto split: sum.splits)

theorem insert_bundle_all_or_nothing_witness:
  "insert_bundle demo_env demo_storage [0, 1] [demo_packet 1, demo_packet 50]
    = Some (Inl (PacketFilterError BlacklistedAccount 1), demo_storage)"
  using insert_bundle_all_or_nothing [OF demo_storage_facts(1), of "[0, 1]" "[demo_packet 1, demo_packet 50]" demo_env]
    demo_storage_facts demo_checks(3) by simp

text \<open>The bundles handed out that are returned for retry, in this order.\<close>

definition retry_bundles :: "BundleStorage \<Rightarrow> BundleStorageEntry list \<Rightarrow> BundleStorage option" where
  "retry_bundles s es = foldl (\<lambda>s e. Option.bind s (\<lambda>s. retry_bundle s e)) (Some s) es"

lemma retry_bundles_ok:
  assumes "storage_ok s (es @ P)"
  shows "\<exists>s'. retry_bundles s es = Some s' \<and> storage_ok s' P
    \<and> contents s' = (last_slot s, waiting s, retrying s @ map (map Some \<circ> bundle_of) es)"
  using assms
proof (induction es arbitrary: s)
  case (Cons e es)
  then obtain s1 where s1: "retry_bundle s e = Some s1" "storage_ok s1 (es @ P)"
    "contents s1 = (last_slot s, waiting s, retrying s @ [map Some (bundle_of e)])"
    using retry_bundle_ok [of s e "es @ P"] by auto
  from Cons.IH [OF s1(2)] s1 show ?case by (auto simp: retry_bundles_def contents_def)
qed (simp add: retry_bundles_def contents_def)

text \<open>C13: bundles come out in order. After the bundles \<open>es\<close> were returned for retry one after the
  other, the bundles of the same slot are popped first in, first out, and none of \<open>es\<close> is among them;
  in another slot the bundles retried come first, oldest first (those retried earlier, then \<open>es\<close> in
  the order of the retries), before everything that was still queued. A popped bundle is the stored
  one, transaction by transaction.\<close>

theorem pop_bundle_order:
  fixes slot :: Slot
  assumes "storage_ok s (es @ P)"
  shows "\<exists>r. retry_bundles s es = Some r \<and>
    (case (if slot = last_slot s then waiting s else retrying s @ map (map Some \<circ> bundle_of) es @ waiting s) of
      [] \<Rightarrow> \<exists>s'. pop_bundle r slot = Some (None, s') \<and> waiting s' = []
    | items # rest \<Rightarrow> \<exists>e s'. pop_bundle r slot = Some (Some e, s') \<and> map Some (bundle_of e) = items \<and> waiting s' = rest
        \<and> retrying s' = (if slot = last_slot s then retrying s @ map (map Some \<circ> bundle_of) es else []))"
proof -
  obtain r where r: "retry_bundles s es = Some r" "storage_ok r P"
    "contents r = (last_slot s, waiting s, retrying s @ map (map Some \<circ> bundle_of) es)"
    using retry_bundles_ok [OF assms] by blast
  with pop_bundle_ok [OF r(2), of slot] show ?thesis
    by (intro exI [of _ r]) (auto simp: contents_def split: list.splits if_splits)
qed

lemma demo_two_popped:
  "\<exists>s e f. storage_ok s [e, f] \<and> bundle_of e = [demo_item 1, demo_item 2] \<and> bundle_of f = [demo_item 3] \<and> contents s = (0, [], [])"
proof -
  define keys :: "nat list" where "keys = [0, 1]"
  obtain s1 where s1: "insert_bundle demo_env demo_storage keys [demo_packet 1, demo_packet 2] = Some (Inr (), s1)" "storage_ok s1 []"
    "contents s1 = (0, [[Some (demo_item 1), Some (demo_item 2)]], [])"
    using insert_bundle_ok [OF demo_storage_facts(1), of keys "[demo_packet 1, demo_packet 2]" demo_env]
      demo_storage_facts demo_checks(1) by (auto simp: keys_def contents_def)
  have s1': "transaction_capacity s1 = 4" "stored (container s1) = 2" "entry (container s1) 2 = None"
    "slab_capacity (slab (container s1)) = 68"
    using s1(1) by (auto simp: keys_def insert_bundle_def demo_check_defs demo_storage_defs packet_data_def
        try_insert_map_only_with_data_def insert_vacant_def slab_put_def slab_len_def buffer_size_def
        EXTRA_CAPACITY_def entry_def slab_get_def split: bind_splits if_splits)
  obtain s2 where s2: "storage_ok s2 []" "contents s2 = (0, [map Some [demo_item 1, demo_item 2], map Some [demo_item 3]], [])"
    using insert_bundle_ok [OF s1(2), of "[2]" "[demo_packet 3]" demo_env] s1' s1(3) demo_checks(2) by (auto simp: contents_def)
  obtain e s3 where s3: "storage_ok s3 [e]" "map Some (bundle_of e) = map Some [demo_item 1, demo_item 2]"
    "contents s3 = (0, [map Some [demo_item 3]], [])"
    using pop_bundle_ok [OF s2(1), of 0] s2(2) by (auto simp: contents_def)
  obtain f s4 where s4: "storage_ok s4 [f, e]" "map Some (bundle_of f) = map Some [demo_item 3]" "contents s4 = (0, [], [])"
    using pop_bundle_ok [OF s3(1), of 0] s3(3) by (auto simp: contents_def)
  have "storage_ok s4 [e, f]" by (intro storage_ok_perm [OF s4(1)]) simp_all
  with map_Some_eq [OF s3(2)] map_Some_eq [OF s4(2)] s4(3) show ?thesis by blast
qed

theorem pop_bundle_order_witness:
  "\<exists>s e f r g s'. storage_ok s [e, f] \<and> bundle_of f = [demo_item 3] \<and> retry_bundles s [e, f] = Some r
    \<and> pop_bundle r 1 = Some (Some g, s') \<and> bundle_of g = [demo_item 1, demo_item 2]
    \<and> waiting s' = [[Some (demo_item 3)]]"
proof -
  obtain s e f where s: "storage_ok s [e, f]" "bundle_of e = [demo_item 1, demo_item 2]" "bundle_of f = [demo_item 3]"
    "contents s = (0, [], [])" using demo_two_popped by blast
  obtain r g s' where g: "retry_bundles s [e, f] = Some r" "pop_bundle r 1 = Some (Some g, s')"
    "map Some (bundle_of g) = map Some [demo_item 1, demo_item 2]" "waiting s' = [[Some (demo_item 3)]]"
    using pop_bundle_order [of s "[e, f]" "[]" 1] s by (auto simp: contents_def)
  with s map_Some_eq [OF g(3)] show ?thesis by blast
qed

end
