(* ===== verification/TransactionBatch.thy ===== *)
theory TransactionBatch
  imports AccountLocks
begin

text \<open>
  Batches of transactions locked in a bank: the locking entry points of
  \<^verbatim>\<open>runtime/src/bank.rs\<close> and the life of a \<open>TransactionBatch\<close>
  (\<^verbatim>\<open>runtime/src/transaction_batch.rs\<close>), from the locks taken when it is prepared, through the
  early release of transactions that failed later, to the release of the rest when it is dropped. The
  bank is the lock table; the activation of a feature and the lock limit of the
  \<open>solana_transaction\<close> crate are arguments. A failed assertion is \<^term>\<open>None\<close>.
\<close>

definition get_transaction_account_lock_limit :: "nat \<Rightarrow> nat option \<Rightarrow> bool \<Rightarrow> nat" where
  "get_transaction_account_lock_limit max_tx_account_locks transaction_account_lock_limit increase_tx_account_lock_limit =
     (case transaction_account_lock_limit of
        Some limit \<Rightarrow> limit
      | None \<Rightarrow> if increase_tx_account_lock_limit then max_tx_account_locks else 64)"

text \<open>With relaxed locking, a message hash seen earlier in the batch is an error.\<close>

fun mark_duplicates :: "Hash set \<Rightarrow> bool \<Rightarrow> (RuntimeTransaction \<times> (TransactionError + unit)) list \<Rightarrow> (TransactionError + unit) list" where
  "mark_duplicates batch_message_hashes relax [] = []"
| "mark_duplicates batch_message_hashes relax ((tx, Inr _) # batch) =
     (if relax then
        (if message_hash tx \<in> batch_message_hashes
         then Inl AlreadyProcessed # mark_duplicates batch_message_hashes relax batch
         else Inr () # mark_duplicates (insert (message_hash tx) batch_message_hashes) relax batch)
      else Inr () # mark_duplicates batch_message_hashes relax batch)"
| "mark_duplicates batch_message_hashes relax ((tx, Inl e) # batch) =
     Inl e # mark_duplicates batch_message_hashes relax batch"

definition try_lock_accounts_with_results ::
    "AccountLocks \<Rightarrow> RuntimeTransaction list \<Rightarrow> (TransactionError + unit) list \<Rightarrow> nat \<Rightarrow> bool \<Rightarrow>
     (TransactionError + unit) list \<times> AccountLocks" where
  "try_lock_accounts_with_results l txs tx_results limit relax =
     Accounts_lock_accounts l txs (mark_duplicates {} relax (zip txs tx_results)) limit relax"

record TransactionBatch =
  lock_results :: "(TransactionError + unit) list"
  sanitized_txs :: "RuntimeTransaction list"
  needs_unlock :: bool

definition TransactionBatch_new ::
    "(TransactionError + unit) list \<Rightarrow> RuntimeTransaction list \<Rightarrow> TransactionBatch option" where
  "TransactionBatch_new results txs =
     (if length results = length txs
      then Some \<lparr>lock_results = results, sanitized_txs = txs, needs_unlock = True\<rparr> else None)"

definition prepare_sanitized_batch_with_results ::
    "AccountLocks \<Rightarrow> RuntimeTransaction list \<Rightarrow> (TransactionError + unit) list \<Rightarrow> bool \<Rightarrow> nat \<Rightarrow> bool \<Rightarrow>
     (TransactionBatch \<times> AccountLocks) option" where
  "prepare_sanitized_batch_with_results l transactions transaction_results batched_locking limit relax_feature =
     (let (results, l') = try_lock_accounts_with_results l transactions transaction_results limit
                            (batched_locking \<or> relax_feature)
      in map_option (\<lambda>batch. (batch, l')) (TransactionBatch_new results transactions))"

definition prepare_unlocked_batch_from_single_tx :: "RuntimeTransaction \<Rightarrow> nat \<Rightarrow> TransactionBatch option" where
  "prepare_unlocked_batch_from_single_tx tx limit =
     map_option (needs_unlock_update (\<lambda>_. False))
       (TransactionBatch_new [validate_account_locks (account_keys tx) limit] [tx])"

definition unlock_failures ::
    "AccountLocks \<Rightarrow> TransactionBatch \<Rightarrow> (TransactionError + unit) list \<Rightarrow> (TransactionBatch \<times> AccountLocks) option" where
  "unlock_failures l batch transaction_results =
     (if length (lock_results batch) \<noteq> length transaction_results then None
      else if \<not> needs_unlock batch then Some (batch, l)
      else if \<exists>(result, lock_result) \<in> set (zip transaction_results (lock_results batch)).
                \<not> isl result \<and> isl lock_result then None
      else
        (let txs_and_results =
               map snd (filter (\<lambda>(result, _, lock_result). isl result \<and> \<not> isl lock_result)
                 (zip transaction_results (zip (sanitized_txs batch) (lock_results batch))))
         in Some (batch\<lparr>lock_results := transaction_results\<rparr>, Accounts_unlock_accounts l txs_and_results)))"

definition TransactionBatch_drop :: "AccountLocks \<Rightarrow> TransactionBatch \<Rightarrow> AccountLocks" where
  "TransactionBatch_drop l batch =
     (if needs_unlock batch then Accounts_unlock_accounts l (zip (sanitized_txs batch) (lock_results batch)) else l)"

section \<open>Runs\<close>

text \<open>
  A run prepares batches, releases transactions that failed and drops batches in any interleaving.
  Its first argument lists the batches alive that hold locks, the newest first, each with whether it
  was locked with relaxed intra-batch rules.
\<close>

definition holds :: "TransactionBatch \<Rightarrow> lock_request list list" where
  "holds b = granted (zip (sanitized_txs b) (lock_results b))"

definition held_requests :: "(bool \<times> TransactionBatch) list \<Rightarrow> lock_request list" where
  "held_requests H = concat (concat (map (holds \<circ> snd) H))"

inductive locks_run :: "(bool \<times> TransactionBatch) list \<Rightarrow> AccountLocks \<Rightarrow> bool" where
  init: "locks_run [] AccountLocks_default"
| prepare: "locks_run H l \<Longrightarrow> length txs = length results \<Longrightarrow>
    length (held_requests H) + sum_list (map (length \<circ> account_keys) txs) < 2 ^ 64 \<Longrightarrow>
    prepare_sanitized_batch_with_results l txs results batched limit feature = Some (batch, l') \<Longrightarrow>
    locks_run ((batched \<or> feature, batch) # H) l'"
| fail: "locks_run (A @ (relax, batch) # B) l \<Longrightarrow> unlock_failures l batch results = Some (batch', l') \<Longrightarrow>
    locks_run (A @ (relax, batch') # B) l'"
| drop: "locks_run (A @ (relax, batch) # B) l \<Longrightarrow> locks_run (A @ B) (TransactionBatch_drop l batch)"

lemma length_mark_duplicates [simp]: "length (mark_duplicates seen relax batch) = length batch"
  by (induction seen relax batch rule: mark_duplicates.induct) auto

lemma prepare_step:
  assumes "account_locks.tracks l (mset (held_requests H))" and "length txs = length results"
    and "length (held_requests H) + sum_list (map (length \<circ> account_keys) txs) < 2 ^ 64"
    and "prepare_sanitized_batch_with_results l txs results batched limit feature = Some (batch, l')"
  defines "relax \<equiv> batched \<or> feature"
  defines "keys \<equiv> map (validated_keys limit) (zip txs (mark_duplicates {} relax (zip txs results)))"
  shows "lock_results batch = grant relax (held_requests H) keys"
    and "length (lock_results batch) = length (sanitized_txs batch)" and "needs_unlock batch"
    and "holds batch = granted_keys keys (lock_results batch)"
    and "account_locks.tracks l' (mset (held_requests ((relax, batch) # H)))"
proof -
  define rs where "rs = mark_duplicates {} relax (zip txs results)"
  have len: "length txs = length rs" using assms(2) by (simp add: rs_def)
  have lock: "Accounts_lock_accounts l txs rs limit relax = (lock_results batch, l')"
    and batch: "sanitized_txs batch = txs" "needs_unlock batch"
      "length (lock_results batch) = length (sanitized_txs batch)"
    using assms(4)
    by (auto simp: prepare_sanitized_batch_with_results_def try_lock_accounts_with_results_def rs_def relax_def
        TransactionBatch_new_def split: prod.splits if_splits)
  have "length (held_requests H) + requested keys < 2 ^ 64"
    using requested_validated [OF len, of limit] assms(3) unfolding keys_def rs_def by linarith
  note g = Accounts_lock_accounts_grants [OF assms(1) this [unfolded keys_def] lock [unfolded rs_def]]
  then show res: "lock_results batch = grant relax (held_requests H) keys" by (simp add: keys_def)
  show "length (lock_results batch) = length (sanitized_txs batch)" "needs_unlock batch" by fact+
  show keys: "holds batch = granted_keys keys (lock_results batch)"
    using granted_zip [OF len, of "lock_results batch" relax "held_requests H" limit] res
    by (simp add: holds_def batch keys_def rs_def)
  show "account_locks.tracks l' (mset (held_requests ((relax, batch) # H)))"
    using conjunct2 [OF g] by (simp add: held_requests_def keys) (simp add: keys_def)
qed

lemma fail_split:
  assumes "length new = length txs" and "length txs = length old"
    and "\<forall>(result, lock_result) \<in> set (zip new old). \<not> isl result \<longrightarrow> \<not> isl lock_result"
  defines "failed \<equiv> map snd (filter (\<lambda>(result, _, lock_result). isl result \<and> \<not> isl lock_result) (zip new (zip txs old)))"
  shows "mset (concat (granted (zip txs old))) = mset (concat (granted failed)) + mset (concat (granted (zip txs new)))"
    and "set (granted (zip txs new)) \<subseteq> set (granted (zip txs old))"
    and "sorted_wrt P (granted (zip txs old)) \<Longrightarrow> sorted_wrt P (granted (zip txs new))"
proof -
  show "mset (concat (granted (zip txs old))) = mset (concat (granted failed)) + mset (concat (granted (zip txs new)))"
    using assms(1-3) unfolding failed_def by (induction new txs old rule: list_induct3) auto
  have sub: "set (granted (zip txs new)) \<subseteq> set (granted (zip txs old))"
    if "length new = length txs" "length txs = length old"
      "\<forall>(result, lock_result) \<in> set (zip new old). \<not> isl result \<longrightarrow> \<not> isl lock_result"
    for txs :: "'a RuntimeTransaction_scheme list" and new old :: "(TransactionError + unit) list"
    using that by (induction new txs old rule: list_induct3) auto
  then show "set (granted (zip txs new)) \<subseteq> set (granted (zip txs old))" using assms(1-3) by blast
  show "sorted_wrt P (granted (zip txs old)) \<Longrightarrow> sorted_wrt P (granted (zip txs new))"
    using assms(1-3)
  proof (induction new txs old rule: list_induct3)
    case (Cons r new t txs q old)
    then show ?case using sub [of new txs old] by (auto split: if_splits)
  qed simp
qed

definition compatible :: "bool \<times> TransactionBatch \<Rightarrow> bool \<times> TransactionBatch \<Rightarrow> bool" where
  "compatible b b' \<longleftrightarrow> (\<forall>xs \<in> set (holds (snd b)). \<forall>ys \<in> set (holds (snd b')). \<not> lock_conflict xs ys)"

definition internally_compatible :: "bool \<times> TransactionBatch \<Rightarrow> bool" where
  "internally_compatible b \<longleftrightarrow> \<not> fst b \<longrightarrow> sorted_wrt (\<lambda>xs ys. \<not> lock_conflict xs ys) (holds (snd b))"

definition live :: "TransactionBatch \<Rightarrow> bool" where
  "live b \<longleftrightarrow> needs_unlock b \<and> length (lock_results b) = length (sanitized_txs b)"

definition locks_inv :: "(bool \<times> TransactionBatch) list \<Rightarrow> AccountLocks \<Rightarrow> bool" where
  "locks_inv H l \<longleftrightarrow> account_locks.tracks l (mset (held_requests H)) \<and> sorted_wrt compatible H
     \<and> (\<forall>b \<in> set H. internally_compatible b \<and> live (snd b))"

lemma unlock_failures_inv:
  assumes "locks_inv (A @ (relax, batch) # B) l" and "unlock_failures l batch results = Some (batch', l')"
  shows "locks_inv (A @ (relax, batch') # B) l'"
proof -
  from assms(1) have live: "live batch"
    and tr: "account_locks.tracks l (mset (concat (holds batch)) + mset (held_requests (A @ B)))"
    by (auto simp: locks_inv_def held_requests_def ac_simps)
  with assms(2) have len: "length results = length (sanitized_txs batch)" "length (sanitized_txs batch) = length (lock_results batch)"
    and ok: "\<forall>(result, lock_result) \<in> set (zip results (lock_results batch)). \<not> isl result \<longrightarrow> \<not> isl lock_result"
    and batch': "batch' = batch\<lparr>lock_results := results\<rparr>"
    and l': "l' = unlock_each l (map snd (filter (\<lambda>(result, _, lock_result). isl result \<and> \<not> isl lock_result)
      (zip results (zip (sanitized_txs batch) (lock_results batch)))))"
    by (auto simp: unlock_failures_def live_def Accounts_unlock_accounts_eq Let_def split: if_splits)
  note split = fail_split [OF len ok]
  have sub: "set (holds batch') \<subseteq> set (holds batch)" using split(2) by (simp add: holds_def batch')
  have "account_locks.tracks l' (mset (concat (holds batch')) + mset (held_requests (A @ B)))"
    unfolding l' using tr split(1) by (intro tracks_unlock_each) (simp add: holds_def batch' ac_simps)
  moreover have "sorted_wrt compatible (A @ (relax, batch') # B)"
    using assms(1) sub by (auto simp: locks_inv_def sorted_wrt_append compatible_def)
  moreover have "internally_compatible (relax, batch')"
    using assms(1) split(3) by (auto simp: locks_inv_def internally_compatible_def holds_def batch')
  ultimately show ?thesis using assms(1) live len
    by (auto simp: locks_inv_def held_requests_def ac_simps live_def batch')
qed

lemma held_requests_conflict:
  "lock_conflict xs (held_requests H) \<longleftrightarrow> (\<exists>b \<in> set H. \<exists>ys \<in> set (holds (snd b)). lock_conflict xs ys)"
  by (auto simp: held_requests_def lock_conflict_concat)

lemma locks_run_inv: "locks_run H l \<Longrightarrow> locks_inv H l"
proof (induction rule: locks_run.induct)
  case init
  then show ?case by (simp add: locks_inv_def tracks_default held_requests_def)
next
  case (prepare H l txs results batched limit feature batch l')
  have tr: "account_locks.tracks l (mset (held_requests H))" using prepare.IH by (simp add: locks_inv_def)
  note step = prepare_step [OF tr prepare.hyps(2-4)]
  have "compatible (batched \<or> feature, batch) b" if "b \<in> set H" for b
    unfolding compatible_def snd_conv step(4) step(1)
    using grant_compatible held_requests_conflict that by blast
  moreover have "internally_compatible (batched \<or> feature, batch)"
    by (simp add: internally_compatible_def step(4) step(1) grant_strict_compatible)
  ultimately show ?case using step prepare.IH by (simp add: locks_inv_def live_def)
next
  case (fail A relax batch B l results batch' l')
  show ?case by (rule unlock_failures_inv [OF fail.IH fail.hyps(2)])
next
  case (drop A relax batch B l)
  from drop.IH have "account_locks.tracks l (mset (concat (holds batch)) + mset (held_requests (A @ B)))"
    and "needs_unlock batch"
    by (auto simp: locks_inv_def held_requests_def ac_simps live_def)
  with tracks_unlock_each [of l "zip (sanitized_txs batch) (lock_results batch)"] drop.IH show ?case
    by (auto simp: locks_inv_def TransactionBatch_drop_def Accounts_unlock_accounts_eq sorted_wrt_append holds_def)
qed

section \<open>The properties\<close>

text \<open>
  For the witnesses: the strict batch of a transaction that writes address 10 and reads 11 with one
  that reads 10, then the batch of a transaction that reads 11.
\<close>

definition lock_tx :: "Hash \<Rightarrow> Pubkey list \<Rightarrow> nat \<Rightarrow> RuntimeTransaction" where
  "lock_tx hash keys writable = \<lparr>message_hash = hash, account_keys = keys, is_writable = (\<lambda>i. i < writable)\<rparr>"

definition demo_batch1 :: TransactionBatch where
  "demo_batch1 = \<lparr>lock_results = [Inr (), Inl AccountInUse],
     sanitized_txs = [lock_tx 1 [10, 11] 1, lock_tx 2 [10] 0], needs_unlock = True\<rparr>"

definition demo_batch2 :: TransactionBatch where
  "demo_batch2 = \<lparr>lock_results = [Inr ()], sanitized_txs = [lock_tx 3 [11] 0], needs_unlock = True\<rparr>"

definition demo_locks1 :: AccountLocks where
  "demo_locks1 = lock_accounts AccountLocks_default [(10, True), (11, False)]"

definition demo_locks2 :: AccountLocks where
  "demo_locks2 = lock_accounts demo_locks1 [(11, False)]"

lemmas batch_defs = demo_locks1_def demo_locks2_def demo_batch1_def demo_batch2_def lock_tx_def
  prepare_sanitized_batch_with_results_def try_lock_accounts_with_results_def TransactionBatch_new_def
  Accounts_lock_accounts_def validated_keys_def validate_account_locks_def has_duplicates_def
  accounts_with_is_writable_def try_lock_accounts_def can_write_lock_def can_read_lock_def is_locked_write_def
  is_locked_readonly_def lock_write_def lock_readonly_def AccountLocks_default_def

lemma demo_prepare1:
  "prepare_sanitized_batch_with_results AccountLocks_default [lock_tx 1 [10, 11] 1, lock_tx 2 [10] 0]
     [Inr (), Inr ()] False 64 False = Some (demo_batch1, demo_locks1)"
  by (simp add: batch_defs)

lemma demo_prepare2:
  "prepare_sanitized_batch_with_results demo_locks1 [lock_tx 3 [11] 0] [Inr ()] False 64 False
     = Some (demo_batch2, demo_locks2)"
  by (simp add: batch_defs)

lemma demo_holds: "holds demo_batch1 = [[(10, True), (11, False)]]" "holds demo_batch2 = [[(11, False)]]"
  by (simp_all add: holds_def demo_batch1_def demo_batch2_def lock_tx_def accounts_with_is_writable_def)

lemma demo_run1: "locks_run [(False, demo_batch1)] demo_locks1"
  using locks_run.prepare [OF locks_run.init _ _ demo_prepare1]
  by (simp add: held_requests_def lock_tx_def)

lemma demo_run2: "locks_run [(False, demo_batch2), (False, demo_batch1)] demo_locks2"
  using locks_run.prepare [OF demo_run1 _ _ demo_prepare2]
  by (simp add: held_requests_def demo_holds lock_tx_def)

text \<open>C6: account locks exclude each other: two transactions held by different batches never
  conflict, and neither do two transactions held by a batch that was locked without relaxed
  intra-batch rules.\<close>

theorem account_locks_exclusive:
  assumes "locks_run H l"
  shows "(\<forall>i < length H. \<forall>j < length H. i \<noteq> j \<longrightarrow>
            (\<forall>xs \<in> set (holds (snd (H ! i))). \<forall>ys \<in> set (holds (snd (H ! j))). \<not> lock_conflict xs ys))
    \<and> (\<forall>batch. (False, batch) \<in> set H \<longrightarrow>
            (\<forall>i < length (holds batch). \<forall>j < length (holds batch). i \<noteq> j \<longrightarrow>
               \<not> lock_conflict (holds batch ! i) (holds batch ! j)))"
proof -
  note inv = locks_run_inv [OF assms, unfolded locks_inv_def]
  have "\<forall>xs \<in> set (holds (snd (H ! i))). \<forall>ys \<in> set (holds (snd (H ! j))). \<not> lock_conflict xs ys"
    if "i < length H" "j < length H" "i \<noteq> j" for i j
    using inv that unfolding sorted_wrt_iff_nth_less compatible_def by (metis lock_conflict_sym nat_neq_iff)
  moreover have "\<not> lock_conflict (holds batch ! i) (holds batch ! j)"
    if "(False, batch) \<in> set H" "i < length (holds batch)" "j < length (holds batch)" "i \<noteq> j" for batch i j
  proof -
    have "sorted_wrt (\<lambda>xs ys. \<not> lock_conflict xs ys) (holds batch)"
      using inv that(1) by (fastforce simp: internally_compatible_def)
    with that(2-4) show ?thesis
      unfolding sorted_wrt_iff_nth_less by (metis lock_conflict_sym nat_neq_iff)
  qed
  ultimately show ?thesis by blast
qed

theorem account_locks_exclusive_witness:
  "locks_run [(False, demo_batch2), (False, demo_batch1)] demo_locks2
    \<and> \<not> lock_conflict [(11, False)] [(10, True), (11, False)]"
  using demo_run2 conjunct1 [OF account_locks_exclusive [OF demo_run2], rule_format, of 0 1]
  by (simp add: demo_holds)

section \<open>What locking a batch decides\<close>

text \<open>The requests of a transaction, one per account.\<close>

definition tx_requests :: "RuntimeTransaction \<Rightarrow> lock_request list" where
  "tx_requests tx = map (\<lambda>n. (account_keys tx ! n, is_writable tx n)) [0..<length (account_keys tx)]"

lemma tx_requests_eq: "accounts_with_is_writable tx = tx_requests tx"
  by (rule nth_equalityI) (simp_all add: tx_requests_def accounts_with_is_writable_def nth_enumerate_eq)

lemma mark_duplicates_nth:
  assumes "i < length batch"
  shows "mark_duplicates seen relax batch ! i =
    (case snd (batch ! i) of
       Inl e \<Rightarrow> Inl e
     | Inr _ \<Rightarrow>
         if relax \<and> (message_hash (fst (batch ! i)) \<in> seen
              \<or> (\<exists>j < i. snd (batch ! j) = Inr () \<and> message_hash (fst (batch ! j)) = message_hash (fst (batch ! i))))
         then Inl AlreadyProcessed else Inr ())"
  using assms
proof (induction seen relax batch arbitrary: i rule: mark_duplicates.induct)
  case (2 seen relax tx u batch)
  then show ?case
    by (cases i) (auto simp: Ex_less_Suc2 split: sum.splits)
next
  case (3 seen relax tx e batch)
  then show ?case by (cases i) (auto simp: Ex_less_Suc2 split: sum.splits)
qed simp

lemma grant_nth:
  assumes "i < length batch"
  shows "grant relax held batch ! i =
    (case batch ! i of
       Inl e \<Rightarrow> Inl e
     | Inr keys \<Rightarrow>
         if lock_conflict keys held
            \<or> \<not> relax \<and> (\<exists>j < i. \<exists>ks. batch ! j = Inr ks \<and> grant relax held batch ! j = Inr () \<and> lock_conflict keys ks)
         then Inl AccountInUse else Inr ())"
  using assms
proof (induction relax held batch arbitrary: i rule: grant.induct)
  case (2 relax held e batch)
  then show ?case by (cases i) (auto simp: Ex_less_Suc2 split: sum.splits)
next
  case (3 relax held keys batch)
  then show ?case
    by (cases i) (auto simp: Ex_less_Suc2 lock_conflict_append split: sum.splits)
qed simp

lemma prepare_batch_grants:
  assumes "locks_run H l" and "length txs = length results"
    and "length (held_requests H) + sum_list (map (length \<circ> account_keys) txs) < 2 ^ 64"
  shows "\<exists>batch l'. prepare_sanitized_batch_with_results l txs results batched limit feature = Some (batch, l')
    \<and> lock_results batch = grant (batched \<or> feature) (held_requests H)
        (map (validated_keys limit) (zip txs (mark_duplicates {} (batched \<or> feature) (zip txs results))))"
proof -
  have tr: "account_locks.tracks l (mset (held_requests H))"
    using locks_run_inv [OF assms(1)] by (simp add: locks_inv_def)
  have len: "length txs = length (mark_duplicates {} (batched \<or> feature) (zip txs results))" using assms(2) by simp
  have glen: "length (grant r held keys) = length keys" for r held keys
    by (induction r held keys rule: grant.induct) auto
  define marked where "marked = mark_duplicates {} (batched \<or> feature) (zip txs results)"
  obtain rs l' where lock: "Accounts_lock_accounts l txs marked limit (batched \<or> feature) = (rs, l')" by fastforce
  have "length (held_requests H) + requested (map (validated_keys limit) (zip txs marked)) < 2 ^ 64"
    using requested_validated [OF len, of limit] assms(3) unfolding marked_def by linarith
  from Accounts_lock_accounts_grants [OF tr this lock] have "length rs = length txs"
    using len by (simp add: glen marked_def)
  with lock have "prepare_sanitized_batch_with_results l txs results batched limit feature
      = Some (\<lparr>lock_results = rs, sanitized_txs = txs, needs_unlock = True\<rparr>, l')"
    by (simp add: prepare_sanitized_batch_with_results_def try_lock_accounts_with_results_def
        TransactionBatch_new_def marked_def)
  with prepare_step(1) [OF tr assms(2,3) this] show ?thesis by blast
qed

lemma validated_batch_nth:
  assumes "length txs = length results" and "i < length txs"
  shows "map (validated_keys limit) (zip txs (mark_duplicates {} relax (zip txs results))) ! i =
    (case results ! i of
       Inl e \<Rightarrow> Inl e
     | Inr _ \<Rightarrow>
         if relax \<and> (\<exists>j < i. results ! j = Inr () \<and> message_hash (txs ! j) = message_hash (txs ! i)) then Inl AlreadyProcessed
         else if limit < length (account_keys (txs ! i)) then Inl TooManyAccountLocks
         else if \<not> distinct (account_keys (txs ! i)) then Inl AccountLoadedTwice
         else Inr (tx_requests (txs ! i)))"
proof -
  have "(\<exists>j < i. snd (zip txs results ! j) = Inr () \<and> message_hash (fst (zip txs results ! j)) = message_hash (txs ! i))
      \<longleftrightarrow> (\<exists>j < i. results ! j = Inr () \<and> message_hash (txs ! j) = message_hash (txs ! i))"
    by (intro ex_cong1 conj_cong refl) (use assms in simp_all)
  with mark_duplicates_nth [of i "zip txs results" "{}" relax] assms show ?thesis
    by (auto simp: validated_keys_def validate_account_locks_spec tx_requests_eq split: sum.split)
qed

lemma granted_request:
  assumes "length txs = length results" and "i < length txs"
    and "map (validated_keys limit) (zip txs (mark_duplicates {} relax (zip txs results))) ! i = Inr ks"
  shows "ks = tx_requests (txs ! i)"
  using assms(3) unfolding validated_batch_nth [OF assms(1,2)] by (auto split: sum.splits if_splits)

text \<open>C7: locking a batch decides, for every transaction in its place: an earlier error is kept; in a
  relaxed batch a message that an earlier transaction without an error has is reported as already
  processed; then too many accounts, then an account listed twice are reported; every other transaction
  is granted when and only when none of its requests conflicts with a request held before the batch or,
  in a strict batch, with a request of a transaction granted earlier in the batch.\<close>

theorem prepare_batch_refines_grant:
  assumes "locks_run H l" and "length txs = length results"
    and "length (held_requests H) + sum_list (map (length \<circ> account_keys) txs) < 2 ^ 64"
  shows "\<exists>batch l'. prepare_sanitized_batch_with_results l txs results batched limit feature = Some (batch, l')
    \<and> length (lock_results batch) = length txs
    \<and> (\<forall>i < length txs. lock_results batch ! i =
        (case results ! i of
           Inl e \<Rightarrow> Inl e
         | Inr _ \<Rightarrow>
             if (batched \<or> feature) \<and> (\<exists>j < i. results ! j = Inr () \<and> message_hash (txs ! j) = message_hash (txs ! i))
             then Inl AlreadyProcessed
             else if limit < length (account_keys (txs ! i)) then Inl TooManyAccountLocks
             else if \<not> distinct (account_keys (txs ! i)) then Inl AccountLoadedTwice
             else if lock_conflict (tx_requests (txs ! i)) (held_requests H)
                     \<or> \<not> (batched \<or> feature) \<and> (\<exists>j < i. lock_results batch ! j = Inr ()
                          \<and> lock_conflict (tx_requests (txs ! i)) (tx_requests (txs ! j)))
             then Inl AccountInUse
             else Inr ()))"
proof -
  define relax where "relax = (batched \<or> feature)"
  define keys where "keys = map (validated_keys limit) (zip txs (mark_duplicates {} relax (zip txs results)))"
  obtain batch l' where b: "prepare_sanitized_batch_with_results l txs results batched limit feature = Some (batch, l')"
    "lock_results batch = grant relax (held_requests H) keys"
    using prepare_batch_grants [OF assms] unfolding keys_def relax_def by blast
  have len: "length keys = length txs" using assms(2) by (simp add: keys_def)
  have request: "ks = tx_requests (txs ! j)" if "keys ! j = Inr ks" "j < length txs" for j ks
    using granted_request [OF assms(2) that(2)] that(1) by (simp add: keys_def)
  have granted: "\<exists>ks. keys ! j = Inr ks" if "lock_results batch ! j = Inr ()" "j < length txs" for j
    using that grant_nth [of j keys relax "held_requests H"] len by (auto simp: b(2) split: sum.splits)
  have earlier: "(\<exists>j < i. \<exists>ks. keys ! j = Inr ks \<and> lock_results batch ! j = Inr () \<and> lock_conflict xs ks)
      \<longleftrightarrow> (\<exists>j < i. lock_results batch ! j = Inr () \<and> lock_conflict xs (tx_requests (txs ! j)))" if "i < length txs" for i xs
    by (intro ex_cong1 conj_cong refl) (use that request granted in fastforce)
  define dup where "dup i \<longleftrightarrow> relax \<and> (\<exists>j < i. results ! j = Inr () \<and> message_hash (txs ! j) = message_hash (txs ! i))" for i
  define conflict where "conflict i \<longleftrightarrow> lock_conflict (tx_requests (txs ! i)) (held_requests H)
    \<or> \<not> relax \<and> (\<exists>j < i. lock_results batch ! j = Inr () \<and> lock_conflict (tx_requests (txs ! i)) (tx_requests (txs ! j)))" for i
  note validated = validated_batch_nth [OF assms(2), of _ limit relax, folded keys_def dup_def]
  have decided: "lock_results batch ! i =
      (case keys ! i of
         Inl e \<Rightarrow> Inl e
       | Inr xs \<Rightarrow>
           if lock_conflict xs (held_requests H)
              \<or> \<not> relax \<and> (\<exists>j < i. lock_results batch ! j = Inr () \<and> lock_conflict xs (tx_requests (txs ! j)))
           then Inl AccountInUse else Inr ())" if "i < length txs" for i
    using grant_nth [of i keys relax "held_requests H", folded b(2)] that len by (simp only: earlier [OF that])
  have "lock_results batch ! i =
      (case results ! i of
         Inl e \<Rightarrow> Inl e
       | Inr _ \<Rightarrow>
           if dup i then Inl AlreadyProcessed
           else if limit < length (account_keys (txs ! i)) then Inl TooManyAccountLocks
           else if \<not> distinct (account_keys (txs ! i)) then Inl AccountLoadedTwice
           else if conflict i then Inl AccountInUse else Inr ())" if "i < length txs" for i
    using decided [OF that] unfolding validated [OF that]
    by (cases "results ! i") (simp_all flip: conflict_def)
  moreover have "length (lock_results batch) = length txs"
    using b(1) by (auto simp: prepare_sanitized_batch_with_results_def TransactionBatch_new_def split: prod.splits if_splits)
  ultimately show ?thesis unfolding dup_def conflict_def relax_def using b(1) by blast
qed

theorem prepare_batch_refines_grant_witness:
  "(\<exists>batch l'. prepare_sanitized_batch_with_results demo_locks1 [lock_tx 4 [11] 1, lock_tx 5 [11] 0] [Inr (), Inr ()] False 64 False
     = Some (batch, l') \<and> lock_results batch = [Inl AccountInUse, Inr ()])
   \<and> (\<exists>batch l'. prepare_sanitized_batch_with_results demo_locks1 [lock_tx 5 [12] 1, lock_tx 5 [12] 1] [Inr (), Inr ()] True 64 False
     = Some (batch, l') \<and> lock_results batch = [Inr (), Inl AlreadyProcessed])"
proof
  have held: "held_requests [(False, demo_batch1)] = [(10, True), (11, False)]"
    by (simp add: held_requests_def demo_holds)
  have tx: "account_keys (lock_tx h keys n) = keys" "message_hash (lock_tx h keys n) = h"
    "tx_requests (lock_tx h [k] n) = [(k, 0 < n)]" for h keys n k
    by (simp_all add: lock_tx_def tx_requests_def)
  note eval = held tx lock_conflict_def All_less_Suc Ex_less_Suc length_Suc_conv
  show "\<exists>batch l'. prepare_sanitized_batch_with_results demo_locks1 [lock_tx 4 [11] 1, lock_tx 5 [11] 0] [Inr (), Inr ()] False 64 False
     = Some (batch, l') \<and> lock_results batch = [Inl AccountInUse, Inr ()]"
    using prepare_batch_refines_grant [OF demo_run1, of "[lock_tx 4 [11] 1, lock_tx 5 [11] 0]" "[Inr (), Inr ()]" False 64 False]
    by (auto simp: eval)
  show "\<exists>batch l'. prepare_sanitized_batch_with_results demo_locks1 [lock_tx 5 [12] 1, lock_tx 5 [12] 1] [Inr (), Inr ()] True 64 False
     = Some (batch, l') \<and> lock_results batch = [Inr (), Inl AlreadyProcessed]"
    using prepare_batch_refines_grant [OF demo_run1, of "[lock_tx 5 [12] 1, lock_tx 5 [12] 1]" "[Inr (), Inr ()]" True 64 False]
    by (auto simp: eval)
qed

text \<open>C8: no lock leaks: once every batch has been dropped, whatever failed before and in whatever
  order they are dropped, the table is the empty table again.\<close>

theorem account_locks_released:
  assumes "locks_run [] l"
  shows "l = AccountLocks_default"
  using locks_run_inv [OF assms] tracks_default account_locks.tracks_inject
  by (auto simp: held_requests_def locks_inv_def)

theorem account_locks_released_witness:
  "TransactionBatch_drop (TransactionBatch_drop demo_locks2 demo_batch1) demo_batch2 = AccountLocks_default"
proof -
  have "locks_run ([(False, demo_batch2)] @ (False, demo_batch1) # []) demo_locks2" using demo_run2 by simp
  from locks_run.drop [OF this] have "locks_run ([] @ (False, demo_batch2) # []) (TransactionBatch_drop demo_locks2 demo_batch1)"
    by simp
  from locks_run.drop [OF this] show ?thesis using account_locks_released by simp
qed

end
