(* ===== verification/BundleAccountLocker.thy ===== *)
theory BundleAccountLocker
  imports TransactionBatch
begin

text \<open>
  Locks that the bundle stage takes ahead of execution
  (\<^verbatim>\<open>core/src/bundle_stage/bundle_account_locker.rs\<close>) and the check of the banking stage
  against them (\<^verbatim>\<open>core/src/banking_stage/consumer.rs\<close>). The locker is a table behind a mutex;
  each of its operations is one step on the table. The limit on the number of account locks is what
  the bank returns.
\<close>

datatype BundleAccountLockerError = LockingError

record BundleAccountLocks =
  bundle_read_locks :: "Pubkey \<rightharpoonup> u64"
  bundle_write_locks :: "Pubkey \<rightharpoonup> u64"

definition BundleAccountLocks_default :: BundleAccountLocks where
  "BundleAccountLocks_default = \<lparr>bundle_read_locks = Map.empty, bundle_write_locks = Map.empty\<rparr>"

text \<open>\<open>*entry.or_insert(0) += 1\<close>, and the decrement of an occupied entry, removed at zero.\<close>

definition lock_entry :: "(Pubkey \<rightharpoonup> u64) \<Rightarrow> Pubkey \<Rightarrow> Pubkey \<rightharpoonup> u64" where
  "lock_entry m acc = m(acc \<mapsto> (case m acc of None \<Rightarrow> 0 | Some n \<Rightarrow> n) + 1)"

definition unlock_entry :: "(Pubkey \<rightharpoonup> u64) \<Rightarrow> Pubkey \<Rightarrow> Pubkey \<rightharpoonup> u64" where
  "unlock_entry m acc =
     (case m acc of
        Some n \<Rightarrow> (let n = saturating_sub n 1 in if n = 0 then m(acc := None) else m(acc \<mapsto> n))
      | None \<Rightarrow> m)"

definition bundle_lock_account :: "BundleAccountLocks \<Rightarrow> lock_request \<Rightarrow> BundleAccountLocks" where
  "bundle_lock_account l = (\<lambda>(acc, writable).
     if writable then l\<lparr>bundle_write_locks := lock_entry (bundle_write_locks l) acc\<rparr>
     else l\<lparr>bundle_read_locks := lock_entry (bundle_read_locks l) acc\<rparr>)"

definition bundle_unlock_account :: "BundleAccountLocks \<Rightarrow> lock_request \<Rightarrow> BundleAccountLocks" where
  "bundle_unlock_account l = (\<lambda>(acc, writable).
     if writable then l\<lparr>bundle_write_locks := unlock_entry (bundle_write_locks l) acc\<rparr>
     else l\<lparr>bundle_read_locks := unlock_entry (bundle_read_locks l) acc\<rparr>)"

definition bundle_lock_accounts :: "BundleAccountLocks \<Rightarrow> lock_request list list \<Rightarrow> BundleAccountLocks" where
  "bundle_lock_accounts l transaction_locks = foldl (foldl bundle_lock_account) l transaction_locks"

definition bundle_unlock_accounts :: "BundleAccountLocks \<Rightarrow> lock_request list list \<Rightarrow> BundleAccountLocks" where
  "bundle_unlock_accounts l transaction_locks = foldl (foldl bundle_unlock_account) l transaction_locks"

definition get_transaction_locks ::
    "'z RuntimeTransaction_scheme list \<Rightarrow> nat \<Rightarrow> BundleAccountLockerError + lock_request list list" where
  "get_transaction_locks transactions transaction_account_lock_limit =
     (if \<exists>tx \<in> set transactions. isl (validate_account_locks (account_keys tx) transaction_account_lock_limit)
      then Inl LockingError
      else Inr (map accounts_with_is_writable transactions))"

definition lock_bundle ::
    "BundleAccountLocks \<Rightarrow> 'z RuntimeTransaction_scheme list \<Rightarrow> nat \<Rightarrow>
     (BundleAccountLockerError + unit) \<times> BundleAccountLocks" where
  "lock_bundle l transactions limit =
     (case get_transaction_locks transactions limit of
        Inl e \<Rightarrow> (Inl e, l)
      | Inr transaction_locks \<Rightarrow> (Inr (), bundle_lock_accounts l transaction_locks))"

definition unlock_bundle ::
    "BundleAccountLocks \<Rightarrow> 'z RuntimeTransaction_scheme list \<Rightarrow> nat \<Rightarrow>
     (BundleAccountLockerError + unit) \<times> BundleAccountLocks" where
  "unlock_bundle l transactions limit =
     (case get_transaction_locks transactions limit of
        Inl e \<Rightarrow> (Inl e, l)
      | Inr transaction_locks \<Rightarrow> (Inr (), bundle_unlock_accounts l transaction_locks))"

text \<open>
  Before the bank locks a batch for the banking stage, each transaction the cost model selected is
  checked against the locks of the bundle stage.
\<close>

fun check_bundle_locks :: "BundleAccountLocks \<Rightarrow> lock_request list \<Rightarrow> TransactionError + unit" where
  "check_bundle_locks l [] = Inr ()"
| "check_bundle_locks l ((acc, writable) # locks) =
     (let is_writable_conflict = writable \<and> (bundle_write_locks l acc \<noteq> None \<or> bundle_read_locks l acc \<noteq> None);
          is_read_conflict = \<not> writable \<and> bundle_write_locks l acc \<noteq> None
      in if is_writable_conflict \<or> is_read_conflict then Inl AccountInUse else check_bundle_locks l locks)"

definition bundle_lock_result ::
    "BundleAccountLocks option \<Rightarrow> 'z RuntimeTransaction_scheme \<Rightarrow> TransactionError + unit \<Rightarrow> TransactionError + unit" where
  "bundle_lock_result bundle_account_locker tx r =
     (case r of
        Inl err \<Rightarrow> Inl err
      | Inr _ \<Rightarrow>
          (case bundle_account_locker of
             None \<Rightarrow> Inr ()
           | Some l \<Rightarrow> check_bundle_locks l (accounts_with_is_writable tx)))"

definition prepare_consumer_batch ::
    "BundleAccountLocks option \<Rightarrow> AccountLocks \<Rightarrow> RuntimeTransaction list \<Rightarrow> (TransactionError + unit) list \<Rightarrow>
     bool \<Rightarrow> nat \<Rightarrow> bool \<Rightarrow> (TransactionBatch \<times> AccountLocks) option" where
  "prepare_consumer_batch bundle_account_locker l txs transaction_qos_cost_results revert_on_error limit relax_feature =
     prepare_sanitized_batch_with_results l txs
       (map (\<lambda>(r, tx). bundle_lock_result bundle_account_locker tx r) (zip transaction_qos_cost_results txs))
       revert_on_error limit relax_feature"

section \<open>The lock table contract\<close>

definition bundle_held :: "BundleAccountLocks \<Rightarrow> lock_request \<Rightarrow> nat" where
  "bundle_held l r = (if snd r then count_at (bundle_write_locks l) (fst r) else count_at (bundle_read_locks l) (fst r))"

definition bundle_wf :: "BundleAccountLocks \<Rightarrow> bool" where
  "bundle_wf l \<longleftrightarrow> no_zero (bundle_write_locks l) \<and> no_zero (bundle_read_locks l)"

lemma bundle_lock_one:
  assumes "bundle_wf l" and "Suc (bundle_held l (acc, writable)) < 2 ^ 64"
  shows "bundle_wf (bundle_lock_account l (acc, writable))
    \<and> bundle_held (bundle_lock_account l (acc, writable)) r = bundle_held l r + (if r = (acc, writable) then 1 else 0)"
  using assms count_at_bump [of "bundle_write_locks l" acc "fst r"] count_at_bump [of "bundle_read_locks l" acc "fst r"]
  by (cases writable; cases r) (auto simp: bundle_wf_def bundle_held_def lock_entry_def bundle_lock_account_def)

lemma bundle_unlock_one:
  assumes "bundle_wf l" and "0 < bundle_held l (acc, writable)"
  shows "bundle_wf (bundle_unlock_account l (acc, writable))
    \<and> bundle_held (bundle_unlock_account l (acc, writable)) r = bundle_held l r - (if r = (acc, writable) then 1 else 0)"
proof (cases writable)
  case True
  with assms(2) obtain c where c: "bundle_write_locks l acc = Some c"
    by (auto simp: bundle_held_def count_at_def split: option.splits)
  with True assms(1) count_at_drop [of "bundle_write_locks l" acc c "saturating_sub c 1" "fst r"] show ?thesis
    by (cases r) (auto simp: bundle_wf_def bundle_held_def unlock_entry_def bundle_unlock_account_def Let_def)
next
  case False
  with assms(2) obtain c where c: "bundle_read_locks l acc = Some c"
    by (auto simp: bundle_held_def count_at_def split: option.splits)
  with False assms(1) count_at_drop [of "bundle_read_locks l" acc c "saturating_sub c 1" "fst r"] show ?thesis
    by (cases r) (auto simp: bundle_wf_def bundle_held_def unlock_entry_def bundle_unlock_account_def Let_def)
qed

interpretation bundle_locks: lock_step bundle_lock_account bundle_unlock_account bundle_held bundle_wf
proof (unfold_locales, goal_cases)
  case (1 l q r) then show ?case by (cases q) (simp only: bundle_lock_one)
next
  case (2 l q r) then show ?case by (cases q) (simp only: bundle_unlock_one)
next
  case (3 l l')
  have "bundle_held l (k, w) = bundle_held l' (k, w)" for k w using 3(3) by simp
  from this [of _ True] this [of _ False]
  have "count_at (bundle_write_locks l) = count_at (bundle_write_locks l')"
    "count_at (bundle_read_locks l) = count_at (bundle_read_locks l')"
    by (auto simp: fun_eq_iff bundle_held_def)
  with 3(1,2) have "bundle_write_locks l = bundle_write_locks l'" "bundle_read_locks l = bundle_read_locks l'"
    by (simp_all add: bundle_wf_def count_at_inject)
  then show ?case by (intro BundleAccountLocks.equality) simp_all
qed

lemma bundle_tracks_default: "bundle_locks.tracks BundleAccountLocks_default {#}"
  by (simp add: bundle_locks.tracks_def BundleAccountLocks_default_def bundle_wf_def no_zero_def bundle_held_def count_at_def)

text \<open>The requests of a bundle: those of all its transactions.\<close>

definition bundle_requests :: "'z RuntimeTransaction_scheme list \<Rightarrow> lock_request list" where
  "bundle_requests transactions = concat (map accounts_with_is_writable transactions)"

lemma foldl_concat: "foldl (foldl f) a xss = foldl f a (concat xss)"
  by (induction xss arbitrary: a) auto

lemma bundle_lock_accounts_tracks:
  assumes "bundle_locks.tracks l M" and "size M + length (concat tls) < 2 ^ 64"
  shows "bundle_locks.tracks (bundle_lock_accounts l tls) (mset (concat tls) + M)"
  using bundle_locks.tracks_lock [OF assms]
  by (simp add: bundle_lock_accounts_def foldl_concat)

lemma bundle_unlock_accounts_tracks:
  assumes "bundle_locks.tracks l (mset (concat tls) + M)"
  shows "bundle_locks.tracks (bundle_unlock_accounts l tls) M"
  using bundle_locks.tracks_unlock [OF assms]
  by (simp add: bundle_unlock_accounts_def foldl_concat)

lemma get_transaction_locks_eq:
  "get_transaction_locks txs limit =
     (if \<forall>tx \<in> set txs. length (account_keys tx) \<le> limit \<and> distinct (account_keys tx)
      then Inr (map accounts_with_is_writable txs) else Inl LockingError)"
proof -
  have "isl (validate_account_locks keys limit) \<longleftrightarrow> \<not> (length keys \<le> limit \<and> distinct keys)" for keys
    by (auto simp: validate_account_locks_def has_duplicates_iff)
  then show ?thesis by (simp add: get_transaction_locks_def)
qed

lemma bundle_locked_iff:
  assumes "bundle_locks.tracks l M"
  shows "bundle_write_locks l k \<noteq> None \<longleftrightarrow> (k, True) \<in># M" and "bundle_read_locks l k \<noteq> None \<longleftrightarrow> (k, False) \<in># M"
proof -
  have h: "bundle_held l r = count M r" and wf: "bundle_wf l" for r
    using assms unfolding bundle_locks.tracks_def by blast+
  have "count M (k, True) = count_at (bundle_write_locks l) k" "count M (k, False) = count_at (bundle_read_locks l) k"
    using h [of "(k, True)"] h [of "(k, False)"] by (simp_all add: bundle_held_def)
  then show "bundle_write_locks l k \<noteq> None \<longleftrightarrow> (k, True) \<in># M" "bundle_read_locks l k \<noteq> None \<longleftrightarrow> (k, False) \<in># M"
    using wf by (simp_all add: bundle_wf_def count_at_pos flip: count_greater_zero_iff)
qed

lemma check_bundle_locks_iff:
  assumes "bundle_locks.tracks l (mset held)"
  shows "check_bundle_locks l locks = (if lock_conflict locks held then Inl AccountInUse else Inr ())"
  using assms
  by (induction l locks rule: check_bundle_locks.induct)
     (auto simp: lock_conflict_iff bundle_locked_iff Let_def simp del: not_None_eq)

lemma lock_bundle_tracks:
  assumes "bundle_locks.tracks l M" and "size M + length (bundle_requests txs) < 2 ^ 64"
    and "lock_bundle l txs limit = (Inr (), l')"
  shows "bundle_locks.tracks l' (mset (bundle_requests txs) + M)"
  using bundle_lock_accounts_tracks [OF assms(1), of "map accounts_with_is_writable txs"] assms(2,3)
  by (auto simp: lock_bundle_def get_transaction_locks_eq bundle_requests_def split: if_splits)

lemma unlock_bundle_tracks:
  assumes "bundle_locks.tracks l (mset (bundle_requests txs) + M)"
    and "fst (lock_bundle l0 txs limit) = Inr ()"
  shows "\<exists>l'. unlock_bundle l txs limit = (Inr (), l') \<and> bundle_locks.tracks l' M"
proof -
  have "\<forall>tx \<in> set txs. length (account_keys tx) \<le> limit \<and> distinct (account_keys tx)"
    using assms(2) by (auto simp: lock_bundle_def get_transaction_locks_eq split: if_splits)
  then show ?thesis
    using bundle_unlock_accounts_tracks [of l "map accounts_with_is_writable txs" M] assms(1)
    by (simp add: unlock_bundle_def get_transaction_locks_eq bundle_requests_def)
qed

section \<open>Exclusion of the banking stage\<close>

text \<open>The bundles locked and not yet unlocked, with the table that holds their locks.\<close>

inductive bundle_run :: "nat \<Rightarrow> RuntimeTransaction list list \<Rightarrow> BundleAccountLocks \<Rightarrow> bool" for limit :: nat where
  init: "bundle_run limit [] BundleAccountLocks_default"
| lock: "bundle_run limit B l \<Longrightarrow> lock_bundle l txs limit = (Inr (), l') \<Longrightarrow>
    length (concat (map bundle_requests (txs # B))) < 2 ^ 64 \<Longrightarrow> bundle_run limit (txs # B) l'"
| rejected: "bundle_run limit B l \<Longrightarrow> lock_bundle l (txs :: RuntimeTransaction list) limit = (Inl e, l') \<Longrightarrow> bundle_run limit B l'"
| unlock: "bundle_run limit (A @ txs # B) l \<Longrightarrow> bundle_run limit (A @ B) (snd (unlock_bundle l txs limit))"

lemma bundle_run_tracks:
  assumes "bundle_run limit B l"
  shows "bundle_locks.tracks l (mset (concat (map bundle_requests B)))
    \<and> (\<forall>txs \<in> set B. fst (lock_bundle BundleAccountLocks_default txs limit) = Inr ())"
  using assms
proof induction
  case init
  then show ?case by (simp add: bundle_tracks_default)
next
  case (lock B l txs l')
  then show ?case using lock_bundle_tracks [of l _ txs limit l']
    by (auto simp: lock_bundle_def split: sum.splits)
next
  case (rejected B l txs e l')
  then show ?case by (auto simp: lock_bundle_def split: sum.splits)
next
  case (unlock A txs B l)
  then have "bundle_locks.tracks l (mset (bundle_requests txs) + mset (concat (map bundle_requests (A @ B))))"
    by (simp add: ac_simps)
  with unlock_bundle_tracks [OF this, of BundleAccountLocks_default limit] unlock.IH show ?case by auto
qed

lemma bundle_lock_result_iff:
  assumes "bundle_run limit B l"
  shows "bundle_lock_result (Some l) tx (Inr ()) =
    (if \<exists>txs \<in> set B. \<exists>btx \<in> set txs. lock_conflict (accounts_with_is_writable tx) (accounts_with_is_writable btx)
     then Inl AccountInUse else Inr ())"
  using check_bundle_locks_iff [OF conjunct1 [OF bundle_run_tracks [OF assms]]]
  by (simp add: bundle_lock_result_def bundle_requests_def lock_conflict_concat)

lemma grant_keeps_errors:
  "i < length keys \<Longrightarrow> grant relax held keys ! i = Inr () \<Longrightarrow> \<not> isl (keys ! i)"
  by (induction relax held keys arbitrary: i rule: grant.induct) (auto simp: nth_Cons split: nat.splits if_splits)

lemma mark_duplicates_keeps_errors:
  "i < length batch \<Longrightarrow> \<not> isl (mark_duplicates seen relax batch ! i) \<Longrightarrow> \<not> isl (snd (batch ! i))"
  by (induction seen relax batch arbitrary: i rule: mark_duplicates.induct) (auto simp: nth_Cons split: nat.splits if_splits)

text \<open>C9: while bundles are locked ahead of execution, the banking stage gets no conflicting
  transaction: every transaction of a batch it prepares that is granted its locks conflicts with no
  transaction of a locked bundle and with no transaction held by another batch.\<close>

theorem bundles_exclude_banking_stage:
  assumes "bundle_run limit B bl" and "locks_run H l" and "length txs = length results"
    and "length (held_requests H) + sum_list (map (length \<circ> account_keys) txs) < 2 ^ 64"
    and "prepare_consumer_batch (Some bl) l txs results revert limit feature = Some (batch, l')"
    and "i < length txs" and "lock_results batch ! i = Inr ()"
  shows "(\<forall>bundle \<in> set B. \<forall>btx \<in> set bundle.
            \<not> lock_conflict (accounts_with_is_writable (txs ! i)) (accounts_with_is_writable btx))
    \<and> (\<forall>b \<in> set H. \<forall>ys \<in> set (holds (snd b)). \<not> lock_conflict (accounts_with_is_writable (txs ! i)) ys)"
proof -
  define checked where "checked = map (\<lambda>(r, tx). bundle_lock_result (Some bl) tx r) (zip results txs)"
  define marked where "marked = mark_duplicates {} (revert \<or> feature) (zip txs checked)"
  have len: "length txs = length checked" "length txs = length marked"
    using assms(3) by (simp_all add: checked_def marked_def)
  have tr: "account_locks.tracks l (mset (held_requests H))"
    using locks_run_inv [OF assms(2)] by (simp add: locks_inv_def)
  note step = prepare_step [OF tr len(1) assms(4) assms(5) [unfolded prepare_consumer_batch_def, folded checked_def], folded marked_def]
  have "\<not> isl (validated_keys limit (txs ! i, marked ! i))"
    using grant_keeps_errors [of i "map (validated_keys limit) (zip txs marked)"] step(1) assms(6,7) len by simp
  then have m: "\<not> isl (marked ! i)" by (auto simp: validated_keys_def split: sum.splits)
  have i: "i < length (zip txs checked)" using assms(6) len(1) by simp
  from mark_duplicates_keeps_errors [OF i m [unfolded marked_def]] have "\<not> isl (checked ! i)"
    using i by simp
  then have "\<not> isl (bundle_lock_result (Some bl) (txs ! i) (Inr ()))"
    using assms(3,6) by (auto simp: checked_def bundle_lock_result_def split: sum.splits if_splits)
  then have "\<forall>bundle \<in> set B. \<forall>btx \<in> set bundle.
      \<not> lock_conflict (accounts_with_is_writable (txs ! i)) (accounts_with_is_writable btx)"
    unfolding bundle_lock_result_iff [OF assms(1)] by (auto split: if_splits)
  moreover have "accounts_with_is_writable (txs ! i) \<in> set (holds batch)"
  proof -
    have "sanitized_txs batch = txs" "length (lock_results batch) = length txs"
      using assms(5) step(2)
      by (auto simp: prepare_consumer_batch_def prepare_sanitized_batch_with_results_def TransactionBatch_new_def
          split: prod.splits if_splits)
    then have "(txs ! i, lock_results batch ! i) \<in> set (zip (sanitized_txs batch) (lock_results batch))"
      using assms(6) by (auto simp: set_zip)
    with assms(7) show ?thesis by (force simp: holds_def granted_def)
  qed
  ultimately show ?thesis
    unfolding step(4) step(1) using grant_compatible held_requests_conflict by blast
qed

definition demo_bundle_locks :: BundleAccountLocks where
  "demo_bundle_locks = snd (lock_bundle BundleAccountLocks_default [lock_tx 7 [20] 1] 64)"

lemma demo_bundle_run: "bundle_run 64 [[lock_tx 7 [20] 1]] demo_bundle_locks"
proof -
  have "lock_bundle BundleAccountLocks_default [lock_tx 7 [20] 1] 64 = (Inr (), demo_bundle_locks)"
    by (simp add: demo_bundle_locks_def lock_bundle_def get_transaction_locks_eq lock_tx_def)
  from bundle_run.lock [OF bundle_run.init this] show ?thesis
    by (simp add: bundle_requests_def lock_tx_def)
qed

lemma demo_bundle_prepare:
  "prepare_consumer_batch (Some demo_bundle_locks) demo_locks1 [lock_tx 8 [20] 0, lock_tx 3 [11] 0] [Inr (), Inr ()] False 64 False
    = Some (\<lparr>lock_results = [Inl AccountInUse, Inr ()], sanitized_txs = [lock_tx 8 [20] 0, lock_tx 3 [11] 0], needs_unlock = True\<rparr>,
        demo_locks2)"
  by (simp add: prepare_consumer_batch_def batch_defs demo_bundle_locks_def lock_bundle_def get_transaction_locks_def
      bundle_lock_accounts_def bundle_lock_account_def lock_entry_def bundle_lock_result_def BundleAccountLocks_default_def)

theorem bundles_exclude_banking_stage_witness:
  "\<not> lock_conflict (accounts_with_is_writable (lock_tx 3 [11] 0)) (accounts_with_is_writable (lock_tx 7 [20] 1))"
  using bundles_exclude_banking_stage [OF demo_bundle_run demo_run1 _ _ demo_bundle_prepare, of 1]
  by (simp add: held_requests_def demo_holds lock_tx_def)

end
