(* ===== verification/BundleStage.thy ===== *)
theory BundleStage
  imports BundleStorageCorrect BundleAccountLocker
begin

text \<open>
  The loop of the bundle stage over the stored bundles (\<^verbatim>\<open>core/src/bundle_stage.rs\<close>): a window
  of bundles is locked ahead, executed in order and unlocked, and a bundle whose execution may be
  retried goes back to the storage.

  Execution is a parameter: \<open>StageEnv\<close> holds the consumer, which executes and records the
  transactions of a bundle and returns what was committed, the completion flag of the bank, the tip
  transactions of the tip manager, and what the bank answers; \<open>'c\<close> is the state they depend on and
  change. Metrics and logs are left out. A panic, and a loop that does not end, is \<^term>\<open>None\<close>.
\<close>

section \<open>Execution results\<close>

datatype BundleExecutionError = ErrorRetryable | ErrorNonRetryable | TipError

text \<open>\<open>Inl ()\<close> is an error of the PoH recorder.\<close>

record ProcessTransactionBatchOutput =
  cost_model_throttled_transactions_count :: u64
  commit_transactions_result :: "unit + CommitTransactionDetails list"

record 'c StageEnv =
  process_and_record_aged_transactions ::
    "'c \<Rightarrow> RuntimeTransaction list \<Rightarrow> MaxAge list \<Rightarrow> ProcessTransactionBatchOutput \<times> 'c"
  is_complete :: "'c \<Rightarrow> bool"
  get_initialize_tip_programs_bundle :: "'c \<Rightarrow> unit + RuntimeTransaction list"
  get_tip_programs_crank_bundle :: "'c \<Rightarrow> unit + RuntimeTransaction list"
  bank_slot :: Slot
  bank_epoch :: Epoch
  bank_lock_limit :: nat

definition to_bundle_result :: "ProcessTransactionBatchOutput \<Rightarrow> BundleExecutionError + unit" where
  "to_bundle_result output =
     (if (case commit_transactions_result output of
            Inr results \<Rightarrow> list_all (\<lambda>r. case r of Committed _ _ _ (Inr _) \<Rightarrow> True | _ \<Rightarrow> False) results
          | Inl _ \<Rightarrow> False)
      then Inr ()
      else if 0 < cost_model_throttled_transactions_count output
              \<or> isl (commit_transactions_result output)
              \<or> (case commit_transactions_result output of
                   Inr results \<Rightarrow> list_ex (\<lambda>r. r = NotCommitted AccountInUse) results
                 | Inl _ \<Rightarrow> False)
      then Inl ErrorRetryable
      else Inl ErrorNonRetryable)"

text \<open>The transactions of a bundle without the buffers their views hold: what locking and execution see.\<close>

definition entry_transactions :: "BundleStorageEntry \<Rightarrow> RuntimeTransaction list" where
  "entry_transactions bundle = map runtime_transaction (transactions bundle)"

definition process_bundle ::
    "'c StageEnv \<Rightarrow> 'c \<Rightarrow> BundleStorageEntry \<Rightarrow> (BundleExecutionError + ProcessTransactionBatchOutput) \<times> 'c" where
  "process_bundle env consumer bundle =
     (if is_complete env consumer then (Inl ErrorRetryable, consumer)
      else
        (let (output, consumer) =
               process_and_record_aged_transactions env consumer (entry_transactions bundle) (max_ages bundle)
         in case to_bundle_result output of
              Inl e \<Rightarrow> (Inl e, consumer)
            | Inr _ \<Rightarrow> (Inr output, consumer)))"

section \<open>Tip programs\<close>

text \<open>Both tip bundles are executed the same way: lock, execute, unlock.\<close>

definition run_tip_bundle ::
    "'c StageEnv \<Rightarrow> unit + RuntimeTransaction list \<Rightarrow> BundleAccountLocks \<Rightarrow> 'c \<Rightarrow>
     (BundleExecutionError + unit) \<times> BundleAccountLocks \<times> 'c" where
  "run_tip_bundle env tip_transactions locks consumer =
     (case tip_transactions of
        Inl _ \<Rightarrow> (Inl TipError, locks, consumer)
      | Inr txs \<Rightarrow>
          if txs = [] then (Inr (), locks, consumer)
          else
            (let age = \<lparr>sanitized_epoch = bank_epoch env, alt_invalidation_slot = bank_slot env\<rparr>;
                 locks = snd (lock_bundle locks txs (bank_lock_limit env));
                 (output, consumer) =
                   process_and_record_aged_transactions env consumer txs (replicate (length txs) age);
                 locks = snd (unlock_bundle locks txs (bank_lock_limit env))
             in (to_bundle_result output, locks, consumer)))"

definition handle_initialize_tip_programs ::
    "'c StageEnv \<Rightarrow> BundleAccountLocks \<Rightarrow> 'c \<Rightarrow> (BundleExecutionError + unit) \<times> BundleAccountLocks \<times> 'c" where
  "handle_initialize_tip_programs env locks consumer =
     run_tip_bundle env (get_initialize_tip_programs_bundle env consumer) locks consumer"

definition handle_crank_tip_programs ::
    "'c StageEnv \<Rightarrow> BundleAccountLocks \<Rightarrow> 'c \<Rightarrow> (BundleExecutionError + unit) \<times> BundleAccountLocks \<times> 'c" where
  "handle_crank_tip_programs env locks consumer =
     run_tip_bundle env (get_tip_programs_crank_bundle env consumer) locks consumer"

definition handle_tip_programs ::
    "'c StageEnv \<Rightarrow> BundleAccountLocks \<Rightarrow> 'c \<Rightarrow> (BundleExecutionError + unit) \<times> BundleAccountLocks \<times> 'c" where
  "handle_tip_programs env locks consumer =
     (case handle_initialize_tip_programs env locks consumer of
        (Inl e, locks, consumer) \<Rightarrow> (Inl e, locks, consumer)
      | (Inr _, locks, consumer) \<Rightarrow>
          (case handle_crank_tip_programs env locks consumer of
             (Inl e, locks, consumer) \<Rightarrow> (Inl e, locks, consumer)
           | (Inr _, locks, consumer) \<Rightarrow> (Inr (), locks, consumer)))"

section \<open>The window of bundles\<close>

definition BUNDLE_WINDOW_SIZE :: nat where "BUNDLE_WINDOW_SIZE = 10"

text \<open>The window is filled until it is full or the storage has no bundle left for this slot.\<close>

partial_function (option) fill_window ::
    "'c StageEnv \<Rightarrow> BundleStorageEntry list \<Rightarrow> BundleStorage \<Rightarrow> BundleAccountLocks \<Rightarrow>
     (BundleStorageEntry list \<times> BundleStorage \<times> BundleAccountLocks) option" where
  "fill_window env bundles storage locks =
     (if length bundles < BUNDLE_WINDOW_SIZE then
        Option.bind (pop_bundle storage (bank_slot env)) (\<lambda>(popped, storage).
          case popped of
            None \<Rightarrow> Some (bundles, storage, locks)
          | Some bundle \<Rightarrow>
              (case lock_bundle locks (entry_transactions bundle) (bank_lock_limit env) of
                 (Inl _, locks) \<Rightarrow>
                   Option.bind (destroy_bundle storage bundle) (\<lambda>storage. fill_window env bundles storage locks)
               | (Inr _, locks) \<Rightarrow> fill_window env (bundles @ [bundle]) storage locks))
      else Some (bundles, storage, locks))"

text \<open>What becomes of an executed bundle. On \<open>TipError\<close> it is only dropped.\<close>

definition settle_bundle ::
    "BundleStorage \<Rightarrow> BundleStorageEntry \<Rightarrow> BundleExecutionError + ProcessTransactionBatchOutput \<Rightarrow> BundleStorage option" where
  "settle_bundle storage bundle result =
     (case result of
        Inr _ \<Rightarrow> destroy_bundle storage bundle
      | Inl ErrorRetryable \<Rightarrow> retry_bundle storage bundle
      | Inl ErrorNonRetryable \<Rightarrow> destroy_bundle storage bundle
      | Inl TipError \<Rightarrow> Some (storage\<lparr>container := drop_transactions (container storage) (transactions bundle)\<rparr>))"

partial_function (option) consume_loop ::
    "'c StageEnv \<Rightarrow> BundleStorageEntry list \<Rightarrow> BundleStorage \<Rightarrow> BundleAccountLocks \<Rightarrow> 'c \<Rightarrow>
     (BundleStorage \<times> BundleAccountLocks \<times> 'c) option" where
  "consume_loop env bundles storage locks consumer =
     Option.bind (fill_window env bundles storage locks) (\<lambda>(bundles, storage, locks).
       case bundles of
         [] \<Rightarrow> Some (storage, locks, consumer)
       | bundle # bundles \<Rightarrow>
           (case process_bundle env consumer bundle of
              (result, consumer) \<Rightarrow>
                Option.bind (settle_bundle storage bundle result) (\<lambda>storage.
                  consume_loop env bundles storage
                    (snd (unlock_bundle locks (entry_transactions bundle) (bank_lock_limit env))) consumer)))"

definition consume_bundles ::
    "'c StageEnv \<Rightarrow> BundleStorage \<Rightarrow> BundleAccountLocks \<Rightarrow> 'c \<Rightarrow> Slot \<Rightarrow>
     (BundleStorage \<times> BundleAccountLocks \<times> 'c \<times> Slot) option" where
  "consume_bundles env storage locks consumer last_tip_update_slot =
     (let (locks, consumer, last_tip_update_slot) =
            (if bank_slot env \<noteq> last_tip_update_slot
             then (let (_, locks, consumer) = handle_tip_programs env locks consumer
                   in (locks, consumer, bank_slot env))
             else (locks, consumer, last_tip_update_slot))
      in map_option (\<lambda>(storage, locks, consumer). (storage, locks, consumer, last_tip_update_slot))
           (consume_loop env [] storage locks consumer))"

datatype 'c BufferedPacketsDecision = Consume "'c StageEnv" | Forward | ForwardAndHold | Hold

definition process_buffered_bundles ::
    "'c BufferedPacketsDecision \<Rightarrow> BundleStorage \<Rightarrow> BundleAccountLocks \<Rightarrow> 'c \<Rightarrow> Slot \<Rightarrow>
     (BundleStorage \<times> BundleAccountLocks \<times> 'c \<times> Slot) option" where
  "process_buffered_bundles decision storage locks consumer last_tip_update_slot =
     (case decision of
        Consume env \<Rightarrow> consume_bundles env storage locks consumer last_tip_update_slot
      | Forward \<Rightarrow> map_option (\<lambda>storage. (storage, locks, consumer, last_tip_update_slot)) (clear storage)
      | ForwardAndHold \<Rightarrow> Some (storage, locks, consumer, last_tip_update_slot)
      | Hold \<Rightarrow> Some (storage, locks, consumer, last_tip_update_slot))"

section \<open>Sequential specification\<close>

text \<open>
  What the loop promises, without a window: the bundles are executed one after the other in the order
  of the storage, bundles that cannot be locked are dropped, and those whose execution may be retried
  are kept in that order.
\<close>

type_synonym items = "(RuntimeTransaction \<times> MaxAge) list"

definition lockable :: "'c StageEnv \<Rightarrow> items \<Rightarrow> bool" where
  "lockable env b \<longleftrightarrow> list_all (\<lambda>(tx, _). length (account_keys tx) \<le> bank_lock_limit env \<and> distinct (account_keys tx)) b"

definition process_items ::
    "'c StageEnv \<Rightarrow> 'c \<Rightarrow> items \<Rightarrow> (BundleExecutionError + ProcessTransactionBatchOutput) \<times> 'c" where
  "process_items env consumer b =
     process_bundle env consumer
       \<lparr>container_ids = [], transactions = map (\<lambda>(tx, _). \<lparr>runtime_transaction = tx, shared_bytes = 0\<rparr>) b, max_ages = map snd b\<rparr>"

fun consume_all :: "'c StageEnv \<Rightarrow> 'c \<Rightarrow> items list \<Rightarrow> items list \<times> 'c" where
  "consume_all env consumer [] = ([], consumer)"
| "consume_all env consumer (b # bs) =
     (if lockable env b then
        (let (result, consumer) = process_items env consumer b;
             (kept, consumer) = consume_all env consumer bs
         in (if result = Inl ErrorRetryable then b # kept else kept, consumer))
      else consume_all env consumer bs)"

lemma consume_all_filter: "consume_all env c (filter (lockable env) xs @ ys) = consume_all env c (xs @ ys)"
  by (induction xs arbitrary: c) (auto split: prod.splits)

section \<open>The window implements it\<close>

definition todo :: "Slot \<Rightarrow> BundleStorage \<Rightarrow> stored_bundle list" where
  "todo slot s = (if slot = last_slot s then waiting s else retrying s @ waiting s)"

definition kept_for_next :: "Slot \<Rightarrow> BundleStorage \<Rightarrow> stored_bundle list" where
  "kept_for_next slot s = (if slot = last_slot s then retrying s else [])"

lemma todo_contents:
  "contents s = (slot, w, r) \<Longrightarrow> todo slot s = w \<and> kept_for_next slot s = r"
  by (auto simp: contents_def todo_def kept_for_next_def)

lemma stored_items:
  assumes "storage_ok s P"
  shows "\<exists>ts. todo slot s = map (map Some) ts"
proof -
  have "\<exists>item. tx_at (container s) key = Some item" if "key \<in> set (queued s)" for key
    using assms that by (auto simp: storage_ok_def tx_at_def split: bind_splits)
  then obtain f where f: "tx_at (container s) key = Some (f key)" if "key \<in> set (queued s)" for key by metis
  then have "waiting s = map (map Some) (map (map f) (unprocessed_bundles s))"
    "retrying s = map (map Some) (map (map f) (cost_model_buffered_bundles s))"
    by (auto simp: waiting_def retrying_def queued_def)
  then show ?thesis unfolding todo_def by (metis map_append)
qed

lemma entry_bundle_of:
  assumes "storage_ok s P" and "e \<in> set P"
  shows "entry_transactions e = map fst (bundle_of e)" and "max_ages e = map snd (bundle_of e)"
proof -
  have "entry_shape (container s) e" using assms by (simp add: storage_ok_def)
  then have "length (transactions e) = length (max_ages e)" unfolding entry_shape_def by (metis length_map)
  then show "entry_transactions e = map fst (bundle_of e)" "max_ages e = map snd (bundle_of e)"
    by (simp_all add: bundle_of_def entry_transactions_def)
qed

lemma process_bundle_items:
  assumes "storage_ok s P" and "e \<in> set P"
  shows "process_bundle env c e = process_items env c (bundle_of e)"
  using entry_bundle_of [OF assms]
  by (simp add: process_items_def process_bundle_def entry_transactions_def case_prod_beta comp_def)

lemma process_bundle_no_tip_error: "fst (process_bundle env c e) \<noteq> Inl TipError"
  by (auto simp: process_bundle_def to_bundle_result_def split: prod.splits sum.splits)

lemma lock_bundle_lockable:
  "lock_bundle l (map fst b) (bank_lock_limit env) =
     (if lockable env b then (Inr (), bundle_lock_accounts l (map accounts_with_is_writable (map fst b))) else (Inl LockingError, l))"
  by (auto simp: lock_bundle_def get_transaction_locks_eq lockable_def list_all_iff)

definition requests_of :: "items \<Rightarrow> lock_request list" where
  "requests_of b = bundle_requests (map fst b)"

definition window_ok ::
    "'c StageEnv \<Rightarrow> BundleStorageEntry list \<Rightarrow> BundleStorage \<Rightarrow> BundleAccountLocks \<Rightarrow> lock_request multiset \<Rightarrow> bool" where
  "window_ok env W s l M \<longleftrightarrow> storage_ok s W \<and> list_all (lockable env \<circ> bundle_of) W
     \<and> bundle_locks.tracks l (mset (concat (map (requests_of \<circ> bundle_of) W)) + M)"

lemma window_ok_push:
  assumes "window_ok env W s l M" and "storage_ok s' (e # W)" and "lockable env (bundle_of e)"
    and "size M + length (concat (map (requests_of \<circ> bundle_of) W)) + length (requests_of (bundle_of e)) < 2 ^ 64"
  shows "\<exists>l'. lock_bundle l (entry_transactions e) (bank_lock_limit env) = (Inr (), l') \<and> window_ok env (W @ [e]) s' l' M"
proof -
  have tx: "entry_transactions e = map fst (bundle_of e)" using entry_bundle_of(1) [OF assms(2), of e] by simp
  then obtain l' where l': "lock_bundle l (entry_transactions e) (bank_lock_limit env) = (Inr (), l')"
    using assms(3) by (simp add: lock_bundle_lockable)
  have "bundle_locks.tracks l' (mset (requests_of (bundle_of e)) + (mset (concat (map (requests_of \<circ> bundle_of) W)) + M))"
    using lock_bundle_tracks [OF _ _ l'] assms(1,4) unfolding window_ok_def requests_of_def tx by simp
  moreover have "storage_ok s' (W @ [e])" using assms(2) by (rule storage_ok_perm) simp_all
  ultimately show ?thesis using l' assms(1,3) by (auto simp: window_ok_def ac_simps)
qed

lemma window_ok_pop:
  assumes "window_ok env (e # W) s l M"
  shows "bundle_locks.tracks (snd (unlock_bundle l (entry_transactions e) (bank_lock_limit env)))
    (mset (concat (map (requests_of \<circ> bundle_of) W)) + M)"
proof -
  have "storage_ok s (e # W)" using assms by (simp add: window_ok_def)
  then have tx: "entry_transactions e = map fst (bundle_of e)" using entry_bundle_of(1) by fastforce
  have "fst (lock_bundle BundleAccountLocks_default (entry_transactions e) (bank_lock_limit env)) = Inr ()"
    using assms by (simp add: tx lock_bundle_lockable window_ok_def)
  from unlock_bundle_tracks [OF _ this, of l "mset (concat (map (requests_of \<circ> bundle_of) W)) + M"] assms
  show ?thesis by (auto simp: window_ok_def requests_of_def tx ac_simps)
qed

lemma settle_bundle_ok:
  assumes "storage_ok s (e # W)" and "result \<noteq> Inl TipError"
  shows "\<exists>s'. settle_bundle s e result = Some s' \<and> storage_ok s' W
    \<and> contents s' = (last_slot s, waiting s, retrying s @ (if result = Inl ErrorRetryable then [map Some (bundle_of e)] else []))"
  using destroy_bundle_ok [OF assms(1)] retry_bundle_ok [OF assms(1)] assms(2)
  by (auto simp: settle_bundle_def contents_def split: sum.splits BundleExecutionError.splits)

definition load :: "items list \<Rightarrow> nat" where
  "load bs = length (concat (map requests_of bs))"

lemma load_simps [simp]: "load [] = 0" "load (b # bs) = length (requests_of b) + load bs" "load (xs @ ys) = load xs + load ys"
  by (simp_all add: load_def)

lemma load_filter: "load (filter p bs) \<le> load bs"
  by (induction bs) auto

lemma fill_window_ok:
  assumes "window_ok env W s l M" and "todo (bank_slot env) s = map (map Some) ts"
    and "size M + load (map bundle_of W @ ts) < 2 ^ 64" and "W \<noteq> [] \<longrightarrow> last_slot s = bank_slot env"
  shows "\<exists>W' k s' l'. fill_window env W s l = Some (W @ W', s', l') \<and> window_ok env (W @ W') s' l' M
    \<and> map bundle_of W' = filter (lockable env) (take k ts) \<and> todo (bank_slot env) s' = map (map Some) (drop k ts)
    \<and> kept_for_next (bank_slot env) s' = kept_for_next (bank_slot env) s
    \<and> last_slot s' = bank_slot env \<and> (W @ W' = [] \<longrightarrow> drop k ts = [])"
  using assms
proof (induction ts arbitrary: W s l)
  case Nil
  show ?case
  proof (cases "length W < BUNDLE_WINDOW_SIZE")
    case True
    have ok: "storage_ok s W" using Nil.prems(1) by (simp add: window_ok_def)
    obtain s' where s': "pop_bundle s (bank_slot env) = Some (None, s')" "storage_ok s' W"
      "contents s' = (bank_slot env, [], kept_for_next (bank_slot env) s)"
      using pop_bundle_ok [OF ok, of "bank_slot env"] Nil.prems(2)
      by (auto simp: todo_def kept_for_next_def split: if_splits)
    from True s'(1) have "fill_window env W s l = Some (W @ [], s', l)" by (simp add: fill_window.simps)
    moreover have "window_ok env (W @ []) s' l M" using Nil.prems(1) s'(2) by (simp add: window_ok_def)
    ultimately show ?thesis using todo_contents [OF s'(3)] s'(3)
      by (intro exI [of _ "[]"] exI [of _ 0] exI [of _ s'] exI [of _ l]) (auto simp: contents_def)
  next
    case False
    then have "W \<noteq> []" by (auto simp: BUNDLE_WINDOW_SIZE_def)
    with False Nil.prems show ?thesis
      by (intro exI [of _ "[]"] exI [of _ 0] exI [of _ s] exI [of _ l]) (simp add: fill_window.simps)
  qed
next
  case (Cons t ts)
  show ?case
  proof (cases "length W < BUNDLE_WINDOW_SIZE")
    case full: False
    then have "W \<noteq> []" by (auto simp: BUNDLE_WINDOW_SIZE_def)
    with full Cons.prems show ?thesis
      by (intro exI [of _ "[]"] exI [of _ 0] exI [of _ s] exI [of _ l]) (simp add: fill_window.simps)
  next
    case True
    have ok: "storage_ok s W" using Cons.prems(1) by (simp add: window_ok_def)
    obtain e s1 where s1: "pop_bundle s (bank_slot env) = Some (Some e, s1)" "storage_ok s1 (e # W)"
      "map Some (bundle_of e) = map Some t" "contents s1 = (bank_slot env, map (map Some) ts, kept_for_next (bank_slot env) s)"
      using pop_bundle_ok [OF ok, of "bank_slot env"] Cons.prems(2)
      by (auto simp: todo_def kept_for_next_def split: if_splits)
    have e: "bundle_of e = t" using s1(3) by (simp add: inj_map_eq_map)
    have tx: "entry_transactions e = map fst t" using entry_bundle_of(1) [OF s1(2), of e] e by simp
    show ?thesis
    proof (cases "lockable env t")
      case lock: True
      from window_ok_push [OF Cons.prems(1) s1(2)] lock e Cons.prems(3) obtain l1 where
        l1: "lock_bundle l (entry_transactions e) (bank_lock_limit env) = (Inr (), l1)" "window_ok env (W @ [e]) s1 l1 M"
        by (auto simp: load_def)
      have slot: "last_slot s1 = bank_slot env" using s1(4) by (simp add: contents_def)
      from Cons.IH [OF l1(2)] todo_contents [OF s1(4)] Cons.prems(3) e slot obtain W' k s' l' where
        IH: "fill_window env (W @ [e]) s1 l1 = Some ((W @ [e]) @ W', s', l')" "window_ok env ((W @ [e]) @ W') s' l' M"
        "map bundle_of W' = filter (lockable env) (take k ts)" "todo (bank_slot env) s' = map (map Some) (drop k ts)"
        "kept_for_next (bank_slot env) s' = kept_for_next (bank_slot env) s" "last_slot s' = bank_slot env" by auto
      have "fill_window env W s l = Some (W @ e # W', s', l')"
        using True s1(1) l1(1) IH(1) by (simp add: fill_window.simps [of env W s l])
      with IH lock e show ?thesis
        by (intro exI [of _ "e # W'"] exI [of _ "Suc k"] exI [of _ s'] exI [of _ l']) simp
    next
      case nolock: False
      have fail: "lock_bundle l (entry_transactions e) (bank_lock_limit env) = (Inl LockingError, l)"
        using nolock by (simp add: tx lock_bundle_lockable)
      obtain s2 where s2: "destroy_bundle s1 e = Some s2" "storage_ok s2 W" "contents s2 = contents s1"
        using destroy_bundle_ok [OF s1(2)] by blast
      have "window_ok env W s2 l M" using Cons.prems(1) s2(2) by (simp add: window_ok_def)
      moreover have "last_slot s2 = bank_slot env" using s2(3) s1(4) by (simp add: contents_def)
      ultimately obtain W' k s' l' where
        IH: "fill_window env W s2 l = Some (W @ W', s', l')" "window_ok env (W @ W') s' l' M"
        "map bundle_of W' = filter (lockable env) (take k ts)" "todo (bank_slot env) s' = map (map Some) (drop k ts)"
        "kept_for_next (bank_slot env) s' = kept_for_next (bank_slot env) s"
        "last_slot s' = bank_slot env" "W @ W' = [] \<longrightarrow> drop k ts = []"
        using Cons.IH [of W s2 l] todo_contents [of s2] s2(3) s1(4) Cons.prems(3) by auto
      have "fill_window env W s l = Some (W @ W', s', l')"
        using True s1(1) fail s2(1) IH(1) by (simp add: fill_window.simps [of env W s l])
      with IH nolock show ?thesis
        by (intro exI [of _ W'] exI [of _ "Suc k"] exI [of _ s'] exI [of _ l']) simp
    qed
  qed
qed

lemma consume_loop_ok:
  assumes "window_ok env W s l M" and "todo (bank_slot env) s = map (map Some) ts"
    and "size M + load (map bundle_of W @ ts) < 2 ^ 64" and "W \<noteq> [] \<longrightarrow> last_slot s = bank_slot env"
  shows "\<exists>s' l'. consume_loop env W s l c = Some (s', l', snd (consume_all env c (map bundle_of W @ ts)))
    \<and> storage_ok s' [] \<and> bundle_locks.tracks l' M
    \<and> contents s' = (bank_slot env, [],
         kept_for_next (bank_slot env) s @ map (map Some) (fst (consume_all env c (map bundle_of W @ ts))))"
  using assms
proof (induction "length W + length ts" arbitrary: W s l c ts rule: less_induct)
  case less
  define slot where "slot = bank_slot env"
  obtain W' k s1 l1 where f: "fill_window env W s l = Some (W @ W', s1, l1)" "window_ok env (W @ W') s1 l1 M"
    "map bundle_of W' = filter (lockable env) (take k ts)" "todo slot s1 = map (map Some) (drop k ts)"
    "kept_for_next slot s1 = kept_for_next slot s" "last_slot s1 = slot" "W @ W' = [] \<longrightarrow> drop k ts = []"
    using fill_window_ok [OF less.prems] unfolding slot_def by blast
  have all: "consume_all env c (map bundle_of W @ ts) = consume_all env c (map bundle_of (W @ W') @ drop k ts)" for c
  proof -
    have W: "filter (lockable env) (map bundle_of W) = map bundle_of W"
      using less.prems(1) by (auto simp: window_ok_def list_all_iff intro: filter_True)
    have "filter (lockable env) (map bundle_of W @ take k ts) = map bundle_of (W @ W')"
      by (simp add: W f(3))
    then show ?thesis using consume_all_filter [of env c "map bundle_of W @ take k ts" "drop k ts"]
      by (metis append_assoc append_take_drop_id)
  qed
  show ?case
  proof (cases "W @ W'")
    case Nil
    then have "consume_loop env W s l c = Some (s1, l1, c)" using f(1) by (simp add: consume_loop.simps)
    moreover have "contents s1 = (slot, [], kept_for_next slot s)"
      using f(4-7) Nil by (simp add: contents_def todo_def kept_for_next_def)
    ultimately show ?thesis using f(2,7) Nil all [of c] by (simp add: window_ok_def slot_def)
  next
    case (Cons e V)
    have ok: "storage_ok s1 (e # V)" using f(2) Cons by (simp add: window_ok_def)
    obtain r c1 where r: "process_items env c (bundle_of e) = (r, c1)" by fastforce
    then have pr: "process_bundle env c e = (r, c1)" using process_bundle_items [OF ok, of e env c] by simp
    have nt: "r \<noteq> Inl TipError" using process_bundle_no_tip_error [of env c e] pr by simp
    define l2 where "l2 = snd (unlock_bundle l1 (entry_transactions e) (bank_lock_limit env))"
    obtain s2 where s2: "settle_bundle s1 e r = Some s2" "storage_ok s2 V"
      "contents s2 = (last_slot s1, waiting s1, retrying s1 @ (if r = Inl ErrorRetryable then [map Some (bundle_of e)] else []))"
      using settle_bundle_ok [OF ok nt] by blast
    have w2: "window_ok env V s2 l2 M"
      using window_ok_pop [of env e V s1 l1 M] f(2) Cons s2(2) by (simp add: window_ok_def l2_def)
    have "todo slot s2 = map (map Some) (drop k ts)" "last_slot s2 = slot"
      "kept_for_next slot s2 = kept_for_next slot s @ (if r = Inl ErrorRetryable then [map Some (bundle_of e)] else [])"
      using s2(3) f(4-6) by (auto simp: contents_def todo_def kept_for_next_def)
    note q2 = this [unfolded slot_def]
    have V: "map bundle_of (W @ W') = bundle_of e # map bundle_of V" by (simp add: Cons del: map_append)
    have "length V < length W + length W'" using Cons by (metis length_append length_Cons lessI)
    moreover have "length W' \<le> length (take k ts)" using f(3) by (metis length_filter_le length_map)
    ultimately have lt: "length V + length (drop k ts) < length W + length ts"
      by (cases "k \<le> length ts") simp_all
    have load: "size M + load (map bundle_of V @ drop k ts) < 2 ^ 64"
    proof -
      have "load (map bundle_of V) \<le> load (map bundle_of (W @ W'))" by (simp only: V load_simps)
      also have "\<dots> \<le> load (map bundle_of W) + load (take k ts)" by (simp add: f(3) load_filter)
      finally show ?thesis using less.prems(3) load_simps(3) [of "take k ts" "drop k ts"] by simp
    qed
    have "lockable env (bundle_of e)" using f(2) Cons by (simp add: window_ok_def)
    then have spec: "consume_all env c (map bundle_of W @ ts) =
        (let (kept, c2) = consume_all env c1 (map bundle_of V @ drop k ts)
         in (if r = Inl ErrorRetryable then bundle_of e # kept else kept, c2))"
      by (simp add: all V r del: map_append)
    have "consume_loop env W s l c = consume_loop env V s2 l2 c1"
      using f(1) Cons pr s2(1) by (simp add: consume_loop.simps [of env W] l2_def)
    with less.hyps [OF lt w2 q2(1) load, of c1] q2(2,3) show ?thesis
      by (auto simp: spec split: prod.splits)
  qed
qed

lemma run_tip_bundle_locks:
  assumes "bundle_locks.tracks l M" and "\<And>txs. tips = Inr txs \<Longrightarrow> size M + length (bundle_requests txs) < 2 ^ 64"
  shows "\<exists>r c'. run_tip_bundle env tips l c = (r, l, c')"
proof (cases tips)
  case (Inr txs)
  have "snd (unlock_bundle (snd (lock_bundle l txs limit)) txs limit) = l" for limit
  proof (cases "fst (lock_bundle l txs limit)")
    case (Inl e)
    then show ?thesis by (auto simp: lock_bundle_def unlock_bundle_def split: sum.splits)
  next
    case (Inr u)
    then have lk: "lock_bundle l txs limit = (Inr (), snd (lock_bundle l txs limit))" by (simp add: prod_eq_iff)
    from unlock_bundle_tracks [OF lock_bundle_tracks [OF assms(1) assms(2) lk]] lk \<open>tips = Inr txs\<close>
    show ?thesis using assms(1) bundle_locks.tracks_inject by (metis fst_conv snd_conv)
  qed
  with Inr show ?thesis by (auto simp: run_tip_bundle_def Let_def split: prod.splits)
qed (simp add: run_tip_bundle_def)

section \<open>The properties\<close>

text \<open>C14: the windowed loop implements the sequential specification and ends: every stored bundle
  is executed once, in storage order, with bundles that cannot be locked destroyed, the retryable ones
  returned to the storage for the next slot in order, and the locks held before the loop unchanged by
  it. (The comment above the loop has a retryable bundle go to the back of the window and every popped
  bundle destroyed; the code does neither.) It holds for every behaviour of the consumer, while fewer
  than \<open>2 ^ 64\<close> locks are requested.\<close>

theorem consume_loop_refines_sequential:
  assumes "storage_ok s []" and "bundle_locks.tracks l M" and "todo (bank_slot env) s = map (map Some) ts"
    and "size M + load ts < 2 ^ 64"
  shows "\<exists>s'. consume_loop env [] s l c = Some (s', l, snd (consume_all env c ts)) \<and> storage_ok s' []
    \<and> contents s' = (bank_slot env, [], kept_for_next (bank_slot env) s @ map (map Some) (fst (consume_all env c ts)))"
proof -
  have "window_ok env [] s l M" using assms(1,2) by (simp add: window_ok_def)
  from consume_loop_ok [OF this assms(3), of c] assms(4) show ?thesis
    using bundle_locks.tracks_inject [OF assms(2)] by auto
qed

definition demo_stage :: "nat StageEnv" where
  "demo_stage = \<lparr>process_and_record_aged_transactions = (\<lambda>c txs _.
       (\<lparr>cost_model_throttled_transactions_count = 0,
         commit_transactions_result = Inr (if c = 0 then [NotCommitted AccountInUse] else [Committed 0 0 0 (Inr ())])\<rparr>, Suc c)),
     is_complete = (\<lambda>_. False), get_initialize_tip_programs_bundle = (\<lambda>_. Inr [fst (demo_item 9)]),
     get_tip_programs_crank_bundle = (\<lambda>_. Inl ()), bank_slot = 3, bank_epoch = 0, bank_lock_limit = 64\<rparr>"

lemma demo_consume: "consume_all demo_stage 0 [[demo_item 1, demo_item 2]] = ([[demo_item 1, demo_item 2]], 1)"
  by (simp add: demo_stage_def lockable_def process_items_def process_bundle_def to_bundle_result_def demo_item_def)

theorem consume_loop_refines_sequential_witness:
  "\<exists>s s'. storage_ok s [] \<and> consume_loop demo_stage [] s BundleAccountLocks_default 0 = Some (s', BundleAccountLocks_default, 1)
    \<and> contents s' = (3, [], [[Some (demo_item 1), Some (demo_item 2)]])"
proof -
  obtain s where s: "storage_ok s []" "contents s = (0, [[Some (demo_item 1), Some (demo_item 2)]], [])"
    using demo_stored by blast
  have t: "todo (bank_slot demo_stage) s = map (map Some) [[demo_item 1, demo_item 2]]"
    and k: "kept_for_next (bank_slot demo_stage) s = []" and slot: "bank_slot demo_stage = 3"
    using s(2) by (auto simp: contents_def todo_def kept_for_next_def demo_stage_def)
  have "size {#} + load [[demo_item 1, demo_item 2]] < 2 ^ 64"
    by (simp add: requests_of_def bundle_requests_def demo_item_def)
  from consume_loop_refines_sequential [OF s(1) bundle_tracks_default t this, of 0] s(1) show ?thesis
    unfolding demo_consume k unfolding slot by auto
qed

text \<open>C15: no bundle lock survives the stage: starting from an empty table, consuming the bundles of a
  slot, tip transactions included, ends with an empty table (what the debug assertions at its end
  check), no bundle left for the slot, and the tip update recorded for it.\<close>

theorem consume_bundles_releases_locks:
  assumes "storage_ok s []" and "todo (bank_slot env) s = map (map Some) ts" and "load ts < 2 ^ 64"
    and "\<And>c txs. get_initialize_tip_programs_bundle env c = Inr txs \<or> get_tip_programs_crank_bundle env c = Inr txs \<Longrightarrow>
      length (bundle_requests txs) < 2 ^ 64"
  shows "\<exists>s' c'. consume_bundles env s BundleAccountLocks_default c last_tip =
      Some (s', BundleAccountLocks_default, c', bank_slot env) \<and> waiting s' = [] \<and> last_slot s' = bank_slot env"
proof -
  note tip = run_tip_bundle_locks [OF bundle_tracks_default]
  obtain r c1 where h: "handle_tip_programs env BundleAccountLocks_default c = (r, BundleAccountLocks_default, c1)"
  proof -
    obtain r1 d1 where "handle_initialize_tip_programs env BundleAccountLocks_default c = (r1, BundleAccountLocks_default, d1)"
      unfolding handle_initialize_tip_programs_def using tip assms(4) by (metis add_0 size_empty)
    moreover obtain r2 d2 where "handle_crank_tip_programs env BundleAccountLocks_default d1 = (r2, BundleAccountLocks_default, d2)"
      unfolding handle_crank_tip_programs_def using tip assms(4) by (metis add_0 size_empty)
    ultimately show thesis using that by (cases r1; cases r2) (auto simp: handle_tip_programs_def)
  qed
  define d where "d = (if bank_slot env \<noteq> last_tip then c1 else c)"
  from window_ok_def [of env "[]" s BundleAccountLocks_default "{#}"] assms(1) bundle_tracks_default
  have "window_ok env [] s BundleAccountLocks_default {#}" by simp
  from consume_loop_ok [OF this assms(2), of d] assms(3) obtain s' l' where
    s': "consume_loop env [] s BundleAccountLocks_default d = Some (s', l', snd (consume_all env d ts))"
    "bundle_locks.tracks l' {#}" "last_slot s' = bank_slot env" "waiting s' = []"
    by (auto simp: contents_def)
  have "l' = BundleAccountLocks_default" by (rule bundle_locks.tracks_inject [OF s'(2) bundle_tracks_default])
  with s'(1,3,4) h show ?thesis by (auto simp: consume_bundles_def d_def)
qed

theorem consume_bundles_releases_locks_witness:
  "\<exists>s s' c'. storage_ok s [] \<and> consume_bundles demo_stage s BundleAccountLocks_default 0 2
     = Some (s', BundleAccountLocks_default, c', 3) \<and> waiting s' = []"
proof -
  obtain s where s: "storage_ok s []" "contents s = (0, [[Some (demo_item 1), Some (demo_item 2)]], [])"
    using demo_stored by blast
  have t: "todo (bank_slot demo_stage) s = map (map Some) [[demo_item 1, demo_item 2]]" and slot: "bank_slot demo_stage = 3"
    using s(2) by (auto simp: contents_def todo_def demo_stage_def)
  have l: "load [[demo_item 1, demo_item 2]] < 2 ^ 64"
    by (simp add: requests_of_def bundle_requests_def demo_item_def)
  have tips: "length (bundle_requests txs) < 2 ^ 64"
    if "get_initialize_tip_programs_bundle demo_stage c = Inr txs \<or> get_tip_programs_crank_bundle demo_stage c = Inr txs" for c txs
    using that by (auto simp: demo_stage_def bundle_requests_def demo_item_def)
  have "\<exists>s' c'. consume_bundles demo_stage s BundleAccountLocks_default 0 2 =
      Some (s', BundleAccountLocks_default, c', bank_slot demo_stage) \<and> waiting s' = [] \<and> last_slot s' = bank_slot demo_stage"
    by (rule consume_bundles_releases_locks [OF s(1) t l]) (erule tips)
  with s(1) show ?thesis unfolding slot by blast
qed

end
