(* ===== verification/ComputeBudget.thy ===== *)
theory ComputeBudget
  imports Transactions
begin

text \<open>
  The compute budget of a transaction: the table of builtin programs
  (\<^verbatim>\<open>builtins-default-costs/src/lib.rs\<close>), the caching filters over program indices
  and the collection and sanitization of compute budget instructions
  (\<^verbatim>\<open>compute-budget-instruction/src/\<close>), and the limits and prioritization fee that
  result (\<^verbatim>\<open>compute-budget/src/compute_budget_limits.rs\<close>).

  Program ids, the length of the default heap and the packet size are constants of other crates, and
  the decoding of instruction data is the \<open>solana_borsh\<close> crate's: all are fields of
  \<open>BudgetEnv\<close>. The lemmas show that caching does not change the outcome, that the
  outcome is determined by the requests a transaction makes, and that the limits are within bounds.
\<close>

section \<open>Instructions and builtin programs\<close>

record SVMInstruction =
  program_id_index :: u8
  accounts :: "u8 list"
  data :: "u8 list"

datatype ComputeBudgetInstruction =
    Unused
  | RequestHeapFrame u32
  | SetComputeUnitLimit u32
  | SetComputeUnitPrice u64
  | SetLoadedAccountsDataSizeLimit u32

record BudgetEnv =
  vote_id :: Pubkey
  system_program_id :: Pubkey
  compute_budget_id :: Pubkey
  bpf_loader_upgradeable_id :: Pubkey
  bpf_loader_deprecated_id :: Pubkey
  bpf_loader_id :: Pubkey
  loader_v4_id :: Pubkey
  secp256k1_program_id :: Pubkey
  ed25519_program_id :: Pubkey
  bls_pubkey_management_in_vote_account_id :: Pubkey
  HEAP_LENGTH :: u32
  PACKET_DATA_SIZE :: nat
  try_from_slice_unchecked :: "u8 list \<Rightarrow> ComputeBudgetInstruction option"

type_synonym FeatureSet = "Pubkey \<Rightarrow> bool"

record MigratingBuiltinCost =
  feature_id :: Pubkey
  feature_position :: nat

datatype BuiltinCost = Migrating MigratingBuiltinCost | NotMigrating

fun core_bpf_migration_feature :: "BuiltinCost \<Rightarrow> Pubkey option" where
  "core_bpf_migration_feature (Migrating cost) = Some (feature_id cost)"
| "core_bpf_migration_feature NotMigrating = None"

fun position :: "BuiltinCost \<Rightarrow> nat option" where
  "position (Migrating cost) = Some (feature_position cost)"
| "position NotMigrating = None"

definition MIGRATING_BUILTINS_COSTS :: "BudgetEnv \<Rightarrow> (Pubkey \<times> BuiltinCost) list" where
  "MIGRATING_BUILTINS_COSTS env =
     [(vote_id env,
       Migrating \<lparr>feature_id = bls_pubkey_management_in_vote_account_id env, feature_position = 0\<rparr>)]"

definition NON_MIGRATING_BUILTINS_COSTS :: "BudgetEnv \<Rightarrow> (Pubkey \<times> BuiltinCost) list" where
  "NON_MIGRATING_BUILTINS_COSTS env =
     [(system_program_id env, NotMigrating),
      (compute_budget_id env, NotMigrating),
      (bpf_loader_upgradeable_id env, NotMigrating),
      (bpf_loader_deprecated_id env, NotMigrating),
      (bpf_loader_id env, NotMigrating),
      (loader_v4_id env, NotMigrating),
      (secp256k1_program_id env, NotMigrating),
      (ed25519_program_id env, NotMigrating)]"

text \<open>Collecting into a hash map: a later entry replaces an earlier one of the same key.\<close>

definition BUILTIN_INSTRUCTION_COSTS :: "BudgetEnv \<Rightarrow> Pubkey \<rightharpoonup> BuiltinCost" where
  "BUILTIN_INSTRUCTION_COSTS env =
     map_of (rev (MIGRATING_BUILTINS_COSTS env @ NON_MIGRATING_BUILTINS_COSTS env))"

definition first_byte :: "Pubkey \<Rightarrow> u8" where
  "first_byte key = ucast (drop_bit 248 key)"

definition MAYBE_BUILTIN_KEY :: "BudgetEnv \<Rightarrow> bool list" where
  "MAYBE_BUILTIN_KEY env =
     fold (\<lambda>(key, _) table. table[unat (first_byte key) := True])
       (MIGRATING_BUILTINS_COSTS env @ NON_MIGRATING_BUILTINS_COSTS env) (replicate 256 False)"

datatype BuiltinMigrationFeatureIndex =
    NoBuiltin
  | BuiltinNoMigrationFeature
  | BuiltinWithMigrationFeature nat

definition get_builtin_migration_feature_index :: "BudgetEnv \<Rightarrow> Pubkey \<Rightarrow> BuiltinMigrationFeatureIndex" where
  "get_builtin_migration_feature_index env program_id =
     (case BUILTIN_INSTRUCTION_COSTS env program_id of
        None \<Rightarrow> NoBuiltin
      | Some builtin_cost \<Rightarrow>
          (case position builtin_cost of
             None \<Rightarrow> BuiltinNoMigrationFeature
           | Some index \<Rightarrow> BuiltinWithMigrationFeature index))"

definition get_migration_feature_id :: "BudgetEnv \<Rightarrow> nat \<Rightarrow> Pubkey option" where
  "get_migration_feature_id env index =
     (if index < length (MIGRATING_BUILTINS_COSTS env)
      then core_bpf_migration_feature (snd (MIGRATING_BUILTINS_COSTS env ! index))
      else None)"

section \<open>Filters\<close>

definition FILTER_SIZE :: "BudgetEnv \<Rightarrow> nat" where
  "FILTER_SIZE env = unat (word_of_nat (PACKET_DATA_SIZE env div 32) :: u8)"

text \<open>\<open>slots.get_mut(index).expect(..).get_or_insert_with(..)\<close>: an index out of range panics.\<close>

definition get_or_insert_with :: "'a option list \<Rightarrow> nat \<Rightarrow> 'a \<Rightarrow> ('a \<times> 'a option list) option" where
  "get_or_insert_with slots index fresh =
     (if index < length slots
      then (case slots ! index of
              Some cached \<Rightarrow> Some (cached, slots)
            | None \<Rightarrow> Some (fresh, slots[index := Some fresh]))
      else None)"

type_synonym ComputeBudgetProgramIdFilter = "bool option list"

definition ComputeBudgetProgramIdFilter_new :: "BudgetEnv \<Rightarrow> ComputeBudgetProgramIdFilter" where
  "ComputeBudgetProgramIdFilter_new env = replicate (FILTER_SIZE env) None"

definition check_program_id :: "BudgetEnv \<Rightarrow> Pubkey \<Rightarrow> bool" where
  "check_program_id env program_id =
     (if \<not> MAYBE_BUILTIN_KEY env ! unat (first_byte program_id) then False
      else program_id = compute_budget_id env)"

definition is_compute_budget_program ::
    "BudgetEnv \<Rightarrow> ComputeBudgetProgramIdFilter \<Rightarrow> nat \<Rightarrow> Pubkey \<Rightarrow> (bool \<times> ComputeBudgetProgramIdFilter) option" where
  "is_compute_budget_program env flags index program_id =
     get_or_insert_with flags index (check_program_id env program_id)"

datatype ProgramKind = NotBuiltin | Builtin | MigratingBuiltin nat

type_synonym BuiltinProgramsFilter = "ProgramKind option list"

definition BuiltinProgramsFilter_new :: "BudgetEnv \<Rightarrow> BuiltinProgramsFilter" where
  "BuiltinProgramsFilter_new env = replicate (FILTER_SIZE env) None"

definition check_program_kind :: "BudgetEnv \<Rightarrow> Pubkey \<Rightarrow> ProgramKind" where
  "check_program_kind env program_id =
     (if \<not> MAYBE_BUILTIN_KEY env ! unat (first_byte program_id) then NotBuiltin
      else (case get_builtin_migration_feature_index env program_id of
              NoBuiltin \<Rightarrow> NotBuiltin
            | BuiltinNoMigrationFeature \<Rightarrow> Builtin
            | BuiltinWithMigrationFeature index \<Rightarrow> MigratingBuiltin index))"

definition get_program_kind ::
    "BudgetEnv \<Rightarrow> BuiltinProgramsFilter \<Rightarrow> nat \<Rightarrow> Pubkey \<Rightarrow> (ProgramKind \<times> BuiltinProgramsFilter) option" where
  "get_program_kind env program_kinds index program_id =
     get_or_insert_with program_kinds index (check_program_kind env program_id)"

section \<open>Compute budget instruction details\<close>

record ComputeBudgetInstructionDetails =
  requested_compute_unit_limit :: "(u8 \<times> u32) option"
  requested_compute_unit_price :: "(u8 \<times> u64) option"
  requested_heap_size :: "(u8 \<times> u32) option"
  requested_loaded_accounts_data_size_limit :: "(u8 \<times> u32) option"
  num_non_compute_budget_instructions :: u16
  num_non_migratable_builtin_instructions :: u16
  num_non_builtin_instructions :: u16
  migrating_builtin :: "u16 list"

definition ComputeBudgetInstructionDetails_default :: "BudgetEnv \<Rightarrow> ComputeBudgetInstructionDetails" where
  "ComputeBudgetInstructionDetails_default env =
     \<lparr>requested_compute_unit_limit = None, requested_compute_unit_price = None,
      requested_heap_size = None, requested_loaded_accounts_data_size_limit = None,
      num_non_compute_budget_instructions = 0, num_non_migratable_builtin_instructions = 0,
      num_non_builtin_instructions = 0,
      migrating_builtin = replicate (length (MIGRATING_BUILTINS_COSTS env)) 0\<rparr>"

definition process_instruction ::
    "BudgetEnv \<Rightarrow> ComputeBudgetInstructionDetails \<Rightarrow> u8 \<Rightarrow> SVMInstruction \<Rightarrow>
     TransactionError + ComputeBudgetInstructionDetails" where
  "process_instruction env details index ix =
     (case try_from_slice_unchecked env (data ix) of
        Some (RequestHeapFrame bytes) \<Rightarrow>
          if requested_heap_size details \<noteq> None then Inl (DuplicateInstruction index)
          else Inr (details \<lparr>requested_heap_size := Some (index, bytes)\<rparr>)
      | Some (SetComputeUnitLimit compute_unit_limit) \<Rightarrow>
          if requested_compute_unit_limit details \<noteq> None then Inl (DuplicateInstruction index)
          else Inr (details \<lparr>requested_compute_unit_limit := Some (index, compute_unit_limit)\<rparr>)
      | Some (SetComputeUnitPrice micro_lamports) \<Rightarrow>
          if requested_compute_unit_price details \<noteq> None then Inl (DuplicateInstruction index)
          else Inr (details \<lparr>requested_compute_unit_price := Some (index, micro_lamports)\<rparr>)
      | Some (SetLoadedAccountsDataSizeLimit bytes) \<Rightarrow>
          if requested_loaded_accounts_data_size_limit details \<noteq> None then Inl (DuplicateInstruction index)
          else Inr (details \<lparr>requested_loaded_accounts_data_size_limit := Some (index, bytes)\<rparr>)
      | _ \<Rightarrow> Inl (InstructionError index InvalidInstructionData))"

text \<open>The two loops of \<open>try_from\<close>.\<close>

fun collect_requests ::
    "BudgetEnv \<Rightarrow> ComputeBudgetProgramIdFilter \<Rightarrow> ComputeBudgetInstructionDetails \<Rightarrow> nat \<Rightarrow>
     (Pubkey \<times> SVMInstruction) list \<Rightarrow> (TransactionError + ComputeBudgetInstructionDetails) option" where
  "collect_requests env flags details i [] = Some (Inr details)"
| "collect_requests env flags details i ((program_id, ix) # rest) = do {
     (is_budget, flags) \<leftarrow> is_compute_budget_program env flags (unat (program_id_index ix)) program_id;
     if is_budget
     then (case process_instruction env details (word_of_nat i) ix of
             Inl e \<Rightarrow> Some (Inl e)
           | Inr details \<Rightarrow> collect_requests env flags details (Suc i) rest)
     else collect_requests env flags
            (details \<lparr>num_non_compute_budget_instructions :=
                saturating_add (num_non_compute_budget_instructions details) 1\<rparr>) (Suc i) rest }"

fun collect_builtins ::
    "BudgetEnv \<Rightarrow> BuiltinProgramsFilter \<Rightarrow> ComputeBudgetInstructionDetails \<Rightarrow>
     (Pubkey \<times> SVMInstruction) list \<Rightarrow> ComputeBudgetInstructionDetails option" where
  "collect_builtins env kinds details [] = Some details"
| "collect_builtins env kinds details ((program_id, ix) # rest) = do {
     (kind, kinds) \<leftarrow> get_program_kind env kinds (unat (program_id_index ix)) program_id;
     details \<leftarrow> (case kind of
         Builtin \<Rightarrow> Some (details \<lparr>num_non_migratable_builtin_instructions :=
             saturating_add (num_non_migratable_builtin_instructions details) 1\<rparr>)
       | NotBuiltin \<Rightarrow> Some (details \<lparr>num_non_builtin_instructions :=
             saturating_add (num_non_builtin_instructions details) 1\<rparr>)
       | MigratingBuiltin index \<Rightarrow>
           if index < length (migrating_builtin details)
           then Some (details \<lparr>migrating_builtin :=
               (migrating_builtin details)[index := saturating_add (migrating_builtin details ! index) 1]\<rparr>)
           else None);
     collect_builtins env kinds details rest }"

definition try_from ::
    "BudgetEnv \<Rightarrow> (Pubkey \<times> SVMInstruction) list \<Rightarrow> (TransactionError + ComputeBudgetInstructionDetails) option" where
  "try_from env instructions = do {
     collected \<leftarrow> collect_requests env (ComputeBudgetProgramIdFilter_new env)
       (ComputeBudgetInstructionDetails_default env) 0 instructions;
     (case collected of
        Inl e \<Rightarrow> Some (Inl e)
      | Inr details \<Rightarrow>
          if requested_compute_unit_limit details = None
          then map_option Inr (collect_builtins env (BuiltinProgramsFilter_new env) details instructions)
          else Some (Inr details)) }"

section \<open>Limits\<close>

definition MAX_COMPUTE_UNIT_LIMIT :: u32 where "MAX_COMPUTE_UNIT_LIMIT = 1400000"
definition DEFAULT_HEAP_COST :: u64 where "DEFAULT_HEAP_COST = 8"
definition DEFAULT_INSTRUCTION_COMPUTE_UNIT_LIMIT :: u32 where
  "DEFAULT_INSTRUCTION_COMPUTE_UNIT_LIMIT = 200000"
definition MAX_BUILTIN_ALLOCATION_COMPUTE_UNIT_LIMIT :: u32 where
  "MAX_BUILTIN_ALLOCATION_COMPUTE_UNIT_LIMIT = 3000"
definition MAX_HEAP_FRAME_BYTES :: u32 where "MAX_HEAP_FRAME_BYTES = 256 * 1024"
definition MIN_HEAP_FRAME_BYTES :: "BudgetEnv \<Rightarrow> u32" where "MIN_HEAP_FRAME_BYTES env = HEAP_LENGTH env"
definition MAX_LOADED_ACCOUNTS_DATA_SIZE_BYTES :: u32 where
  "MAX_LOADED_ACCOUNTS_DATA_SIZE_BYTES = 64 * 1024 * 1024"

lemmas budget_constants =
  MAX_COMPUTE_UNIT_LIMIT_def DEFAULT_INSTRUCTION_COMPUTE_UNIT_LIMIT_def
  MAX_BUILTIN_ALLOCATION_COMPUTE_UNIT_LIMIT_def MAX_HEAP_FRAME_BYTES_def MIN_HEAP_FRAME_BYTES_def
  MAX_LOADED_ACCOUNTS_DATA_SIZE_BYTES_def

record ComputeBudgetLimits =
  updated_heap_bytes :: u32
  compute_unit_limit :: u32
  compute_unit_price :: u64
  loaded_accounts_bytes :: u32

definition sanitize_requested_heap_size :: "BudgetEnv \<Rightarrow> u32 \<Rightarrow> bool" where
  "sanitize_requested_heap_size env bytes \<longleftrightarrow>
     MIN_HEAP_FRAME_BYTES env \<le> bytes \<and> bytes \<le> MAX_HEAP_FRAME_BYTES \<and> bytes mod 1024 = 0"

text \<open>
  The fold over the counters of migrating builtins; the additions are on 16 bits and wrap. The
  feature id is looked up only for a counter above zero.
\<close>

fun count_migrated ::
    "BudgetEnv \<Rightarrow> FeatureSet \<Rightarrow> nat \<Rightarrow> u16 list \<Rightarrow> u16 \<times> u16 \<Rightarrow> (u16 \<times> u16) option" where
  "count_migrated env is_active index [] acc = Some acc"
| "count_migrated env is_active index (n # counts) (migrated, not_migrated) = do {
     active \<leftarrow> (if n > 0 then map_option is_active (get_migration_feature_id env index) else Some False);
     count_migrated env is_active (Suc index) counts
       (if active then (migrated + n, not_migrated) else (migrated, not_migrated + n)) }"

definition calculate_default_compute_unit_limit ::
    "BudgetEnv \<Rightarrow> FeatureSet \<Rightarrow> ComputeBudgetInstructionDetails \<Rightarrow> u32 option" where
  "calculate_default_compute_unit_limit env is_active details = do {
     (num_migrated, num_not_migrated) \<leftarrow> count_migrated env is_active 0 (migrating_builtin details) (0, 0);
     Some (saturating_add
       (saturating_mul
         (saturating_add (ucast (num_non_migratable_builtin_instructions details)) (ucast num_not_migrated))
         MAX_BUILTIN_ALLOCATION_COMPUTE_UNIT_LIMIT)
       (saturating_mul
         (saturating_add (ucast (num_non_builtin_instructions details)) (ucast num_migrated))
         DEFAULT_INSTRUCTION_COMPUTE_UNIT_LIMIT)) }"

definition sanitize_and_convert_to_compute_budget_limits ::
    "BudgetEnv \<Rightarrow> FeatureSet \<Rightarrow> ComputeBudgetInstructionDetails \<Rightarrow>
     (TransactionError + ComputeBudgetLimits) option" where
  "sanitize_and_convert_to_compute_budget_limits env is_active details =
     (case (case requested_heap_size details of
              Some (index, requested) \<Rightarrow>
                if sanitize_requested_heap_size env requested then Inr requested
                else Inl (InstructionError index InvalidInstructionData)
            | None \<Rightarrow> Inr (MIN_HEAP_FRAME_BYTES env)) of
        Inl e \<Rightarrow> Some (Inl e)
      | Inr heap_bytes \<Rightarrow> do {
          requested_units \<leftarrow> (case requested_compute_unit_limit details of
              None \<Rightarrow> calculate_default_compute_unit_limit env is_active details
            | Some (_, requested) \<Rightarrow> Some requested);
          (case (case requested_loaded_accounts_data_size_limit details of
                   Some (_, requested) \<Rightarrow>
                     if requested = 0 then Inl InvalidLoadedAccountsDataSizeLimit else Inr requested
                 | None \<Rightarrow> Inr MAX_LOADED_ACCOUNTS_DATA_SIZE_BYTES) of
             Inl e \<Rightarrow> Some (Inl e)
           | Inr loaded_bytes \<Rightarrow>
               Some (Inr \<lparr>updated_heap_bytes = min heap_bytes MAX_HEAP_FRAME_BYTES,
                 compute_unit_limit = min requested_units MAX_COMPUTE_UNIT_LIMIT,
                 compute_unit_price =
                   (case requested_compute_unit_price details of None \<Rightarrow> 0 | Some (_, price) \<Rightarrow> price),
                 loaded_accounts_bytes = min loaded_bytes MAX_LOADED_ACCOUNTS_DATA_SIZE_BYTES\<rparr>)) })"

definition process_compute_budget_instructions ::
    "BudgetEnv \<Rightarrow> FeatureSet \<Rightarrow> (Pubkey \<times> SVMInstruction) list \<Rightarrow>
     (TransactionError + ComputeBudgetLimits) option" where
  "process_compute_budget_instructions env is_active instructions = do {
     details \<leftarrow> try_from env instructions;
     (case details of
        Inl e \<Rightarrow> Some (Inl e)
      | Inr details \<Rightarrow> sanitize_and_convert_to_compute_budget_limits env is_active details) }"

section \<open>Prioritization fee\<close>

definition MICRO_LAMPORTS_PER_LAMPORT :: u64 where "MICRO_LAMPORTS_PER_LAMPORT = 1000000"

definition get_prioritization_fee :: "u64 \<Rightarrow> u64 \<Rightarrow> u64" where
  "get_prioritization_fee unit_price unit_limit =
     (let micro_lamport_fee = saturating_mul (ucast unit_price :: u128) (ucast unit_limit);
          fee = saturating_add micro_lamport_fee (ucast (saturating_sub MICRO_LAMPORTS_PER_LAMPORT 1))
                  div ucast MICRO_LAMPORTS_PER_LAMPORT
      in if unat fee < 2 ^ 64 then ucast fee else - 1)"

record FeeBudgetLimits =
  loaded_accounts_data_size_limit :: u32
  heap_cost :: u64
  fee_compute_unit_limit :: u64
  prioritization_fee :: u64

definition FeeBudgetLimits_from :: "ComputeBudgetLimits \<Rightarrow> FeeBudgetLimits" where
  "FeeBudgetLimits_from val =
     \<lparr>loaded_accounts_data_size_limit = loaded_accounts_bytes val,
      heap_cost = DEFAULT_HEAP_COST,
      fee_compute_unit_limit = ucast (compute_unit_limit val),
      prioritization_fee = get_prioritization_fee (compute_unit_price val) (ucast (compute_unit_limit val))\<rparr>"

section \<open>The filters compute what they cache\<close>

lemma first_byte_lt [simp]: "unat (first_byte key) < 256"
  using unat_lt_len [of "first_byte key"] by simp

lemma table_set_keeps:
  "length table = 256 \<Longrightarrow> n < 256 \<Longrightarrow> table ! n \<Longrightarrow>
     fold (\<lambda>(key, _) table. table[unat (first_byte key) := True]) costs table ! n"
  by (induction costs arbitrary: table) (auto simp: nth_list_update)

lemma table_set_key:
  "length table = 256 \<Longrightarrow> key \<in> fst ` set costs \<Longrightarrow>
     fold (\<lambda>(key, _) table. table[unat (first_byte key) := True]) costs table ! unat (first_byte key)"
proof (induction costs arbitrary: table)
  case (Cons c costs)
  obtain k v where c: "c = (k, v)" by fastforce
  show ?case
  proof (cases "key = k")
    case True
    with c Cons.prems(1) show ?thesis by (simp add: table_set_keeps)
  next
    case False
    with Cons c show ?thesis by auto
  qed
qed simp

lemma maybe_builtin_key:
  "BUILTIN_INSTRUCTION_COSTS env key \<noteq> None \<Longrightarrow> MAYBE_BUILTIN_KEY env ! unat (first_byte key)"
  unfolding MAYBE_BUILTIN_KEY_def
  by (rule table_set_key) (force simp: BUILTIN_INSTRUCTION_COSTS_def dest!: map_of_SomeD)+

lemma check_program_id_iff: "check_program_id env program_id \<longleftrightarrow> program_id = compute_budget_id env"
proof -
  have "BUILTIN_INSTRUCTION_COSTS env (compute_budget_id env) \<noteq> None"
    by (simp add: BUILTIN_INSTRUCTION_COSTS_def NON_MIGRATING_BUILTINS_COSTS_def)
  from maybe_builtin_key [OF this] show ?thesis by (auto simp: check_program_id_def)
qed

lemma map_of_const:
  "(\<forall>e \<in> set xs. snd e = c) \<Longrightarrow> map_of xs k = (if k \<in> fst ` set xs then Some c else None)"
  by (induction xs) auto

text \<open>The builtin programs, and those among them that count as builtins under a feature set.\<close>

definition counts_as_builtin :: "BudgetEnv \<Rightarrow> FeatureSet \<Rightarrow> Pubkey \<Rightarrow> bool" where
  "counts_as_builtin env is_active program_id \<longleftrightarrow>
     program_id \<in> fst ` set (NON_MIGRATING_BUILTINS_COSTS env) \<or>
     program_id = vote_id env \<and> \<not> is_active (bls_pubkey_management_in_vote_account_id env)"

lemma check_program_kind_eq:
  "check_program_kind env program_id =
     (if program_id \<in> fst ` set (NON_MIGRATING_BUILTINS_COSTS env) then Builtin
      else if program_id = vote_id env then MigratingBuiltin 0 else NotBuiltin)"
proof -
  have "check_program_kind env program_id =
    (case BUILTIN_INSTRUCTION_COSTS env program_id of
       None \<Rightarrow> NotBuiltin
     | Some c \<Rightarrow> (case position c of None \<Rightarrow> Builtin | Some i \<Rightarrow> MigratingBuiltin i))"
    using maybe_builtin_key [of env program_id]
    by (cases "BUILTIN_INSTRUCTION_COSTS env program_id")
      (auto simp: check_program_kind_def get_builtin_migration_feature_index_def split: option.split)
  moreover have all: "\<forall>e \<in> set (NON_MIGRATING_BUILTINS_COSTS env). snd e = NotMigrating"
    by (simp add: NON_MIGRATING_BUILTINS_COSTS_def)
  have "map_of (rev (NON_MIGRATING_BUILTINS_COSTS env)) program_id =
      (if program_id \<in> fst ` set (NON_MIGRATING_BUILTINS_COSTS env) then Some NotMigrating else None)"
    using map_of_const [of "rev (NON_MIGRATING_BUILTINS_COSTS env)" NotMigrating program_id] all by simp
  ultimately show ?thesis
    by (simp add: BUILTIN_INSTRUCTION_COSTS_def MIGRATING_BUILTINS_COSTS_def map_add_def)
qed

definition memo :: "('k \<Rightarrow> 'a) \<Rightarrow> (nat \<Rightarrow> 'k) \<Rightarrow> 'a option list \<Rightarrow> bool" where
  "memo check keys slots \<longleftrightarrow> (\<forall>i < length slots. \<forall>v. slots ! i = Some v \<longrightarrow> v = check (keys i))"

lemma memo_fresh [simp]: "memo check keys (replicate n None)"
  by (simp add: memo_def)

lemma get_or_insert_with_memo:
  assumes "memo check keys slots" and "index < length slots" and "keys index = k"
  obtains slots' where "get_or_insert_with slots index (check k) = Some (check k, slots')"
    and "memo check keys slots'" and "length slots' = length slots"
proof (cases "slots ! index")
  case None
  with assms that [of "slots[index := Some (check k)]"] show thesis
    by (auto simp: get_or_insert_with_def memo_def nth_list_update)
next
  case (Some v)
  with assms that [of slots] show thesis by (auto simp: get_or_insert_with_def memo_def)
qed

section \<open>What a transaction requests\<close>

definition budget_requests :: "BudgetEnv \<Rightarrow> (Pubkey \<times> SVMInstruction) list \<Rightarrow> ComputeBudgetInstruction option list" where
  "budget_requests env ixs =
     map (\<lambda>(_, ix). try_from_slice_unchecked env (data ix)) (filter (\<lambda>(p, _). p = compute_budget_id env) ixs)"

definition heap_requests :: "ComputeBudgetInstruction option list \<Rightarrow> u32 list" where
  "heap_requests reqs = concat (map (\<lambda>r. case r of Some (RequestHeapFrame v) \<Rightarrow> [v] | _ \<Rightarrow> []) reqs)"

definition limit_requests :: "ComputeBudgetInstruction option list \<Rightarrow> u32 list" where
  "limit_requests reqs = concat (map (\<lambda>r. case r of Some (SetComputeUnitLimit v) \<Rightarrow> [v] | _ \<Rightarrow> []) reqs)"

definition price_requests :: "ComputeBudgetInstruction option list \<Rightarrow> u64 list" where
  "price_requests reqs = concat (map (\<lambda>r. case r of Some (SetComputeUnitPrice v) \<Rightarrow> [v] | _ \<Rightarrow> []) reqs)"

definition loaded_requests :: "ComputeBudgetInstruction option list \<Rightarrow> u32 list" where
  "loaded_requests reqs =
     concat (map (\<lambda>r. case r of Some (SetLoadedAccountsDataSizeLimit v) \<Rightarrow> [v] | _ \<Rightarrow> []) reqs)"

lemmas requests_defs = heap_requests_def limit_requests_def price_requests_def loaded_requests_def

definition malformed :: "ComputeBudgetInstruction option list \<Rightarrow> bool" where
  "malformed reqs \<longleftrightarrow>
     None \<in> set reqs \<or> Some Unused \<in> set reqs \<or>
     1 < length (heap_requests reqs) \<or> 1 < length (limit_requests reqs) \<or>
     1 < length (price_requests reqs) \<or> 1 < length (loaded_requests reqs)"

lemma requests_snoc:
  "heap_requests (reqs @ [r]) = heap_requests reqs @ (case r of Some (RequestHeapFrame v) \<Rightarrow> [v] | _ \<Rightarrow> [])"
  "limit_requests (reqs @ [r]) = limit_requests reqs @ (case r of Some (SetComputeUnitLimit v) \<Rightarrow> [v] | _ \<Rightarrow> [])"
  "price_requests (reqs @ [r]) = price_requests reqs @ (case r of Some (SetComputeUnitPrice v) \<Rightarrow> [v] | _ \<Rightarrow> [])"
  "loaded_requests (reqs @ [r]) =
     loaded_requests reqs @ (case r of Some (SetLoadedAccountsDataSizeLimit v) \<Rightarrow> [v] | _ \<Rightarrow> [])"
  by (simp_all add: requests_defs)

lemma malformed_append: "malformed reqs \<Longrightarrow> malformed (reqs @ later)"
  by (auto simp: malformed_def requests_defs)

definition answers :: "(u8 \<times> 'v) option \<Rightarrow> 'v list \<Rightarrow> bool" where
  "answers r vs \<longleftrightarrow> (case r of None \<Rightarrow> vs = [] | Some (_, v) \<Rightarrow> vs = [v])"

lemma answers_simps [simp]: "answers None vs \<longleftrightarrow> vs = []" "answers (Some r) vs \<longleftrightarrow> vs = [snd r]"
  by (simp_all add: answers_def split: prod.split)

definition agrees :: "ComputeBudgetInstructionDetails \<Rightarrow> ComputeBudgetInstruction option list \<Rightarrow> bool" where
  "agrees details reqs \<longleftrightarrow>
     None \<notin> set reqs \<and> Some Unused \<notin> set reqs \<and>
     answers (requested_heap_size details) (heap_requests reqs) \<and>
     answers (requested_compute_unit_limit details) (limit_requests reqs) \<and>
     answers (requested_compute_unit_price details) (price_requests reqs) \<and>
     answers (requested_loaded_accounts_data_size_limit details) (loaded_requests reqs)"

lemma agrees_not_malformed: "agrees details reqs \<Longrightarrow> \<not> malformed reqs"
  by (auto simp: agrees_def malformed_def answers_def split: option.splits prod.splits)

definition builtin_counts :: "ComputeBudgetInstructionDetails \<Rightarrow> u16 \<times> u16 \<times> u16 list" where
  "builtin_counts details =
     (num_non_migratable_builtin_instructions details, num_non_builtin_instructions details,
      migrating_builtin details)"

lemma process_instruction_agrees:
  assumes "agrees details reqs" and "r = try_from_slice_unchecked env (data ix)"
  shows "case process_instruction env details index ix of
      Inl e \<Rightarrow> malformed (reqs @ [r])
    | Inr details' \<Rightarrow> agrees details' (reqs @ [r]) \<and> builtin_counts details' = builtin_counts details"
proof (cases r)
  case None
  with assms show ?thesis by (simp add: process_instruction_def malformed_def)
next
  case (Some req)
  with assms(2) have decode: "try_from_slice_unchecked env (data ix) = Some req" by simp
  show ?thesis
  proof (cases req)
    case Unused
    with decode assms(2) show ?thesis by (simp add: process_instruction_def malformed_def)
  next
    case (RequestHeapFrame v)
    with decode assms show ?thesis
      by (cases "requested_heap_size details") (auto simp: process_instruction_def malformed_def agrees_def
          requests_snoc builtin_counts_def)
  next
    case (SetComputeUnitLimit v)
    with decode assms show ?thesis
      by (cases "requested_compute_unit_limit details") (auto simp: process_instruction_def malformed_def
          agrees_def requests_snoc builtin_counts_def)
  next
    case (SetComputeUnitPrice v)
    with decode assms show ?thesis
      by (cases "requested_compute_unit_price details") (auto simp: process_instruction_def malformed_def
          agrees_def requests_snoc builtin_counts_def)
  next
    case (SetLoadedAccountsDataSizeLimit v)
    with decode assms show ?thesis
      by (cases "requested_loaded_accounts_data_size_limit details") (auto simp: process_instruction_def
          malformed_def agrees_def requests_snoc builtin_counts_def)
  qed
qed

definition sanitized :: "BudgetEnv \<Rightarrow> (nat \<Rightarrow> Pubkey) \<Rightarrow> (Pubkey \<times> SVMInstruction) list \<Rightarrow> bool" where
  "sanitized env keys ixs \<longleftrightarrow>
     (\<forall>(program_id, ix) \<in> set ixs. unat (program_id_index ix) < FILTER_SIZE env \<and>
        keys (unat (program_id_index ix)) = program_id)"

lemma collect_requests_agrees:
  assumes "agrees details reqs" and "sanitized env keys ixs"
    and "memo (check_program_id env) keys flags" and "length flags = FILTER_SIZE env"
  obtains r where "collect_requests env flags details i ixs = Some r"
    and "case r of Inl e \<Rightarrow> malformed (reqs @ budget_requests env ixs)
         | Inr details' \<Rightarrow> agrees details' (reqs @ budget_requests env ixs) \<and>
             builtin_counts details' = builtin_counts details"
  using assms
proof (induction ixs arbitrary: details reqs flags i thesis)
  case Nil
  then show ?case by (simp add: budget_requests_def)
next
  case (Cons instruction ixs)
  obtain p ix where instruction: "instruction = (p, ix)" by fastforce
  from Cons.prems(3) instruction have rest: "sanitized env keys ixs"
    and bound: "unat (program_id_index ix) < length flags" and key: "keys (unat (program_id_index ix)) = p"
    using Cons.prems(5) by (auto simp: sanitized_def)
  obtain flags' where is_budget: "is_compute_budget_program env flags (unat (program_id_index ix)) p =
        Some (p = compute_budget_id env, flags')"
    and memo': "memo (check_program_id env) keys flags'" and length': "length flags' = FILTER_SIZE env"
    using get_or_insert_with_memo [OF Cons.prems(4) bound key] Cons.prems(5)
    unfolding is_compute_budget_program_def check_program_id_iff [symmetric] by force
  note step = instruction is_budget
  show ?case
  proof (cases "p = compute_budget_id env")
    case False
    let ?d = "details \<lparr>num_non_compute_budget_instructions :=
        saturating_add (num_non_compute_budget_instructions details) 1\<rparr>"
    have counts: "builtin_counts ?d = builtin_counts details" by (simp add: builtin_counts_def)
    have reqs: "budget_requests env (instruction # ixs) = budget_requests env ixs"
      using False instruction by (simp add: budget_requests_def)
    from Cons.prems(2) have "agrees ?d reqs" by (simp add: agrees_def)
    from Cons.IH [OF _ this rest memo' length', of "Suc i"] obtain r where r:
      "collect_requests env flags' ?d (Suc i) ixs = Some r"
      "case r of Inl e \<Rightarrow> malformed (reqs @ budget_requests env ixs)
         | Inr details' \<Rightarrow> agrees details' (reqs @ budget_requests env ixs) \<and>
             builtin_counts details' = builtin_counts ?d" by blast
    from False r(1) have "collect_requests env flags details i (instruction # ixs) = Some r"
      by (simp add: step)
    from Cons.prems(1) [OF this] r(2) show ?thesis unfolding reqs counts by blast
  next
    case True
    note step = step is_budget [unfolded True]
    let ?r = "try_from_slice_unchecked env (data ix)"
    have reqs: "reqs @ budget_requests env (instruction # ixs) = (reqs @ [?r]) @ budget_requests env ixs"
      using True instruction by (simp add: budget_requests_def)
    show ?thesis
    proof (cases "process_instruction env details (word_of_nat i) ix")
      case (Inl e)
      with process_instruction_agrees [OF Cons.prems(2) refl, of env ix "word_of_nat i"]
      have "malformed (reqs @ budget_requests env (instruction # ixs))"
        unfolding reqs by (intro malformed_append [of "reqs @ [?r]"]) simp
      moreover from Inl True have "collect_requests env flags details i (instruction # ixs) = Some (Inl e)"
        by (simp add: step)
      ultimately show ?thesis using Cons.prems(1) [of "Inl e"] by simp
    next
      case (Inr d)
      with process_instruction_agrees [OF Cons.prems(2) refl, of env ix "word_of_nat i"]
      have d: "agrees d (reqs @ [?r])" "builtin_counts d = builtin_counts details" by simp_all
      from Cons.IH [OF _ d(1) rest memo' length', of "Suc i"] obtain r where r:
        "collect_requests env flags' d (Suc i) ixs = Some r"
        "case r of Inl e \<Rightarrow> malformed ((reqs @ [?r]) @ budget_requests env ixs)
           | Inr details' \<Rightarrow> agrees details' ((reqs @ [?r]) @ budget_requests env ixs) \<and>
               builtin_counts details' = builtin_counts d" by blast
      from Inr True r(1) have "collect_requests env flags details i (instruction # ixs) = Some r"
        by (simp add: step)
      from Cons.prems(1) [OF this] r(2) show ?thesis unfolding reqs d(2) by blast
    qed
  qed
qed

section \<open>Counting the builtins\<close>

definition kind_count :: "BudgetEnv \<Rightarrow> ProgramKind \<Rightarrow> (Pubkey \<times> SVMInstruction) list \<Rightarrow> nat" where
  "kind_count env kind ixs = length (filter (\<lambda>(p, _). check_program_kind env p = kind) ixs)"

lemma kind_count_simps [simp]:
  "kind_count env kind [] = 0"
  "kind_count env kind ((p, ix) # ixs) =
     (if check_program_kind env p = kind then Suc (kind_count env kind ixs) else kind_count env kind ixs)"
  by (simp_all add: kind_count_def)

lemma kind_cases:
  obtains "check_program_kind env p = Builtin" | "check_program_kind env p = NotBuiltin"
    | "check_program_kind env p = MigratingBuiltin 0"
  by (metis check_program_kind_eq)

definition saturated :: "nat \<Rightarrow> u16 \<Rightarrow> u16 \<Rightarrow> bool" where
  "saturated n before after \<longleftrightarrow> unat after = min (unat before + n) 65535"

lemma saturated_0 [simp]: "saturated 0 n n"
  using unat_lt_len [of n] by (simp add: saturated_def)

lemma saturated_Suc: "saturated n (saturating_add before 1) after \<Longrightarrow> saturated (Suc n) before after"
  by (simp add: saturated_def unat_ops)

definition counted :: "BudgetEnv \<Rightarrow> (Pubkey \<times> SVMInstruction) list \<Rightarrow>
    ComputeBudgetInstructionDetails \<Rightarrow> ComputeBudgetInstructionDetails \<Rightarrow> bool" where
  "counted env ixs d d' \<longleftrightarrow>
     length (migrating_builtin d') = 1 \<and>
     saturated (kind_count env Builtin ixs) (num_non_migratable_builtin_instructions d)
       (num_non_migratable_builtin_instructions d') \<and>
     saturated (kind_count env NotBuiltin ixs) (num_non_builtin_instructions d) (num_non_builtin_instructions d') \<and>
     saturated (kind_count env (MigratingBuiltin 0) ixs) (migrating_builtin d ! 0) (migrating_builtin d' ! 0)"

lemma collect_builtins_counts:
  assumes "sanitized env keys ixs" and "memo (check_program_kind env) keys kinds"
    and "length kinds = FILTER_SIZE env" and "length (migrating_builtin details) = 1"
  shows "\<exists>details'. collect_builtins env kinds details ixs = Some details' \<and>
    agrees details' = agrees details \<and> counted env ixs details details'"
  using assms
proof (induction ixs arbitrary: details kinds)
  case Nil
  then show ?case by (simp add: counted_def)
next
  case (Cons instruction ixs)
  obtain p ix where instruction: "instruction = (p, ix)" by fastforce
  from Cons.prems(1) instruction have rest: "sanitized env keys ixs"
    and bound: "unat (program_id_index ix) < length kinds" and key: "keys (unat (program_id_index ix)) = p"
    using Cons.prems(3) by (auto simp: sanitized_def)
  obtain kinds' where kind: "get_program_kind env kinds (unat (program_id_index ix)) p =
        Some (check_program_kind env p, kinds')"
    and memo': "memo (check_program_kind env) keys kinds'" and length': "length kinds' = FILTER_SIZE env"
    using get_or_insert_with_memo [OF Cons.prems(2) bound key] Cons.prems(3)
    unfolding get_program_kind_def by force
  note IH = Cons.IH [OF rest memo' length']
  note step = instruction kind Cons.prems(4) counted_def saturated_Suc
  have same: "agrees (details \<lparr>num_non_migratable_builtin_instructions := x\<rparr>) = agrees details"
    "agrees (details \<lparr>num_non_builtin_instructions := x\<rparr>) = agrees details"
    "agrees (details \<lparr>migrating_builtin := ms\<rparr>) = agrees details" for x ms
    by (simp_all add: agrees_def fun_eq_iff)
  show ?case
  proof (cases rule: kind_cases [of env p])
    case 1
    with IH [of "details \<lparr>num_non_migratable_builtin_instructions :=
        saturating_add (num_non_migratable_builtin_instructions details) 1\<rparr>"] show ?thesis
      by (auto simp: step same)
  next
    case 2
    with IH [of "details \<lparr>num_non_builtin_instructions := saturating_add (num_non_builtin_instructions details) 1\<rparr>"]
    show ?thesis by (auto simp: step same)
  next
    case 3
    with IH [of "details \<lparr>migrating_builtin :=
        (migrating_builtin details)[0 := saturating_add (migrating_builtin details ! 0) 1]\<rparr>"]
    show ?thesis by (auto simp: step same)
  qed
qed

text \<open>
  The default limit in exact arithmetic: the counters and products saturate, but only above the
  largest limit a transaction may have.
\<close>

lemma default_limit_exact:
  fixes x y z w :: u16
  assumes "unat x = min a 65535" "unat y = min b 65535" "unat z = min c 65535" "unat w = min d 65535"
  shows "unat (min (saturating_add
        (saturating_mul (saturating_add (ucast x) (ucast y)) MAX_BUILTIN_ALLOCATION_COMPUTE_UNIT_LIMIT)
        (saturating_mul (saturating_add (ucast z) (ucast w)) DEFAULT_INSTRUCTION_COMPUTE_UNIT_LIMIT))
      MAX_COMPUTE_UNIT_LIMIT) = min (3000 * (a + b) + 200000 * (c + d)) 1400000"
proof -
  have small: "min (unat n + unat m) 4294967295 = unat n + unat m" for n m :: u16
    using unat_lt_len [of n] unat_lt_len [of m] by simp
  have "min (min (min ((a' + b') * 3000) M + min ((c' + d') * 200000) M) M) 1400000 =
      min (3000 * (a + b) + 200000 * (c + d)) 1400000"
    if "a' = min a 65535" "b' = min b 65535" "c' = min c 65535" "d' = min d 65535" "M = 4294967295"
    for a' b' c' d' M :: nat
    unfolding that by (simp add: min_def)
  from this [OF assms refl] show ?thesis
    by (simp add: budget_constants unat_ops unat_ucast_up small)
qed

lemma builtin_filter_counts:
  defines "mig env is_active \<equiv> is_active (bls_pubkey_management_in_vote_account_id env)"
  shows "length (filter (\<lambda>(p, _). counts_as_builtin env is_active p) ixs) =
      kind_count env Builtin ixs + (if mig env is_active then 0 else kind_count env (MigratingBuiltin 0) ixs)"
    and "length (filter (\<lambda>(p, _). \<not> counts_as_builtin env is_active p) ixs) =
      kind_count env NotBuiltin ixs + (if mig env is_active then kind_count env (MigratingBuiltin 0) ixs else 0)"
  unfolding mig_def by (cases "is_active (bls_pubkey_management_in_vote_account_id env)"; induction ixs;
      simp add: counts_as_builtin_def check_program_kind_eq split_paired_all)+

lemma calculate_default_compute_unit_limit_eq:
  assumes "counted env ixs (ComputeBudgetInstructionDetails_default env) details"
  obtains units where "calculate_default_compute_unit_limit env is_active details = Some units"
    and "unat (min units MAX_COMPUTE_UNIT_LIMIT) =
      min (3000 * length (filter (\<lambda>(p, _). counts_as_builtin env is_active p) ixs) +
           200000 * length (filter (\<lambda>(p, _). \<not> counts_as_builtin env is_active p) ixs)) 1400000"
proof -
  let ?active = "is_active (bls_pubkey_management_in_vote_account_id env)"
  obtain m where m: "migrating_builtin details = [m]"
    using assms by (auto simp: counted_def length_Suc_conv)
  have counts: "unat (num_non_migratable_builtin_instructions details) = min (kind_count env Builtin ixs) 65535"
    "unat (num_non_builtin_instructions details) = min (kind_count env NotBuiltin ixs) 65535"
    "unat m = min (kind_count env (MigratingBuiltin 0) ixs) 65535"
    using assms m
    by (simp_all add: counted_def saturated_def ComputeBudgetInstructionDetails_default_def MIGRATING_BUILTINS_COSTS_def)
  have migrated: "count_migrated env is_active 0 [m] (0, 0) = Some (if m > 0 \<and> ?active then (m, 0) else (0, m))"
    by (simp add: get_migration_feature_id_def MIGRATING_BUILTINS_COSTS_def)
  show thesis
  proof (cases ?active)
    case True
    with migrated have "count_migrated env is_active 0 (migrating_builtin details) (0, 0) = Some (m, 0)"
      by (cases "m > 0") (simp_all add: m word_gt_0)
    with True default_limit_exact [OF counts(1) _ counts(2,3), of 0 0] show thesis
      by (intro that) (simp_all add: calculate_default_compute_unit_limit_def builtin_filter_counts)
  next
    case False
    with migrated have "count_migrated env is_active 0 (migrating_builtin details) (0, 0) = Some (0, m)"
      by (simp add: m)
    with False default_limit_exact [OF counts(1,3,2), of 0 0] show thesis
      by (intro that) (simp_all add: calculate_default_compute_unit_limit_def builtin_filter_counts)
  qed
qed

section \<open>The limits of a transaction\<close>

lemma try_from_details:
  assumes "sanitized env keys ixs"
  obtains e where "try_from env ixs = Some (Inl e)" and "malformed (budget_requests env ixs)"
  | details where "try_from env ixs = Some (Inr details)" and "agrees details (budget_requests env ixs)"
      and "requested_compute_unit_limit details = None \<Longrightarrow>
        counted env ixs (ComputeBudgetInstructionDetails_default env) details"
proof -
  let ?default = "ComputeBudgetInstructionDetails_default env"
  have start: "agrees ?default []"
    by (simp add: agrees_def ComputeBudgetInstructionDetails_default_def requests_defs)
  have filter: "memo (check_program_id env) keys (ComputeBudgetProgramIdFilter_new env)"
    "length (ComputeBudgetProgramIdFilter_new env) = FILTER_SIZE env"
    by (simp_all add: ComputeBudgetProgramIdFilter_new_def)
  obtain r where r: "collect_requests env (ComputeBudgetProgramIdFilter_new env) ?default 0 ixs = Some r"
    "case r of Inl e \<Rightarrow> malformed (budget_requests env ixs)
     | Inr d \<Rightarrow> agrees d (budget_requests env ixs) \<and> builtin_counts d = builtin_counts ?default"
    using collect_requests_agrees [OF start assms filter, of 0, unfolded append_Nil] by blast
  show thesis
  proof (cases r)
    case (Inl e)
    with r that(1) [of e] show thesis by (simp add: try_from_def)
  next
    case (Inr d)
    with r have d: "agrees d (budget_requests env ixs)" "builtin_counts d = builtin_counts ?default" by simp_all
    then have "length (migrating_builtin d) = 1"
      by (simp add: builtin_counts_def ComputeBudgetInstructionDetails_default_def MIGRATING_BUILTINS_COSTS_def)
    with assms obtain d' where d': "collect_builtins env (BuiltinProgramsFilter_new env) d ixs = Some d'"
      "agrees d' = agrees d" "counted env ixs d d'"
      using collect_builtins_counts [of env keys ixs "BuiltinProgramsFilter_new env" d]
      by (auto simp: BuiltinProgramsFilter_new_def)
    show thesis
    proof (cases "requested_compute_unit_limit d")
      case None
      from d(2) d'(3) have "counted env ixs ?default d'" by (simp add: counted_def builtin_counts_def)
      with None d(1) d'(1,2) r(1) Inr that(2) [of d'] show thesis by (simp add: try_from_def)
    next
      case (Some limit)
      with d(1) r(1) Inr that(2) [of d] show thesis by (simp add: try_from_def)
    qed
  qed
qed

lemma mod_1024_iff: "(v :: u32) mod 1024 = 0 \<longleftrightarrow> 1024 dvd unat v"
  by (simp add: word_unat_eq_iff unat_mod dvd_eq_mod_eq_0)

lemma last_answers: "answers r vs \<Longrightarrow> last (v # vs) = (case r of None \<Rightarrow> v | Some (_, v) \<Rightarrow> v)"
  by (cases r) auto

text \<open>C16: For sanitized instructions (each program index within the filters and naming one program)
  the processing of compute budget instructions does not panic. It fails exactly when a compute
  budget instruction cannot be decoded, two instructions request the same thing, a requested heap size is
  not a multiple of 1024 between 32 KiB and 256 KiB, or the requested size of loaded accounts is
  zero. Otherwise each limit is the requested or default value, clamped: the default compute unit
  limit is 3000 for every builtin instruction and 200000 for every other one, computed exactly in
  spite of the saturating 16 and 32 bit counters, with programs whose migration is active counted as
  not builtin.\<close>

theorem process_compute_budget_spec:
  assumes "sanitized env keys ixs" and "HEAP_LENGTH env = 32768" and reqs: "reqs = budget_requests env ixs"
  shows "\<exists>r. process_compute_budget_instructions env is_active ixs = Some r \<and>
    (isl r \<longleftrightarrow> malformed reqs \<or>
       (\<exists>v \<in> set (heap_requests reqs). \<not> (32768 \<le> unat v \<and> unat v \<le> 262144 \<and> 1024 dvd unat v)) \<or>
       0 \<in> set (loaded_requests reqs)) \<and>
    (\<forall>l. r = Inr l \<longrightarrow>
       updated_heap_bytes l = last (32768 # heap_requests reqs) \<and>
       unat (compute_unit_limit l) =
         min (case limit_requests reqs of
                v # _ \<Rightarrow> unat v
              | [] \<Rightarrow> 3000 * length (filter (\<lambda>(p, _). counts_as_builtin env is_active p) ixs) +
                     200000 * length (filter (\<lambda>(p, _). \<not> counts_as_builtin env is_active p) ixs)) 1400000 \<and>
       compute_unit_price l = last (0 # price_requests reqs) \<and>
       unat (loaded_accounts_bytes l) = min (unat (last (67108864 # loaded_requests reqs))) 67108864)"
proof (cases rule: try_from_details [OF assms(1)])
  case (1 e)
  then show ?thesis by (simp add: process_compute_budget_instructions_def reqs)
next
  case (2 d)
  note agree = 2(2) [folded reqs]
  from agree have ok: "\<not> malformed reqs" by (rule agrees_not_malformed)
  let ?process = "sanitize_and_convert_to_compute_budget_limits env is_active d"
  have process: "process_compute_budget_instructions env is_active ixs = ?process"
    using 2(1) by (simp add: process_compute_budget_instructions_def)
  obtain units where units: "(case requested_compute_unit_limit d of
      None \<Rightarrow> calculate_default_compute_unit_limit env is_active d | Some (_, v) \<Rightarrow> Some v) = Some units"
    "unat (min units MAX_COMPUTE_UNIT_LIMIT) =
       min (case limit_requests reqs of
                v # _ \<Rightarrow> unat v
              | [] \<Rightarrow> 3000 * length (filter (\<lambda>(p, _). counts_as_builtin env is_active p) ixs) +
                     200000 * length (filter (\<lambda>(p, _). \<not> counts_as_builtin env is_active p) ixs)) 1400000"
  proof (cases "requested_compute_unit_limit d")
    case None
    with agree have "limit_requests reqs = []" by (simp add: agrees_def)
    with None calculate_default_compute_unit_limit_eq [OF 2(3) [OF None], of is_active] that show thesis
      by auto
  next
    case (Some r)
    with agree have "limit_requests reqs = [snd r]" by (simp add: agrees_def)
    with Some that [of "snd r"] show thesis
      by (simp add: case_prod_unfold unat_ops MAX_COMPUTE_UNIT_LIMIT_def)
  qed
  have heap: "sanitize_requested_heap_size env v \<longleftrightarrow> 32768 \<le> unat v \<and> unat v \<le> 262144 \<and> 1024 dvd unat v" for v
    using assms(2) by (simp add: sanitize_requested_heap_size_def budget_constants mod_1024_iff word_le_nat_alt)
  have answer: "answers (requested_heap_size d) (heap_requests reqs)"
    "answers (requested_loaded_accounts_data_size_limit d) (loaded_requests reqs)"
    and price: "(case requested_compute_unit_price d of None \<Rightarrow> 0 | Some (_, v) \<Rightarrow> v) = last (0 # price_requests reqs)"
    using agree last_answers [of "requested_compute_unit_price d" "price_requests reqs" 0] by (simp_all add: agrees_def)
  note convert = sanitize_and_convert_to_compute_budget_limits_def units price ok
  show ?thesis
  proof (cases "\<exists>v \<in> set (heap_requests reqs). \<not> sanitize_requested_heap_size env v")
    case True
    with answer(1) show ?thesis unfolding process heap [symmetric]
      by (cases "requested_heap_size d") (simp_all add: convert case_prod_unfold)
  next
    case False
    let ?bytes = "last (32768 # heap_requests reqs)"
    have bytes: "(case requested_heap_size d of
        Some (i, v) \<Rightarrow> if sanitize_requested_heap_size env v then Inr v else Inl (InstructionError i InvalidInstructionData)
      | None \<Rightarrow> Inr (MIN_HEAP_FRAME_BYTES env)) = Inr ?bytes"
      using answer(1) False assms(2)
      by (cases "requested_heap_size d") (simp_all add: case_prod_unfold MIN_HEAP_FRAME_BYTES_def)
    have "min ?bytes MAX_HEAP_FRAME_BYTES = ?bytes"
      using answer(1) False
      by (cases "requested_heap_size d") (simp_all add: sanitize_requested_heap_size_def MAX_HEAP_FRAME_BYTES_def)
    with False answer(2) show ?thesis unfolding process heap [symmetric]
      by (cases "requested_loaded_accounts_data_size_limit d")
        (simp_all add: convert bytes case_prod_unfold unat_min [of _ 67108864] MAX_LOADED_ACCOUNTS_DATA_SIZE_BYTES_def)
  qed
qed

definition demo_budget_env :: BudgetEnv where
  "demo_budget_env = \<lparr>vote_id = 1, system_program_id = 2, compute_budget_id = 3,
     bpf_loader_upgradeable_id = 4, bpf_loader_deprecated_id = 5, bpf_loader_id = 6, loader_v4_id = 7,
     secp256k1_program_id = 8, ed25519_program_id = 9, bls_pubkey_management_in_vote_account_id = 10,
     HEAP_LENGTH = 32768, PACKET_DATA_SIZE = 1232,
     try_from_slice_unchecked = (\<lambda>bytes. if bytes = [1] then Some (RequestHeapFrame 65536) else None)\<rparr>"

definition demo_ixs :: "(Pubkey \<times> SVMInstruction) list" where
  "demo_ixs =
     [(3, \<lparr>program_id_index = 3, accounts = [], data = [1]\<rparr>),
      (1, \<lparr>program_id_index = 1, accounts = [], data = []\<rparr>),
      (20, \<lparr>program_id_index = 20, accounts = [], data = []\<rparr>)]"

theorem process_compute_budget_spec_witness:
  "sanitized demo_budget_env of_nat demo_ixs \<and> HEAP_LENGTH demo_budget_env = 32768 \<and>
   (\<exists>l. process_compute_budget_instructions demo_budget_env (\<lambda>_. False) demo_ixs = Some (Inr l) \<and>
      updated_heap_bytes l = 65536 \<and> unat (compute_unit_limit l) = 206000)"
proof -
  have ok: "sanitized demo_budget_env of_nat demo_ixs"
    by (simp add: sanitized_def demo_budget_env_def demo_ixs_def FILTER_SIZE_def)
  have heap: "HEAP_LENGTH demo_budget_env = 32768" by (simp add: demo_budget_env_def)
  have reqs: "budget_requests demo_budget_env demo_ixs = [Some (RequestHeapFrame 65536)]"
    by (simp add: budget_requests_def demo_budget_env_def demo_ixs_def)
  have counts: "length (filter (\<lambda>(p, _). counts_as_builtin demo_budget_env (\<lambda>_. False) p) demo_ixs) = 2"
    "length (filter (\<lambda>(p, _). \<not> counts_as_builtin demo_budget_env (\<lambda>_. False) p) demo_ixs) = 1"
    by (simp_all add: counts_as_builtin_def NON_MIGRATING_BUILTINS_COSTS_def demo_budget_env_def demo_ixs_def)
  obtain r where "process_compute_budget_instructions demo_budget_env (\<lambda>_. False) demo_ixs = Some r"
    "\<not> isl r" "\<And>l. r = Inr l \<Longrightarrow> updated_heap_bytes l = 65536 \<and> unat (compute_unit_limit l) = 206000"
    using process_compute_budget_spec [OF ok heap reqs [symmetric], of "\<lambda>_. False"]
    by (auto simp: malformed_def requests_defs counts)
  with ok heap show ?thesis by (cases r) auto
qed

text \<open>C17: The prioritization fee is the product of price and limit in micro-lamports, rounded up to
  lamports and capped at the largest 64 bit value: the 128 bit product and sum do not saturate.\<close>

theorem get_prioritization_fee_exact:
  "unat (get_prioritization_fee unit_price unit_limit) =
     min ((unat unit_price * unat unit_limit + 999999) div 1000000) (2 ^ 64 - 1)"
proof -
  have "unat unit_price * unat unit_limit \<le> (2 ^ 64 - 1) * (2 ^ 64 - 1)"
    using unat_lt_len [of unit_price] unat_lt_len [of unit_limit] by (intro mult_mono) simp_all
  then have bound: "unat unit_price * unat unit_limit + 999999 < 2 ^ 128" by simp
  let ?fee = "saturating_add (saturating_mul (ucast unit_price :: u128) (ucast unit_limit))
      (ucast (saturating_sub MICRO_LAMPORTS_PER_LAMPORT 1)) div ucast MICRO_LAMPORTS_PER_LAMPORT"
  have fee: "unat ?fee = (unat unit_price * unat unit_limit + 999999) div 1000000"
    using bound by (simp add: unat_div unat_ops unat_ucast_up MICRO_LAMPORTS_PER_LAMPORT_def)
  show ?thesis
  proof (cases "unat ?fee < 2 ^ 64")
    case True
    then have "unat (ucast ?fee :: u64) = unat ?fee" by (simp add: unsigned_ucast_eq take_bit_nat_eq_self)
    with True fee show ?thesis unfolding get_prioritization_fee_def Let_def by simp
  next
    case False
    with fee show ?thesis unfolding get_prioritization_fee_def Let_def by (simp add: unat_max_word)
  qed
qed

end
