(* ===== verification/CostModel.thy ===== *)
theory CostModel
  imports ComputeBudget
begin

text \<open>
  The cost of a transaction in compute units: \<^verbatim>\<open>cost-model/src/block_cost_limits.rs\<close>,
  \<^verbatim>\<open>cost-model/src/transaction_cost.rs\<close> and
  \<^verbatim>\<open>cost-model/src/cost_model.rs\<close>. The cost of memory (\<open>FeeStructure\<close>), the decoding of
  system instructions and the constants of other crates are fields of \<open>CostEnv\<close>. The lemmas
  show that the cost charged after execution stays within the estimate made before it, and that the
  allocation of account data is summed exactly.
\<close>

section \<open>Limits of a block\<close>

definition COMPUTE_UNIT_TO_US_RATIO :: u64 where "COMPUTE_UNIT_TO_US_RATIO = 30"
definition SIGNATURE_COST :: u64 where "SIGNATURE_COST = COMPUTE_UNIT_TO_US_RATIO * 24"
definition SECP256K1_VERIFY_COST :: u64 where "SECP256K1_VERIFY_COST = COMPUTE_UNIT_TO_US_RATIO * 223"
definition ED25519_VERIFY_STRICT_COST :: u64 where "ED25519_VERIFY_STRICT_COST = COMPUTE_UNIT_TO_US_RATIO * 80"
definition SECP256R1_VERIFY_COST :: u64 where "SECP256R1_VERIFY_COST = COMPUTE_UNIT_TO_US_RATIO * 160"
definition WRITE_LOCK_UNITS :: u64 where "WRITE_LOCK_UNITS = COMPUTE_UNIT_TO_US_RATIO * 10"
definition INSTRUCTION_DATA_BYTES_COST :: u64 where "INSTRUCTION_DATA_BYTES_COST = 140 div COMPUTE_UNIT_TO_US_RATIO"
definition MAX_BLOCK_UNITS_SIMD_0256 :: u64 where "MAX_BLOCK_UNITS_SIMD_0256 = 60000000"
definition MAX_BLOCK_UNITS_SIMD_0286 :: u64 where "MAX_BLOCK_UNITS_SIMD_0286 = 100000000"
definition MAX_BLOCK_UNITS :: u64 where "MAX_BLOCK_UNITS = MAX_BLOCK_UNITS_SIMD_0256"
definition MAX_WRITABLE_ACCOUNT_UNITS :: u64 where "MAX_WRITABLE_ACCOUNT_UNITS = 24000000"
definition MAX_VOTE_UNITS :: u64 where "MAX_VOTE_UNITS = 36000000"
definition MAX_BLOCK_ACCOUNTS_DATA_SIZE_DELTA :: u64 where "MAX_BLOCK_ACCOUNTS_DATA_SIZE_DELTA = 100000000"
definition simd_0286_block_limits :: u64 where "simd_0286_block_limits = MAX_BLOCK_UNITS_SIMD_0286"

lemmas cost_constants =
  COMPUTE_UNIT_TO_US_RATIO_def SIGNATURE_COST_def SECP256K1_VERIFY_COST_def ED25519_VERIFY_STRICT_COST_def
  SECP256R1_VERIFY_COST_def WRITE_LOCK_UNITS_def INSTRUCTION_DATA_BYTES_COST_def MAX_BLOCK_UNITS_def
  MAX_BLOCK_UNITS_SIMD_0256_def MAX_WRITABLE_ACCOUNT_UNITS_def MAX_VOTE_UNITS_def
  MAX_BLOCK_ACCOUNTS_DATA_SIZE_DELTA_def

section \<open>Transactions and their cost\<close>

record TransactionSignatureDetails =
  transaction_signatures :: u64
  secp256k1_signatures :: u64
  ed25519_signatures :: u64
  secp256r1_signatures :: u64

record CostTransaction = RuntimeTransaction +
  is_simple_vote_transaction :: bool
  signature_details :: TransactionSignatureDetails
  compute_budget_instruction_details :: ComputeBudgetInstructionDetails
  instruction_data_len :: u16
  num_write_locks :: u64
  program_instructions :: "(Pubkey \<times> SVMInstruction) list"

record UsageCostDetails =
  usage_transaction :: CostTransaction
  usage_signature_cost :: u64
  usage_write_lock_cost :: u64
  usage_data_bytes_cost :: u16
  usage_programs_execution_cost :: u64
  usage_loaded_accounts_data_size_cost :: u64
  usage_allocated_accounts_data_size :: u64

datatype TransactionCost = SimpleVote CostTransaction | Transaction UsageCostDetails

definition SIMPLE_VOTE_USAGE_COST :: u64 where "SIMPLE_VOTE_USAGE_COST = 3428"
definition DEFAULT_COMPUTE_UNITS :: u64 where "DEFAULT_COMPUTE_UNITS = 2100"

definition UsageCostDetails_sum :: "UsageCostDetails \<Rightarrow> u64" where
  "UsageCostDetails_sum usage =
     saturating_add (saturating_add (saturating_add (saturating_add
       (usage_signature_cost usage) (usage_write_lock_cost usage))
       (ucast (usage_data_bytes_cost usage))) (usage_programs_execution_cost usage))
       (usage_loaded_accounts_data_size_cost usage)"

fun cost_sum :: "TransactionCost \<Rightarrow> u64" where
  "cost_sum (SimpleVote _) = SIMPLE_VOTE_USAGE_COST"
| "cost_sum (Transaction usage) = UsageCostDetails_sum usage"

fun programs_execution_cost :: "TransactionCost \<Rightarrow> u64" where
  "programs_execution_cost (SimpleVote _) = DEFAULT_COMPUTE_UNITS"
| "programs_execution_cost (Transaction usage) = usage_programs_execution_cost usage"

fun should_track_as_simple_vote :: "TransactionCost \<Rightarrow> bool" where
  "should_track_as_simple_vote (SimpleVote _) = True"
| "should_track_as_simple_vote (Transaction _) = False"

fun data_bytes_cost :: "TransactionCost \<Rightarrow> u16" where
  "data_bytes_cost (SimpleVote _) = 0"
| "data_bytes_cost (Transaction usage) = usage_data_bytes_cost usage"

fun allocated_accounts_data_size :: "TransactionCost \<Rightarrow> u64" where
  "allocated_accounts_data_size (SimpleVote _) = 0"
| "allocated_accounts_data_size (Transaction usage) = usage_allocated_accounts_data_size usage"

fun loaded_accounts_data_size_cost :: "TransactionCost \<Rightarrow> u64" where
  "loaded_accounts_data_size_cost (SimpleVote _) = 8"
| "loaded_accounts_data_size_cost (Transaction usage) = usage_loaded_accounts_data_size_cost usage"

fun signature_cost :: "TransactionCost \<Rightarrow> u64" where
  "signature_cost (SimpleVote _) = SIGNATURE_COST"
| "signature_cost (Transaction usage) = usage_signature_cost usage"

fun write_lock_cost :: "TransactionCost \<Rightarrow> u64" where
  "write_lock_cost (SimpleVote _) = saturating_mul WRITE_LOCK_UNITS 2"
| "write_lock_cost (Transaction usage) = usage_write_lock_cost usage"

fun cost_transaction :: "TransactionCost \<Rightarrow> CostTransaction" where
  "cost_transaction (SimpleVote tx) = tx"
| "cost_transaction (Transaction usage) = usage_transaction usage"

definition writable_accounts :: "TransactionCost \<Rightarrow> Pubkey list" where
  "writable_accounts cost =
     (let tx = cost_transaction cost
      in map snd (filter (\<lambda>(index, key). is_writable tx index) (enumerate 0 (account_keys tx))))"

fun num_transaction_signatures :: "TransactionCost \<Rightarrow> u64" where
  "num_transaction_signatures (SimpleVote _) = 1"
| "num_transaction_signatures (Transaction usage) =
     transaction_signatures (signature_details (usage_transaction usage))"

fun num_secp256k1_instruction_signatures :: "TransactionCost \<Rightarrow> u64" where
  "num_secp256k1_instruction_signatures (SimpleVote _) = 0"
| "num_secp256k1_instruction_signatures (Transaction usage) =
     secp256k1_signatures (signature_details (usage_transaction usage))"

fun num_ed25519_instruction_signatures :: "TransactionCost \<Rightarrow> u64" where
  "num_ed25519_instruction_signatures (SimpleVote _) = 0"
| "num_ed25519_instruction_signatures (Transaction usage) =
     ed25519_signatures (signature_details (usage_transaction usage))"

fun num_secp256r1_instruction_signatures :: "TransactionCost \<Rightarrow> u64" where
  "num_secp256r1_instruction_signatures (SimpleVote _) = 0"
| "num_secp256r1_instruction_signatures (Transaction usage) =
     secp256r1_signatures (signature_details (usage_transaction usage))"

section \<open>The cost model\<close>

datatype SystemInstruction =
    CreateAccount u64 u64 Pubkey
  | Assign Pubkey
  | Transfer u64
  | CreateAccountWithSeed Pubkey string u64 u64 Pubkey
  | AdvanceNonceAccount
  | WithdrawNonceAccount u64
  | InitializeNonceAccount Pubkey
  | AuthorizeNonceAccount Pubkey
  | Allocate u64
  | AllocateWithSeed Pubkey string u64 Pubkey
  | AssignWithSeed Pubkey string Pubkey
  | TransferWithSeed u64 string Pubkey
  | UpgradeNonceAccount
  | CreateAccountAllowPrefund u64 u64 Pubkey

record CostEnv =
  budget_env :: BudgetEnv
  calculate_memory_usage_cost :: "u32 \<Rightarrow> u64 \<Rightarrow> u64"
  limited_deserialize :: "u8 list \<Rightarrow> nat \<Rightarrow> SystemInstruction option"
  MAX_PERMITTED_DATA_LENGTH :: u64
  MAX_PERMITTED_ACCOUNTS_DATA_ALLOCATIONS_PER_TRANSACTION :: u64
  remove_simple_vote_from_cost_model_id :: Pubkey
  create_account_allow_prefund_id :: Pubkey

datatype SystemProgramAccountAllocation = NoAllocation | SomeAllocation u64 | FailedAllocation

definition get_signature_cost :: "CostTransaction \<Rightarrow> u64" where
  "get_signature_cost tx =
     (let details = signature_details tx
      in saturating_add (saturating_add (saturating_add
           (saturating_mul (transaction_signatures details) SIGNATURE_COST)
           (saturating_mul (secp256k1_signatures details) SECP256K1_VERIFY_COST))
           (saturating_mul (ed25519_signatures details) ED25519_VERIFY_STRICT_COST))
           (saturating_mul (secp256r1_signatures details) SECP256R1_VERIFY_COST))"

definition get_write_lock_cost :: "u64 \<Rightarrow> u64" where
  "get_write_lock_cost write_locks = saturating_mul WRITE_LOCK_UNITS write_locks"

definition calculate_loaded_accounts_data_size_cost :: "CostEnv \<Rightarrow> u32 \<Rightarrow> u64" where
  "calculate_loaded_accounts_data_size_cost env loaded_accounts_data_size =
     calculate_memory_usage_cost env loaded_accounts_data_size DEFAULT_HEAP_COST"

definition get_estimated_execution_cost :: "CostEnv \<Rightarrow> FeatureSet \<Rightarrow> CostTransaction \<Rightarrow> (u64 \<times> u64) option" where
  "get_estimated_execution_cost env is_active tx = do {
     limits \<leftarrow> sanitize_and_convert_to_compute_budget_limits (budget_env env) is_active
       (compute_budget_instruction_details tx);
     Some (case limits of
       Inr limits \<Rightarrow>
         (ucast (compute_unit_limit limits),
          calculate_loaded_accounts_data_size_cost env (loaded_accounts_bytes limits))
     | Inl _ \<Rightarrow> (0, 0)) }"

definition get_instructions_data_cost :: "CostTransaction \<Rightarrow> u16" where
  "get_instructions_data_cost tx = instruction_data_len tx div ucast INSTRUCTION_DATA_BYTES_COST"

definition validate_space :: "CostEnv \<Rightarrow> u64 \<Rightarrow> SystemProgramAccountAllocation" where
  "validate_space env space =
     (if space > MAX_PERMITTED_DATA_LENGTH env then FailedAllocation else SomeAllocation space)"

fun calculate_account_data_size_on_deserialized_system_instruction ::
    "CostEnv \<Rightarrow> FeatureSet \<Rightarrow> SystemInstruction \<Rightarrow> SystemProgramAccountAllocation" where
  "calculate_account_data_size_on_deserialized_system_instruction env is_active (CreateAccount _ space _) =
     validate_space env space"
| "calculate_account_data_size_on_deserialized_system_instruction env is_active
     (CreateAccountWithSeed _ _ _ space _) = validate_space env space"
| "calculate_account_data_size_on_deserialized_system_instruction env is_active (Allocate space) =
     validate_space env space"
| "calculate_account_data_size_on_deserialized_system_instruction env is_active
     (AllocateWithSeed _ _ space _) = validate_space env space"
| "calculate_account_data_size_on_deserialized_system_instruction env is_active
     (CreateAccountAllowPrefund _ space _) =
     (if \<not> is_active (create_account_allow_prefund_id env) then FailedAllocation else validate_space env space)"
| "calculate_account_data_size_on_deserialized_system_instruction env is_active _ = NoAllocation"

definition calculate_account_data_size_on_instruction ::
    "CostEnv \<Rightarrow> FeatureSet \<Rightarrow> Pubkey \<Rightarrow> SVMInstruction \<Rightarrow> SystemProgramAccountAllocation" where
  "calculate_account_data_size_on_instruction env is_active program_id ix =
     (if program_id = system_program_id (budget_env env)
      then (case limited_deserialize env (data ix) (PACKET_DATA_SIZE (budget_env env)) of
              Some sys \<Rightarrow> calculate_account_data_size_on_deserialized_system_instruction env is_active sys
            | None \<Rightarrow> FailedAllocation)
      else NoAllocation)"

fun sum_allocations :: "SystemProgramAccountAllocation list \<Rightarrow> u64 \<Rightarrow> u64 option" where
  "sum_allocations [] attempted = Some attempted"
| "sum_allocations (FailedAllocation # rest) attempted = None"
| "sum_allocations (NoAllocation # rest) attempted = sum_allocations rest attempted"
| "sum_allocations (SomeAllocation n # rest) attempted = sum_allocations rest (saturating_add attempted n)"

definition calculate_allocated_accounts_data_size ::
    "CostEnv \<Rightarrow> FeatureSet \<Rightarrow> (Pubkey \<times> SVMInstruction) list \<Rightarrow> u64" where
  "calculate_allocated_accounts_data_size env is_active ixs =
     (case sum_allocations
         (map (\<lambda>(program_id, ix). calculate_account_data_size_on_instruction env is_active program_id ix) ixs) 0 of
        None \<Rightarrow> 0
      | Some attempted \<Rightarrow> min (MAX_PERMITTED_ACCOUNTS_DATA_ALLOCATIONS_PER_TRANSACTION env) attempted)"

definition calculate_non_vote_transaction_cost ::
    "CostEnv \<Rightarrow> FeatureSet \<Rightarrow> CostTransaction \<Rightarrow> (Pubkey \<times> SVMInstruction) list \<Rightarrow> u64 \<Rightarrow> u64 \<Rightarrow> u64 \<Rightarrow> u16 \<Rightarrow>
     TransactionCost" where
  "calculate_non_vote_transaction_cost env is_active tx ixs write_locks execution loaded data_bytes =
     Transaction
       \<lparr>usage_transaction = tx,
        usage_signature_cost = get_signature_cost tx,
        usage_write_lock_cost = get_write_lock_cost write_locks,
        usage_data_bytes_cost = data_bytes,
        usage_programs_execution_cost = execution,
        usage_loaded_accounts_data_size_cost = loaded,
        usage_allocated_accounts_data_size = calculate_allocated_accounts_data_size env is_active ixs\<rparr>"

definition estimate_cost ::
    "CostEnv \<Rightarrow> FeatureSet \<Rightarrow> CostTransaction \<Rightarrow> (Pubkey \<times> SVMInstruction) list \<Rightarrow> u64 \<Rightarrow> TransactionCost option" where
  "estimate_cost env is_active tx ixs write_locks =
     (if is_simple_vote_transaction tx \<and> \<not> is_active (remove_simple_vote_from_cost_model_id env)
      then Some (SimpleVote tx)
      else do {
        (execution, loaded) \<leftarrow> get_estimated_execution_cost env is_active tx;
        Some (calculate_non_vote_transaction_cost env is_active tx ixs write_locks execution loaded
          (get_instructions_data_cost tx)) })"

definition calculate_cost :: "CostEnv \<Rightarrow> FeatureSet \<Rightarrow> CostTransaction \<Rightarrow> TransactionCost option" where
  "calculate_cost env is_active tx =
     (if is_simple_vote_transaction tx \<and> \<not> is_active (remove_simple_vote_from_cost_model_id env)
      then Some (SimpleVote tx)
      else do {
        (execution, loaded) \<leftarrow> get_estimated_execution_cost env is_active tx;
        Some (calculate_non_vote_transaction_cost env is_active tx (program_instructions tx)
          (num_write_locks tx) execution loaded (get_instructions_data_cost tx)) })"

definition calculate_cost_for_executed_transaction ::
    "CostEnv \<Rightarrow> FeatureSet \<Rightarrow> CostTransaction \<Rightarrow> u64 \<Rightarrow> u32 \<Rightarrow> TransactionCost" where
  "calculate_cost_for_executed_transaction env is_active tx actual_programs_execution_cost
       actual_loaded_accounts_data_size_bytes =
     (if is_simple_vote_transaction tx \<and> \<not> is_active (remove_simple_vote_from_cost_model_id env)
      then SimpleVote tx
      else calculate_non_vote_transaction_cost env is_active tx (program_instructions tx) (num_write_locks tx)
             actual_programs_execution_cost
             (calculate_loaded_accounts_data_size_cost env actual_loaded_accounts_data_size_bytes)
             (get_instructions_data_cost tx))"

section \<open>Allocated account data\<close>

fun allocation_size :: "SystemProgramAccountAllocation \<Rightarrow> nat" where
  "allocation_size (SomeAllocation n) = unat n"
| "allocation_size _ = 0"

lemma sum_allocations_eq:
  "case sum_allocations allocs attempted of
     None \<Rightarrow> FailedAllocation \<in> set allocs
   | Some t \<Rightarrow> FailedAllocation \<notin> set allocs \<and>
       unat t = min (unat attempted + sum_list (map allocation_size allocs)) (2 ^ 64 - 1)"
proof (induction allocs attempted rule: sum_allocations.induct)
  case (1 attempted)
  then show ?case using unat_lt_len [of attempted] by simp
next
  case (4 n rest attempted)
  then show ?case by (simp add: unat_ops min_def split: option.splits if_splits)
qed (auto split: option.splits)

text \<open>
  What the system program would do: the size an instruction asks to allocate, and when it is certain
  to fail, by its encoding, by the limit on the size of an account or by an inactive feature.
\<close>

fun requested_space :: "SystemInstruction \<Rightarrow> u64 option" where
  "requested_space (CreateAccount _ space _) = Some space"
| "requested_space (CreateAccountWithSeed _ _ _ space _) = Some space"
| "requested_space (Allocate space) = Some space"
| "requested_space (AllocateWithSeed _ _ space _) = Some space"
| "requested_space (CreateAccountAllowPrefund _ space _) = Some space"
| "requested_space _ = None"

fun allows_prefund :: "SystemInstruction \<Rightarrow> bool" where
  "allows_prefund (CreateAccountAllowPrefund _ _ _) = True"
| "allows_prefund _ = False"

definition certain_to_fail :: "CostEnv \<Rightarrow> FeatureSet \<Rightarrow> Pubkey \<times> SVMInstruction \<Rightarrow> bool" where
  "certain_to_fail env is_active pix \<longleftrightarrow> fst pix = system_program_id (budget_env env) \<and>
     (case limited_deserialize env (data (snd pix)) (PACKET_DATA_SIZE (budget_env env)) of
        None \<Rightarrow> True
      | Some sys \<Rightarrow>
          allows_prefund sys \<and> \<not> is_active (create_account_allow_prefund_id env)
          \<or> (case requested_space sys of None \<Rightarrow> False | Some space \<Rightarrow> MAX_PERMITTED_DATA_LENGTH env < space))"

definition allocated_space :: "CostEnv \<Rightarrow> Pubkey \<times> SVMInstruction \<Rightarrow> nat" where
  "allocated_space env pix =
     (if fst pix = system_program_id (budget_env env)
      then (case limited_deserialize env (data (snd pix)) (PACKET_DATA_SIZE (budget_env env)) of
              None \<Rightarrow> 0
            | Some sys \<Rightarrow> (case requested_space sys of None \<Rightarrow> 0 | Some space \<Rightarrow> unat space))
      else 0)"

lemma account_data_size_spec:
  "calculate_account_data_size_on_instruction env is_active (fst pix) (snd pix) = FailedAllocation \<longleftrightarrow>
     certain_to_fail env is_active pix"
  "\<not> certain_to_fail env is_active pix \<Longrightarrow>
     allocation_size (calculate_account_data_size_on_instruction env is_active (fst pix) (snd pix)) = allocated_space env pix"
proof -
  have "calculate_account_data_size_on_deserialized_system_instruction env is_active sys = FailedAllocation \<longleftrightarrow>
      allows_prefund sys \<and> \<not> is_active (create_account_allow_prefund_id env)
        \<or> (case requested_space sys of None \<Rightarrow> False | Some space \<Rightarrow> MAX_PERMITTED_DATA_LENGTH env < space)" for sys
    by (cases sys) (auto simp: validate_space_def)
  then show "calculate_account_data_size_on_instruction env is_active (fst pix) (snd pix) = FailedAllocation \<longleftrightarrow>
      certain_to_fail env is_active pix"
    by (simp add: calculate_account_data_size_on_instruction_def certain_to_fail_def split: option.split)
  have "calculate_account_data_size_on_deserialized_system_instruction env is_active sys \<noteq> FailedAllocation \<Longrightarrow>
      allocation_size (calculate_account_data_size_on_deserialized_system_instruction env is_active sys) =
        (case requested_space sys of None \<Rightarrow> 0 | Some space \<Rightarrow> unat space)" for sys
    by (cases sys) (auto simp: validate_space_def split: if_splits)
  then show "\<not> certain_to_fail env is_active pix \<Longrightarrow>
      allocation_size (calculate_account_data_size_on_instruction env is_active (fst pix) (snd pix)) = allocated_space env pix"
    using \<open>calculate_account_data_size_on_instruction env is_active (fst pix) (snd pix) = FailedAllocation \<longleftrightarrow> _\<close>
    by (auto simp: calculate_account_data_size_on_instruction_def allocated_space_def split: option.splits)
qed

text \<open>C19: The account data a transaction is charged for is zero when one of its system instructions
  is certain to fail (it does not decode, it asks for more than an account may hold, or it creates an
  account that may be prefunded while that feature is inactive), and otherwise the exact sum of the
  sizes its system instructions ask for, clamped to the most a transaction may allocate: the saturating
  sum loses nothing.\<close>

theorem allocated_accounts_data_size_exact:
  "unat (calculate_allocated_accounts_data_size env is_active ixs) =
     (if list_ex (certain_to_fail env is_active) ixs then 0
      else min (unat (MAX_PERMITTED_ACCOUNTS_DATA_ALLOCATIONS_PER_TRANSACTION env))
             (sum_list (map (allocated_space env) ixs)))"
proof -
  define allocs where "allocs = map (\<lambda>pix. calculate_account_data_size_on_instruction env is_active (fst pix) (snd pix)) ixs"
  have failed: "FailedAllocation \<in> set allocs \<longleftrightarrow> list_ex (certain_to_fail env is_active) ixs"
    by (simp add: allocs_def list_ex_iff image_iff eq_commute [of FailedAllocation] account_data_size_spec(1))
  have sizes: "map allocation_size allocs = map (allocated_space env) ixs" if "\<not> list_ex (certain_to_fail env is_active) ixs"
    using that by (simp add: allocs_def list_ex_iff account_data_size_spec(2))
  have "unat (MAX_PERMITTED_ACCOUNTS_DATA_ALLOCATIONS_PER_TRANSACTION env) \<le> 2 ^ 64 - 1"
    using unat_lt_len [of "MAX_PERMITTED_ACCOUNTS_DATA_ALLOCATIONS_PER_TRANSACTION env"] by simp
  with sum_allocations_eq [of allocs 0] failed sizes show ?thesis
    unfolding calculate_allocated_accounts_data_size_def case_prod_unfold allocs_def [symmetric]
    by (cases "sum_allocations allocs 0") (simp_all add: unat_ops)
qed

section \<open>Estimate and actual cost\<close>

lemma sanitize_total:
  assumes "length (migrating_builtin details) = length (MIGRATING_BUILTINS_COSTS env)"
  shows "sanitize_and_convert_to_compute_budget_limits env is_active details \<noteq> None"
proof -
  obtain m where m: "migrating_builtin details = [m]"
    using assms by (auto simp: MIGRATING_BUILTINS_COSTS_def length_Suc_conv)
  have "calculate_default_compute_unit_limit env is_active details \<noteq> None"
    by (simp add: calculate_default_compute_unit_limit_def m get_migration_feature_id_def
        MIGRATING_BUILTINS_COSTS_def case_prod_unfold)
  then show ?thesis
    by (auto simp: sanitize_and_convert_to_compute_budget_limits_def split: option.splits sum.splits)
qed

text \<open>C18: The cost of a transaction can always be estimated, and the cost charged once it has
  executed within its compute unit limit and its limit on loaded account data is at most the
  estimate, for the same writable accounts, the same allocation and the same vote tracking. The
  cost of memory is assumed to grow with the size.\<close>

theorem executed_cost_within_estimate:
  assumes "length (migrating_builtin (compute_budget_instruction_details tx)) =
      length (MIGRATING_BUILTINS_COSTS (budget_env env))"
    and memory_mono: "\<And>a b. a \<le> b \<Longrightarrow>
      calculate_memory_usage_cost env a DEFAULT_HEAP_COST \<le> calculate_memory_usage_cost env b DEFAULT_HEAP_COST"
  shows "\<exists>estimate. calculate_cost env is_active tx = Some estimate \<and>
    (\<forall>limits units bytes.
       sanitize_and_convert_to_compute_budget_limits (budget_env env) is_active
         (compute_budget_instruction_details tx) = Some (Inr limits) \<longrightarrow>
       units \<le> ucast (compute_unit_limit limits) \<longrightarrow> bytes \<le> loaded_accounts_bytes limits \<longrightarrow>
       (let actual = calculate_cost_for_executed_transaction env is_active tx units bytes
        in cost_sum actual \<le> cost_sum estimate \<and>
           writable_accounts actual = writable_accounts estimate \<and>
           allocated_accounts_data_size actual = allocated_accounts_data_size estimate \<and>
           should_track_as_simple_vote actual = should_track_as_simple_vote estimate))"
proof (cases "is_simple_vote_transaction tx \<and> \<not> is_active (remove_simple_vote_from_cost_model_id env)")
  case True
  then show ?thesis by (simp add: calculate_cost_def calculate_cost_for_executed_transaction_def)
next
  case False
  obtain r where r: "sanitize_and_convert_to_compute_budget_limits (budget_env env) is_active
      (compute_budget_instruction_details tx) = Some r"
    using sanitize_total [OF assms(1)] by blast
  have sums: "cost_sum (calculate_non_vote_transaction_cost env is_active tx ixs locks u l d) \<le>
      cost_sum (calculate_non_vote_transaction_cost env is_active tx ixs locks u' l' d)"
    if "u \<le> u'" "l \<le> l'" for ixs locks u u' l l' d
    using that unfolding word_le_nat_alt
    by (simp add: calculate_non_vote_transaction_cost_def UsageCostDetails_sum_def unat_ops)
  show ?thesis
  proof (cases r)
    case (Inl e)
    with False r show ?thesis by (auto simp: calculate_cost_def get_estimated_execution_cost_def)
  next
    case (Inr limits)
    with False r show ?thesis
      by (auto simp: calculate_cost_def get_estimated_execution_cost_def Let_def
          calculate_cost_for_executed_transaction_def intro!: sums)
        (simp_all add: calculate_non_vote_transaction_cost_def writable_accounts_def
          calculate_loaded_accounts_data_size_cost_def memory_mono)
  qed
qed

definition demo_cost_env :: CostEnv where
  "demo_cost_env = \<lparr>budget_env = demo_budget_env,
     calculate_memory_usage_cost = (\<lambda>bytes heap_cost. saturating_mul (saturating_add (ucast bytes) 32767 div 32768) heap_cost),
     limited_deserialize = (\<lambda>bytes n. None), MAX_PERMITTED_DATA_LENGTH = 10485760,
     MAX_PERMITTED_ACCOUNTS_DATA_ALLOCATIONS_PER_TRANSACTION = 20971520,
     remove_simple_vote_from_cost_model_id = 11, create_account_allow_prefund_id = 12\<rparr>"

definition demo_cost_tx :: CostTransaction where
  "demo_cost_tx = \<lparr>message_hash = 7, account_keys = [1, 2], is_writable = (\<lambda>i. i = 0),
     is_simple_vote_transaction = False,
     signature_details = \<lparr>transaction_signatures = 1, secp256k1_signatures = 0, ed25519_signatures = 0,
       secp256r1_signatures = 0\<rparr>,
     compute_budget_instruction_details = (ComputeBudgetInstructionDetails_default demo_budget_env)
       \<lparr>requested_compute_unit_limit := Some (0, 5000)\<rparr>,
     instruction_data_len = 40, num_write_locks = 1, program_instructions = []\<rparr>"

lemma demo_memory_mono:
  "(a :: u32) \<le> b \<Longrightarrow> calculate_memory_usage_cost demo_cost_env a c \<le> calculate_memory_usage_cost demo_cost_env b c"
  unfolding word_le_nat_alt
  by (simp add: demo_cost_env_def unat_ops unat_div unat_ucast_up del: min.bounded_iff)
    (intro min.mono mult_le_mono1 div_le_mono, simp_all)

theorem executed_cost_within_estimate_witness:
  "\<exists>estimate. calculate_cost demo_cost_env (\<lambda>_. False) demo_cost_tx = Some estimate \<and>
     cost_sum (calculate_cost_for_executed_transaction demo_cost_env (\<lambda>_. False) demo_cost_tx 100 40000)
       \<le> cost_sum estimate"
proof -
  have len: "length (migrating_builtin (compute_budget_instruction_details demo_cost_tx)) =
      length (MIGRATING_BUILTINS_COSTS (budget_env demo_cost_env))"
    by (simp add: demo_cost_tx_def demo_cost_env_def ComputeBudgetInstructionDetails_default_def
        MIGRATING_BUILTINS_COSTS_def)
  have limits: "sanitize_and_convert_to_compute_budget_limits (budget_env demo_cost_env) (\<lambda>_. False)
      (compute_budget_instruction_details demo_cost_tx) = Some (Inr \<lparr>updated_heap_bytes = 32768,
        compute_unit_limit = 5000, compute_unit_price = 0, loaded_accounts_bytes = 67108864\<rparr>)"
    by (simp add: sanitize_and_convert_to_compute_budget_limits_def demo_cost_tx_def demo_cost_env_def
        ComputeBudgetInstructionDetails_default_def demo_budget_env_def budget_constants)
  show ?thesis
    using executed_cost_within_estimate [OF len demo_memory_mono, of "\<lambda>_. False"] limits
    by (fastforce simp: Let_def)
qed

end
