(* ===== verification/CostTracker.thy ===== *)
theory CostTracker
  imports CostModel "HOL-Library.Multiset"
begin

text \<open>
  The cost tracker of a block, \<^verbatim>\<open>cost-model/src/cost_tracker.rs\<close>: block, vote and per-account
  cost against their limits, with the total of the block shared as an atomic 64 bit counter that
  wraps. The lemmas relate a tracker to the multiset of transactions charged to it.
\<close>

section \<open>The tracker\<close>

datatype CostTrackerError =
    WouldExceedBlockMaxLimit
  | WouldExceedVoteMaxLimit
  | WouldExceedAccountMaxLimit
  | WouldExceedAccountDataBlockLimitError
  | WouldExceedAccountDataTotalLimitError

fun TransactionError_from :: "CostTrackerError \<Rightarrow> TransactionError" where
  "TransactionError_from WouldExceedBlockMaxLimit = WouldExceedMaxBlockCostLimit"
| "TransactionError_from WouldExceedVoteMaxLimit = WouldExceedMaxVoteCostLimit"
| "TransactionError_from WouldExceedAccountMaxLimit = WouldExceedMaxAccountCostLimit"
| "TransactionError_from WouldExceedAccountDataBlockLimitError = WouldExceedAccountDataBlockLimit"
| "TransactionError_from WouldExceedAccountDataTotalLimitError = WouldExceedAccountDataTotalLimit"

record UpdatedCosts =
  updated_block_cost :: u64
  updated_costliest_account_cost :: u64

record CostTracker =
  account_cost_limit :: u64
  block_cost_limit :: u64
  vote_cost_limit :: u64
  cost_by_writable_accounts :: "Pubkey \<rightharpoonup> u64"
  block_cost :: u64
  vote_cost :: u64
  transaction_count :: u64
  tracked_allocated_accounts_data_size :: u64
  transaction_signature_count :: u64
  secp256k1_instruction_signature_count :: u64
  ed25519_instruction_signature_count :: u64
  in_flight_transaction_count :: usize
  secp256r1_instruction_signature_count :: u64

definition CostTracker_default :: CostTracker where
  "CostTracker_default =
     \<lparr>account_cost_limit = MAX_WRITABLE_ACCOUNT_UNITS, block_cost_limit = MAX_BLOCK_UNITS,
      vote_cost_limit = MAX_VOTE_UNITS, cost_by_writable_accounts = Map.empty, block_cost = 0, vote_cost = 0,
      transaction_count = 0, tracked_allocated_accounts_data_size = 0, transaction_signature_count = 0,
      secp256k1_instruction_signature_count = 0, ed25519_instruction_signature_count = 0,
      in_flight_transaction_count = 0, secp256r1_instruction_signature_count = 0\<rparr>"

definition set_limits :: "CostTracker \<Rightarrow> u64 \<Rightarrow> u64 \<Rightarrow> u64 \<Rightarrow> CostTracker" where
  "set_limits t account_limit block_limit vote_limit =
     t \<lparr>account_cost_limit := account_limit, block_cost_limit := block_limit, vote_cost_limit := vote_limit\<rparr>"

definition new_from_parent_limits :: "CostTracker \<Rightarrow> CostTracker" where
  "new_from_parent_limits t =
     set_limits CostTracker_default (account_cost_limit t) (block_cost_limit t) (vote_cost_limit t)"

definition add_transactions_in_flight :: "CostTracker \<Rightarrow> usize \<Rightarrow> CostTracker" where
  "add_transactions_in_flight t n =
     t \<lparr>in_flight_transaction_count := saturating_add (in_flight_transaction_count t) n\<rparr>"

definition sub_transactions_in_flight :: "CostTracker \<Rightarrow> usize \<Rightarrow> CostTracker" where
  "sub_transactions_in_flight t n =
     t \<lparr>in_flight_transaction_count := saturating_sub (in_flight_transaction_count t) n\<rparr>"

fun accounts_fit :: "CostTracker \<Rightarrow> u64 \<Rightarrow> Pubkey list \<Rightarrow> bool" where
  "accounts_fit t c [] = True"
| "accounts_fit t c (account_key # rest) =
     (case cost_by_writable_accounts t account_key of
        Some chained_cost \<Rightarrow>
          if saturating_add chained_cost c > account_cost_limit t then False else accounts_fit t c rest
      | None \<Rightarrow> accounts_fit t c rest)"

definition would_fit :: "CostTracker \<Rightarrow> TransactionCost \<Rightarrow> CostTrackerError + unit" where
  "would_fit t tx_cost =
     (let c = cost_sum tx_cost
      in if should_track_as_simple_vote tx_cost \<and> saturating_add (vote_cost t) c > vote_cost_limit t
         then Inl WouldExceedVoteMaxLimit
         else if saturating_add (block_cost t) c > block_cost_limit t then Inl WouldExceedBlockMaxLimit
         else if c > account_cost_limit t then Inl WouldExceedAccountMaxLimit
         else if saturating_add (tracked_allocated_accounts_data_size t) (allocated_accounts_data_size tx_cost)
                   > MAX_BLOCK_ACCOUNTS_DATA_SIZE_DELTA
         then Inl WouldExceedAccountDataBlockLimitError
         else if \<not> accounts_fit t c (writable_accounts tx_cost) then Inl WouldExceedAccountMaxLimit
         else Inr ())"

fun add_account_costs :: "(Pubkey \<rightharpoonup> u64) \<Rightarrow> u64 \<Rightarrow> Pubkey list \<Rightarrow> u64 \<Rightarrow> u64 \<times> (Pubkey \<rightharpoonup> u64)" where
  "add_account_costs costs adjustment [] costliest = (costliest, costs)"
| "add_account_costs costs adjustment (account_key # rest) costliest =
     (let account_cost = saturating_add (case costs account_key of None \<Rightarrow> 0 | Some c \<Rightarrow> c) adjustment
      in add_account_costs (costs(account_key \<mapsto> account_cost)) adjustment rest (max costliest account_cost))"

definition add_transaction_execution_cost :: "CostTracker \<Rightarrow> TransactionCost \<Rightarrow> u64 \<Rightarrow> u64 \<times> CostTracker" where
  "add_transaction_execution_cost t tx_cost adjustment =
     (let (costliest, costs) =
            add_account_costs (cost_by_writable_accounts t) adjustment (writable_accounts tx_cost) 0
      in (costliest,
          t \<lparr>cost_by_writable_accounts := costs,
             block_cost := block_cost t + adjustment,
             vote_cost := (if should_track_as_simple_vote tx_cost
                           then saturating_add (vote_cost t) adjustment else vote_cost t)\<rparr>))"

fun sub_account_costs :: "(Pubkey \<rightharpoonup> u64) \<Rightarrow> u64 \<Rightarrow> Pubkey list \<Rightarrow> (Pubkey \<rightharpoonup> u64)" where
  "sub_account_costs costs adjustment [] = costs"
| "sub_account_costs costs adjustment (account_key # rest) =
     sub_account_costs
       (costs(account_key \<mapsto> saturating_sub (case costs account_key of None \<Rightarrow> 0 | Some c \<Rightarrow> c) adjustment))
       adjustment rest"

definition sub_transaction_execution_cost :: "CostTracker \<Rightarrow> TransactionCost \<Rightarrow> u64 \<Rightarrow> CostTracker" where
  "sub_transaction_execution_cost t tx_cost adjustment =
     t \<lparr>cost_by_writable_accounts :=
          sub_account_costs (cost_by_writable_accounts t) adjustment (writable_accounts tx_cost),
        block_cost := block_cost t - adjustment,
        vote_cost := (if should_track_as_simple_vote tx_cost
                      then saturating_sub (vote_cost t) adjustment else vote_cost t)\<rparr>"

definition add_transaction_cost :: "CostTracker \<Rightarrow> TransactionCost \<Rightarrow> u64 \<times> CostTracker" where
  "add_transaction_cost t c =
     add_transaction_execution_cost
       (t \<lparr>tracked_allocated_accounts_data_size :=
             saturating_add (tracked_allocated_accounts_data_size t) (allocated_accounts_data_size c),
           transaction_count := saturating_add (transaction_count t) 1,
           transaction_signature_count :=
             saturating_add (transaction_signature_count t) (num_transaction_signatures c),
           secp256k1_instruction_signature_count :=
             saturating_add (secp256k1_instruction_signature_count t) (num_secp256k1_instruction_signatures c),
           ed25519_instruction_signature_count :=
             saturating_add (ed25519_instruction_signature_count t) (num_ed25519_instruction_signatures c),
           secp256r1_instruction_signature_count :=
             saturating_add (secp256r1_instruction_signature_count t) (num_secp256r1_instruction_signatures c)\<rparr>)
       c (cost_sum c)"

definition remove_transaction_cost :: "CostTracker \<Rightarrow> TransactionCost \<Rightarrow> CostTracker" where
  "remove_transaction_cost t c =
     (let t = sub_transaction_execution_cost t c (cost_sum c)
      in t \<lparr>tracked_allocated_accounts_data_size :=
             saturating_sub (tracked_allocated_accounts_data_size t) (allocated_accounts_data_size c),
           transaction_count := saturating_sub (transaction_count t) 1,
           transaction_signature_count :=
             saturating_sub (transaction_signature_count t) (num_transaction_signatures c),
           secp256k1_instruction_signature_count :=
             saturating_sub (secp256k1_instruction_signature_count t) (num_secp256k1_instruction_signatures c),
           ed25519_instruction_signature_count :=
             saturating_sub (ed25519_instruction_signature_count t) (num_ed25519_instruction_signatures c),
           secp256r1_instruction_signature_count :=
             saturating_sub (secp256r1_instruction_signature_count t) (num_secp256r1_instruction_signatures c)\<rparr>)"

definition try_add :: "CostTracker \<Rightarrow> TransactionCost \<Rightarrow> (CostTrackerError + UpdatedCosts) \<times> CostTracker" where
  "try_add t tx_cost =
     (case would_fit t tx_cost of
        Inl e \<Rightarrow> (Inl e, t)
      | Inr _ \<Rightarrow>
          (let (costliest, t) = add_transaction_cost t tx_cost
           in (Inr \<lparr>updated_block_cost = block_cost t, updated_costliest_account_cost = costliest\<rparr>, t)))"

definition update_execution_cost :: "CostTracker \<Rightarrow> TransactionCost \<Rightarrow> u64 \<Rightarrow> u64 \<Rightarrow> CostTracker" where
  "update_execution_cost t estimated_tx_cost actual_execution_units actual_loaded_accounts_data_size_cost =
     (let actual = saturating_add actual_execution_units actual_loaded_accounts_data_size_cost;
          estimated = saturating_add (programs_execution_cost estimated_tx_cost)
                        (loaded_accounts_data_size_cost estimated_tx_cost)
      in if actual = estimated then t
         else if actual > estimated
         then snd (add_transaction_execution_cost t estimated_tx_cost (actual - estimated))
         else sub_transaction_execution_cost t estimated_tx_cost (estimated - actual))"

definition CostTracker_remove :: "CostTracker \<Rightarrow> TransactionCost \<Rightarrow> CostTracker" where
  "CostTracker_remove t tx_cost = remove_transaction_cost t tx_cost"

section \<open>What a tracker accounts for\<close>

text \<open>
  A block is a multiset of transaction costs, each with the units it is charged for at present.
\<close>

type_synonym charges = "(TransactionCost \<times> nat) multiset"

definition charged_units :: "(TransactionCost \<Rightarrow> bool) \<Rightarrow> charges \<Rightarrow> nat" where
  "charged_units P M = (\<Sum>(c, u) \<in># M. if P c then u else 0)"

definition account_cost :: "CostTracker \<Rightarrow> Pubkey \<Rightarrow> u64" where
  "account_cost t key = (case cost_by_writable_accounts t key of None \<Rightarrow> 0 | Some c \<Rightarrow> c)"

definition allocated_units :: "charges \<Rightarrow> nat" where
  "allocated_units M = (\<Sum>(c, u) \<in># M. unat (allocated_accounts_data_size c))"

definition accounts_for :: "CostTracker \<Rightarrow> charges \<Rightarrow> bool" where
  "accounts_for t M \<longleftrightarrow>
     unat (block_cost t) = charged_units (\<lambda>_. True) M \<and>
     (\<forall>key. unat (account_cost t key) = charged_units (\<lambda>c. key \<in> set (writable_accounts c)) M) \<and>
     unat (vote_cost t) = charged_units should_track_as_simple_vote M \<and>
     unat (tracked_allocated_accounts_data_size t) = allocated_units M \<and>
     unat (transaction_count t) = size M"

text \<open>
  What the transactions of a block are charged above the cost they were admitted with. The tracker
  adds such an excess without a check, so that the limits hold up to it.
\<close>

definition excess :: "(TransactionCost \<Rightarrow> bool) \<Rightarrow> charges \<Rightarrow> nat" where
  "excess P M = (\<Sum>(c, u) \<in># M. if P c then u - unat (cost_sum c) else 0)"

definition within_limits :: "CostTracker \<Rightarrow> charges \<Rightarrow> bool" where
  "within_limits t C \<longleftrightarrow>
     unat (block_cost t) \<le> unat (block_cost_limit t) + excess (\<lambda>_. True) C \<and>
     unat (vote_cost t) \<le> unat (vote_cost_limit t) + excess should_track_as_simple_vote C \<and>
     (\<forall>key. unat (account_cost t key) \<le>
        unat (account_cost_limit t) + excess (\<lambda>c. key \<in> set (writable_accounts c)) C) \<and>
     tracked_allocated_accounts_data_size t \<le> MAX_BLOCK_ACCOUNTS_DATA_SIZE_DELTA"

lemma charged_units_simps [simp]:
  "charged_units P {#} = 0"
  "charged_units P (add_mset (c, u) M) = (if P c then u else 0) + charged_units P M"
  "charged_units P (M + N) = charged_units P M + charged_units P N"
  by (simp_all add: charged_units_def)

lemma excess_simps [simp]:
  "excess P {#} = 0"
  "excess P (add_mset (c, u) M) = (if P c then u - unat (cost_sum c) else 0) + excess P M"
  "excess P (M + N) = excess P M + excess P N"
  by (simp_all add: excess_def)

lemma allocated_units_simps [simp]:
  "allocated_units {#} = 0"
  "allocated_units (add_mset (c, u) M) = unat (allocated_accounts_data_size c) + allocated_units M"
  "allocated_units (M + N) = allocated_units M + allocated_units N"
  by (simp_all add: allocated_units_def)

lemma charged_units_le: "charged_units P M \<le> charged_units (\<lambda>_. True) M"
  unfolding charged_units_def by (rule sum_mset_mono) (simp add: case_prod_unfold)

lemma add_account_costs_eq:
  "distinct keys \<Longrightarrow> snd (add_account_costs costs a keys m) key =
     (if key \<in> set keys then Some (saturating_add (case costs key of None \<Rightarrow> 0 | Some c \<Rightarrow> c) a) else costs key)"
  by (induction costs a keys m rule: add_account_costs.induct) (auto simp: Let_def)

lemma sub_account_costs_eq:
  "distinct keys \<Longrightarrow> sub_account_costs costs a keys key =
     (if key \<in> set keys then Some (saturating_sub (case costs key of None \<Rightarrow> 0 | Some c \<Rightarrow> c) a) else costs key)"
  by (induction costs a keys rule: sub_account_costs.induct) auto

lemma accounts_fit_iff:
  "accounts_fit t c keys \<longleftrightarrow>
     (\<forall>key \<in> set keys. cost_by_writable_accounts t key = None \<or> saturating_add (account_cost t key) c \<le> account_cost_limit t)"
  by (induction t c keys rule: accounts_fit.induct) (auto simp: account_cost_def split: option.splits)

lemma account_cost_add:
  assumes "distinct (writable_accounts c)"
  shows "account_cost (snd (add_transaction_execution_cost t c a)) key =
    (if key \<in> set (writable_accounts c) then saturating_add (account_cost t key) a else account_cost t key)"
  using add_account_costs_eq [OF assms, of "cost_by_writable_accounts t" a 0 key]
  by (simp add: add_transaction_execution_cost_def account_cost_def case_prod_unfold Let_def)

lemma account_cost_sub:
  assumes "distinct (writable_accounts c)"
  shows "account_cost (sub_transaction_execution_cost t c a) key =
    (if key \<in> set (writable_accounts c) then saturating_sub (account_cost t key) a else account_cost t key)"
  using sub_account_costs_eq [OF assms, of "cost_by_writable_accounts t" a key]
  by (simp add: sub_transaction_execution_cost_def account_cost_def)

section \<open>Adding, removing and correcting\<close>

definition same_limits :: "CostTracker \<Rightarrow> CostTracker \<Rightarrow> bool" where
  "same_limits t t' \<longleftrightarrow>
     account_cost_limit t' = account_cost_limit t \<and> block_cost_limit t' = block_cost_limit t \<and>
     vote_cost_limit t' = vote_cost_limit t \<and> in_flight_transaction_count t' = in_flight_transaction_count t"

lemma same_limits_refl [simp]: "same_limits t t"
  by (simp add: same_limits_def)

lemma same_limits_trans: "same_limits t t' \<Longrightarrow> same_limits t' t'' \<Longrightarrow> same_limits t t''"
  by (simp add: same_limits_def)

lemma saturating_add_fits:
  assumes "saturating_add a b \<le> limit" and "limit < (- 1 :: u64) \<or> unat a + unat b < 2 ^ 64"
  shows "unat a + unat b \<le> unat limit"
  using assms unfolding word_le_nat_alt word_less_nat_alt unat_saturating_add unat_max_word by auto

lemma account_cost_le_block: "accounts_for t M \<Longrightarrow> unat (account_cost t key) \<le> unat (block_cost t)"
  by (simp add: accounts_for_def charged_units_le)

lemma try_add_fields:
  assumes "try_add t c = (Inr updated, t')"
  shows "t' = snd (add_transaction_cost t c)" and "would_fit t c = Inr ()"
    and "updated_block_cost updated = block_cost t'"
  using assms by (auto simp: try_add_def Let_def case_prod_unfold split: sum.splits)

lemma would_fit_bounds:
  assumes "would_fit t c = Inr ()"
  shows "saturating_add (block_cost t) (cost_sum c) \<le> block_cost_limit t"
    and "should_track_as_simple_vote c \<Longrightarrow> saturating_add (vote_cost t) (cost_sum c) \<le> vote_cost_limit t"
    and "saturating_add (tracked_allocated_accounts_data_size t) (allocated_accounts_data_size c)
           \<le> MAX_BLOCK_ACCOUNTS_DATA_SIZE_DELTA"
    and "cost_sum c \<le> account_cost_limit t"
    and "accounts_fit t (cost_sum c) (writable_accounts c)"
  using assms unfolding would_fit_def Let_def by (auto split: if_splits)

lemma add_transaction_cost_fields [simp]:
  "block_cost (snd (add_transaction_cost t c)) = block_cost t + cost_sum c"
  "vote_cost (snd (add_transaction_cost t c)) =
     (if should_track_as_simple_vote c then saturating_add (vote_cost t) (cost_sum c) else vote_cost t)"
  "tracked_allocated_accounts_data_size (snd (add_transaction_cost t c)) =
     saturating_add (tracked_allocated_accounts_data_size t) (allocated_accounts_data_size c)"
  "transaction_count (snd (add_transaction_cost t c)) = saturating_add (transaction_count t) 1"
  "same_limits t (snd (add_transaction_cost t c))"
  by (simp_all add: add_transaction_cost_def add_transaction_execution_cost_def same_limits_def
      case_prod_unfold Let_def)

lemma account_cost_add_transaction:
  assumes "distinct (writable_accounts c)"
  shows "account_cost (snd (add_transaction_cost t c)) key =
    (if key \<in> set (writable_accounts c) then saturating_add (account_cost t key) (cost_sum c) else account_cost t key)"
  unfolding add_transaction_cost_def account_cost_add [OF assms] by (simp add: account_cost_def)

lemma try_add_accounts:
  assumes "accounts_for t M" and "within_limits t C" and "distinct (writable_accounts c)"
    and "size M + 1 < 2 ^ 64" and "block_cost_limit t < - 1 \<or> unat (block_cost t) + unat (cost_sum c) < 2 ^ 64"
    and "try_add t c = (Inr updated, t')"
  shows "accounts_for t' (add_mset (c, unat (cost_sum c)) M)" and "within_limits t' C" and "same_limits t t'"
    and "unat (block_cost t') = unat (block_cost t) + unat (cost_sum c)"
proof -
  note t' = try_add_fields [OF assms(6)]
  note fit = would_fit_bounds [OF t'(2)]
  have block: "unat (block_cost t) + unat (cost_sum c) \<le> unat (block_cost_limit t)"
    by (rule saturating_add_fits [OF fit(1) assms(5)])
  have small: "n + unat (cost_sum c) < 2 ^ 64" if "n \<le> unat (block_cost t)" for n
    using that block unat_lt_len [of "block_cost_limit t"] by simp
  note sums = assms(1) [unfolded accounts_for_def]
  have vote: "unat (vote_cost t) \<le> unat (block_cost t)" using sums by (simp add: charged_units_le)
  have account: "unat (account_cost t key) \<le> unat (block_cost t)" for key
    by (rule account_cost_le_block [OF assms(1)])
  have keys: "unat (saturating_add (account_cost t key) (cost_sum c)) = unat (account_cost t key) + unat (cost_sum c)"
    for key using small [OF account, of key] by (simp add: unat_ops)
  have data: "unat (saturating_add (tracked_allocated_accounts_data_size t) (allocated_accounts_data_size c)) =
      allocated_units (add_mset (c, unat (cost_sum c)) M)"
    using saturating_add_fits [OF fit(3)] sums
    by (simp add: MAX_BLOCK_ACCOUNTS_DATA_SIZE_DELTA_def unat_ops word_less_nat_alt unat_max_word)
  show "accounts_for t' (add_mset (c, unat (cost_sum c)) M)"
    unfolding t'(1) accounts_for_def add_transaction_cost_fields account_cost_add_transaction [OF assms(3)] data
    using sums small [OF order_refl] small [OF vote] assms(4)
    by (simp add: unat_add_exact keys) (simp add: unat_ops)
  show "same_limits t t'" by (simp add: t'(1))
  then have limits: "block_cost_limit t' = block_cost_limit t" "vote_cost_limit t' = vote_cost_limit t"
    "account_cost_limit t' = account_cost_limit t" by (simp_all add: same_limits_def)
  have zero: "saturating_add (account_cost t key) (cost_sum c) = cost_sum c"
    if "cost_by_writable_accounts t key = None" for key
    using that unat_lt_len [of "cost_sum c"] by (simp add: account_cost_def saturating_add_def)
  have "unat (account_cost t' key) \<le> unat (account_cost_limit t) + excess (\<lambda>c. key \<in> set (writable_accounts c)) C" for key
    using assms(2) fit(4) fit(5) [unfolded accounts_fit_iff] zero [of key]
    unfolding t'(1) account_cost_add_transaction [OF assms(3)] within_limits_def word_le_nat_alt
    by (auto intro!: trans_le_add1)
  moreover show bt: "unat (block_cost t') = unat (block_cost t) + unat (cost_sum c)"
    using small [OF order_refl] by (simp add: t'(1) unat_add_exact)
  moreover have "unat (vote_cost t') \<le> unat (vote_cost_limit t) + excess should_track_as_simple_vote C"
    using assms(2) fit(2) by (auto simp: t'(1) within_limits_def word_le_nat_alt intro!: trans_le_add1)
  moreover have "tracked_allocated_accounts_data_size t' \<le> MAX_BLOCK_ACCOUNTS_DATA_SIZE_DELTA" using fit(3) by (simp add: t'(1))
  ultimately show "within_limits t' C" using block by (simp add: within_limits_def limits)
qed

text \<open>Raising or lowering the charge of one transaction, by correcting it or by removing it altogether.\<close>

lemma add_execution_cost_accounts:
  assumes "accounts_for t (add_mset (c, u) M)" and "distinct (writable_accounts c)" and "unat (block_cost t) + unat a < 2 ^ 64"
  shows "accounts_for (snd (add_transaction_execution_cost t c a)) (add_mset (c, u + unat a) M)"
proof -
  note sums = assms(1) [unfolded accounts_for_def]
  have small: "n + unat a < 2 ^ 64" if "n \<le> unat (block_cost t)" for n using that assms(3) by simp
  have keys: "unat (saturating_add (account_cost t key) a) = unat (account_cost t key) + unat a" for key
    using small [OF account_cost_le_block [OF assms(1)], of key] by (simp add: unat_ops)
  have "unat (vote_cost t) \<le> unat (block_cost t)"
    using sums charged_units_le [of should_track_as_simple_vote "add_mset (c, u) M"] by simp
  from small [OF this] have vote: "unat (saturating_add (vote_cost t) a) = unat (vote_cost t) + unat a"
    by (simp add: unat_ops)
  have fields: "block_cost (snd (add_transaction_execution_cost t c a)) = block_cost t + a"
    "vote_cost (snd (add_transaction_execution_cost t c a)) =
       (if should_track_as_simple_vote c then saturating_add (vote_cost t) a else vote_cost t)"
    "tracked_allocated_accounts_data_size (snd (add_transaction_execution_cost t c a)) = tracked_allocated_accounts_data_size t"
    "transaction_count (snd (add_transaction_execution_cost t c a)) = transaction_count t"
    by (simp_all add: add_transaction_execution_cost_def case_prod_unfold Let_def)
  have "unat (block_cost t + a) = unat (block_cost t) + unat a" using assms(3) by (intro unat_add_exact) simp
  then show ?thesis
    using sums unfolding accounts_for_def account_cost_add [OF assms(2)] fields by (simp add: keys vote)
qed

lemma add_execution_cost_limits:
  assumes "within_limits t C" and "distinct (writable_accounts c)"
  shows "within_limits (snd (add_transaction_execution_cost t c a)) (add_mset (c, unat (cost_sum c) + unat a) C)"
    and "same_limits t (snd (add_transaction_execution_cost t c a))"
proof -
  have le: "unat (saturating_add x a) \<le> unat x + unat a" "unat (x + a) \<le> unat x + unat a" for x :: u64
    by (simp_all add: unat_ops unat_word_ariths)
  show "within_limits (snd (add_transaction_execution_cost t c a)) (add_mset (c, unat (cost_sum c) + unat a) C)"
    using assms(1) order_trans [OF le(1)] order_trans [OF le(2)]
    unfolding within_limits_def account_cost_add [OF assms(2)]
    by (simp add: add_transaction_execution_cost_def case_prod_unfold Let_def)
  show "same_limits t (snd (add_transaction_execution_cost t c a))"
    by (simp add: same_limits_def add_transaction_execution_cost_def case_prod_unfold Let_def)
qed

lemma sub_execution_cost_accounts:
  assumes "accounts_for t (add_mset (c, u) M)" and "distinct (writable_accounts c)" and "unat a \<le> u"
  shows "accounts_for (sub_transaction_execution_cost t c a) (add_mset (c, u - unat a) M)"
    and "unat (block_cost (sub_transaction_execution_cost t c a)) \<le> unat (block_cost t)"
proof -
  note sums = assms(1) [unfolded accounts_for_def]
  have "a \<le> block_cost t" using sums assms(3) by (simp add: word_le_nat_alt)
  then have block: "unat (block_cost t - a) = unat (block_cost t) - unat a" by (rule unat_sub_exact)
  then show "accounts_for (sub_transaction_execution_cost t c a) (add_mset (c, u - unat a) M)"
    using sums assms(3) unfolding accounts_for_def account_cost_sub [OF assms(2)]
    by (simp add: sub_transaction_execution_cost_def unat_ops)
  show "unat (block_cost (sub_transaction_execution_cost t c a)) \<le> unat (block_cost t)"
    by (simp add: sub_transaction_execution_cost_def block)
qed

lemma sub_execution_cost_limits:
  assumes "accounts_for t (add_mset (c, u) M)" and "within_limits t C" and "distinct (writable_accounts c)" and "unat a \<le> u"
  shows "within_limits (sub_transaction_execution_cost t c a) C" and "same_limits t (sub_transaction_execution_cost t c a)"
proof -
  have le: "unat (saturating_sub x a) \<le> unat x" for x :: u64 by (simp add: unat_ops)
  show "within_limits (sub_transaction_execution_cost t c a) C"
    using assms(2) order_trans [OF le] order_trans [OF sub_execution_cost_accounts(2) [OF assms(1,3,4)]]
    unfolding within_limits_def account_cost_sub [OF assms(3)]
    by (simp add: sub_transaction_execution_cost_def)
  show "same_limits t (sub_transaction_execution_cost t c a)"
    by (simp add: same_limits_def sub_transaction_execution_cost_def)
qed

lemma remove_accounts:
  assumes "accounts_for t (add_mset (c, unat (cost_sum c)) M)" and "within_limits t C" and "distinct (writable_accounts c)"
  shows "accounts_for (CostTracker_remove t c) M" and "within_limits (CostTracker_remove t c) C"
    and "same_limits t (CostTracker_remove t c)" and "unat (block_cost (CostTracker_remove t c)) \<le> unat (block_cost t)"
proof -
  let ?s = "sub_transaction_execution_cost t c (cost_sum c)"
  have s: "accounts_for ?s (add_mset (c, 0) M)" "within_limits ?s C" "same_limits t ?s"
    using sub_execution_cost_accounts [OF assms(1,3) order_refl]
      sub_execution_cost_limits [OF assms order_refl] by simp_all
  have fields: "block_cost (CostTracker_remove t c) = block_cost ?s" "vote_cost (CostTracker_remove t c) = vote_cost ?s"
    "account_cost (CostTracker_remove t c) = account_cost ?s"
    "tracked_allocated_accounts_data_size (CostTracker_remove t c) =
       saturating_sub (tracked_allocated_accounts_data_size ?s) (allocated_accounts_data_size c)"
    "transaction_count (CostTracker_remove t c) = saturating_sub (transaction_count ?s) 1"
    "same_limits ?s (CostTracker_remove t c)"
    by (simp_all add: CostTracker_remove_def remove_transaction_cost_def Let_def account_cost_def fun_eq_iff same_limits_def)
  from s(1) show "accounts_for (CostTracker_remove t c) M"
    unfolding accounts_for_def fields by (simp add: unat_ops)
  have sub_le: "saturating_sub x y \<le> x" for x y :: u64 by (simp add: word_le_nat_alt unat_ops)
  from s(2) fields(6) show "within_limits (CostTracker_remove t c) C"
    unfolding within_limits_def fields same_limits_def by (auto intro: order_trans [OF sub_le])
  from same_limits_trans [OF s(3) fields(6)] show "same_limits t (CostTracker_remove t c)" .
  show "unat (block_cost (CostTracker_remove t c)) \<le> unat (block_cost t)"
    using sub_execution_cost_accounts(2) [OF assms(1,3) order_refl] by (simp add: fields)
qed

text \<open>The part of a cost that is corrected once the actual use is known.\<close>

definition estimated_units :: "TransactionCost \<Rightarrow> u64" where
  "estimated_units c = saturating_add (programs_execution_cost c) (loaded_accounts_data_size_cost c)"

lemma estimated_units_le: "unat (estimated_units c) \<le> unat (cost_sum c)"
  by (cases c) (auto simp: estimated_units_def UsageCostDetails_sum_def unat_ops
      SIMPLE_VOTE_USAGE_COST_def DEFAULT_COMPUTE_UNITS_def)

text \<open>The units charged after the correction, and those by which it raises the charge.\<close>

definition actual_units :: "TransactionCost \<Rightarrow> u64 \<Rightarrow> u64 \<Rightarrow> nat" where
  "actual_units c units loaded = unat (cost_sum c) + unat (saturating_add units loaded) - unat (estimated_units c)"

definition overshoot :: "TransactionCost \<Rightarrow> u64 \<Rightarrow> u64 \<Rightarrow> nat" where
  "overshoot c units loaded = unat (saturating_add units loaded) - unat (estimated_units c)"

lemma update_execution_cost_accounts:
  assumes "accounts_for t (add_mset (c, unat (cost_sum c)) M)" and "within_limits t C" and "distinct (writable_accounts c)"
    and "unat (block_cost t) + overshoot c units loaded < 2 ^ 64"
  defines "t' \<equiv> update_execution_cost t c units loaded"
  shows "accounts_for t' (add_mset (c, actual_units c units loaded) M)"
    and "within_limits t' (add_mset (c, actual_units c units loaded) C)"
    and "same_limits t t'" and "unat (block_cost t') \<le> unat (block_cost t) + overshoot c units loaded"
proof -
  define used where "used = saturating_add units loaded"
  have le: "unat (estimated_units c) \<le> unat (cost_sum c)" by (rule estimated_units_le)
  have "accounts_for t' (add_mset (c, actual_units c units loaded) M)
      \<and> within_limits t' (add_mset (c, actual_units c units loaded) C)
      \<and> same_limits t t' \<and> unat (block_cost t') \<le> unat (block_cost t) + overshoot c units loaded"
  proof (cases used "estimated_units c" rule: linorder_cases)
    case equal
    then have "t' = t" by (simp add: t'_def update_execution_cost_def used_def estimated_units_def)
    with assms(1,2) equal show ?thesis by (simp add: actual_units_def within_limits_def flip: used_def)
  next
    case greater
    define a where "a = used - estimated_units c"
    have t': "t' = snd (add_transaction_execution_cost t c a)"
      using greater by (auto simp: t'_def update_execution_cost_def used_def estimated_units_def a_def Let_def)
    have a: "unat a = overshoot c units loaded"
      unfolding a_def overshoot_def used_def [symmetric] using greater by (intro unat_sub_exact) simp
    have u: "unat (cost_sum c) + unat a = actual_units c units loaded"
      using greater by (simp add: a overshoot_def actual_units_def word_less_nat_alt flip: used_def)
    have "unat (block_cost t + a) = unat (block_cost t) + unat a" using assms(4) by (intro unat_add_exact) (simp add: a)
    then have "unat (block_cost t') = unat (block_cost t) + overshoot c units loaded"
      by (simp add: t' a add_transaction_execution_cost_def case_prod_unfold Let_def)
    moreover have "unat (block_cost t) + unat a < 2 ^ 64" using assms(4) by (simp add: a)
    ultimately show ?thesis
      using add_execution_cost_accounts [OF assms(1,3), of a] add_execution_cost_limits [OF assms(2,3), of a]
      unfolding t' u by simp
  next
    case less
    define a where "a = estimated_units c - used"
    have t': "t' = sub_transaction_execution_cost t c a"
      using less by (auto simp: t'_def update_execution_cost_def used_def estimated_units_def a_def Let_def)
    have a: "unat a = unat (estimated_units c) - unat used" unfolding a_def using less by (intro unat_sub_exact) simp
    then have au: "unat a \<le> unat (cost_sum c)" using le by simp
    have u: "unat (cost_sum c) - unat a = actual_units c units loaded"
      using less le by (simp add: a actual_units_def word_less_nat_alt flip: used_def)
    have "actual_units c units loaded - unat (cost_sum c) = 0" by (simp flip: u)
    then show ?thesis
      using sub_execution_cost_accounts [OF assms(1,3) au] sub_execution_cost_limits [OF assms(1-3) au]
      unfolding t' u by (simp add: within_limits_def)
  qed
  then show "accounts_for t' (add_mset (c, actual_units c units loaded) M)"
    "within_limits t' (add_mset (c, actual_units c units loaded) C)"
    "same_limits t t'" "unat (block_cost t') \<le> unat (block_cost t) + overshoot c units loaded" by blast+
qed

end
