(* ===== verification/QosService.thy ===== *)
theory QosService
  imports CostTracker
begin

text \<open>
  Quality of service of the block producer, \<^verbatim>\<open>core/src/banking_stage/qos_service.rs\<close>: the
  estimated cost of the transactions of a batch is reserved in the cost tracker before execution and
  corrected or released after it. The batches of several threads interleave; every operation holds
  the lock of the tracker. Timers and counters of metrics are left out.
\<close>

section \<open>Reserving and settling\<close>

primrec compute_transaction_costs ::
    "CostEnv \<Rightarrow> FeatureSet \<Rightarrow> (CostTransaction \<times> (TransactionError + unit)) list \<Rightarrow>
     (TransactionError + TransactionCost) list option" where
  "compute_transaction_costs env is_active [] = Some []"
| "compute_transaction_costs env is_active (tx_pre_result # rest) = do {
     cost \<leftarrow> (case tx_pre_result of
         (tx, Inl e) \<Rightarrow> Some (Inl e)
       | (tx, Inr _) \<Rightarrow> map_option Inr (calculate_cost env is_active tx));
     costs \<leftarrow> compute_transaction_costs env is_active rest;
     Some (cost # costs) }"

fun select_costs ::
    "CostTracker \<Rightarrow> (TransactionError + TransactionCost) list \<Rightarrow>
     (TransactionError + TransactionCost) list \<times> nat \<times> CostTracker" where
  "select_costs t [] = ([], 0, t)"
| "select_costs t (Inl e # rest) =
     (let (results, included, t) = select_costs t rest in (Inl e # results, included, t))"
| "select_costs t (Inr c # rest) =
     (case try_add t c of
        (Inr _, t) \<Rightarrow> (let (results, included, t) = select_costs t rest in (Inr c # results, Suc included, t))
      | (Inl e, t) \<Rightarrow>
          (let (results, included, t) = select_costs t rest
           in (Inl (TransactionError_from e) # results, included, t)))"

definition select_transactions_per_cost ::
    "CostTracker \<Rightarrow> CostTransaction list \<Rightarrow> (TransactionError + TransactionCost) list \<Rightarrow>
     ((TransactionError + TransactionCost) list \<times> nat) \<times> CostTracker" where
  "select_transactions_per_cost t txs costs =
     (let (results, included, t) = select_costs t (map snd (zip txs costs))
      in ((results, included), add_transactions_in_flight t (word_of_nat included)))"

definition select_and_accumulate_transaction_costs ::
    "CostEnv \<Rightarrow> FeatureSet \<Rightarrow> CostTracker \<Rightarrow> CostTransaction list \<Rightarrow> (TransactionError + unit) list \<Rightarrow>
     (((TransactionError + TransactionCost) list \<times> u64) \<times> CostTracker) option" where
  "select_and_accumulate_transaction_costs env is_active t txs pre_results = do {
     costs \<leftarrow> compute_transaction_costs env is_active (zip txs pre_results);
     (let ((results, included), t) = select_transactions_per_cost t txs costs
      in Some ((results, word_of_nat (length txs - included)), t)) }"

fun update_recorded ::
    "CostEnv \<Rightarrow> CostTracker \<Rightarrow> ((TransactionError + TransactionCost) \<times> CommitTransactionDetails) list \<Rightarrow> nat \<Rightarrow>
     nat \<times> CostTracker" where
  "update_recorded env t [] included = (included, t)"
| "update_recorded env t ((Inl e, _) # rest) included = update_recorded env t rest included"
| "update_recorded env t ((Inr c, Committed units loaded _ _) # rest) included =
     update_recorded env
       (update_execution_cost t c units (calculate_loaded_accounts_data_size_cost env loaded)) rest (Suc included)"
| "update_recorded env t ((Inr c, NotCommitted _) # rest) included =
     update_recorded env (CostTracker_remove t c) rest (Suc included)"

definition remove_or_update_recorded_transaction_costs ::
    "CostEnv \<Rightarrow> CostTracker \<Rightarrow> (TransactionError + TransactionCost) list \<Rightarrow> CommitTransactionDetails list \<Rightarrow> CostTracker" where
  "remove_or_update_recorded_transaction_costs env t results statuses =
     (let (included, t) = update_recorded env t (zip results statuses) 0
      in sub_transactions_in_flight t (word_of_nat included))"

fun remove_unrecorded :: "CostTracker \<Rightarrow> (TransactionError + TransactionCost) list \<Rightarrow> nat \<Rightarrow> nat \<times> CostTracker" where
  "remove_unrecorded t [] included = (included, t)"
| "remove_unrecorded t (Inl e # rest) included = remove_unrecorded t rest included"
| "remove_unrecorded t (Inr c # rest) included = remove_unrecorded (CostTracker_remove t c) rest (Suc included)"

definition remove_unrecorded_transaction_costs ::
    "CostTracker \<Rightarrow> (TransactionError + TransactionCost) list \<Rightarrow> CostTracker" where
  "remove_unrecorded_transaction_costs t results =
     (let (included, t) = remove_unrecorded t results 0
      in sub_transactions_in_flight t (word_of_nat included))"

definition remove_or_update_costs ::
    "CostEnv \<Rightarrow> CostTracker \<Rightarrow> (TransactionError + TransactionCost) list \<Rightarrow> CommitTransactionDetails list option \<Rightarrow>
     CostTracker" where
  "remove_or_update_costs env t results committed_status =
     (case committed_status of
        Some statuses \<Rightarrow> remove_or_update_recorded_transaction_costs env t results statuses
      | None \<Rightarrow> remove_unrecorded_transaction_costs t results)"

section \<open>Batches\<close>

text \<open>The charges of a reserved batch, and those left once it is settled.\<close>

fun reserved :: "(TransactionError + TransactionCost) list \<Rightarrow> charges" where
  "reserved [] = {#}"
| "reserved (Inl _ # rest) = reserved rest"
| "reserved (Inr c # rest) = add_mset (c, unat (cost_sum c)) (reserved rest)"

fun settled :: "CostEnv \<Rightarrow> ((TransactionError + TransactionCost) \<times> CommitTransactionDetails) list \<Rightarrow> charges" where
  "settled env [] = {#}"
| "settled env ((Inr c, Committed units loaded _ _) # rest) =
     add_mset (c, actual_units c units (calculate_loaded_accounts_data_size_cost env loaded)) (settled env rest)"
| "settled env (_ # rest) = settled env rest"

definition costs_ok :: "(TransactionError + TransactionCost) list \<Rightarrow> bool" where
  "costs_ok results \<longleftrightarrow> (\<forall>c. Inr c \<in> set results \<longrightarrow> distinct (writable_accounts c))"

lemma costs_ok_simps [simp]:
  "costs_ok []" "costs_ok (Inl e # rest) = costs_ok rest"
  "costs_ok (Inr c # rest) \<longleftrightarrow> distinct (writable_accounts c) \<and> costs_ok rest"
  by (auto simp: costs_ok_def)

lemma select_costs_accounts:
  assumes "accounts_for t M" and "within_limits t C" and "costs_ok costs" and "size M + length costs < 2 ^ 64"
    and "block_cost_limit t < - 1 \<or> unat (block_cost t) + charged_units (\<lambda>_. True) (reserved (fst (select_costs t costs))) < 2 ^ 64"
  shows "case select_costs t costs of (results, included, t') \<Rightarrow>
    accounts_for t' (reserved results + M) \<and> within_limits t' C \<and> same_limits t t' \<and> costs_ok results \<and>
    included = size (reserved results) \<and> size (reserved results) \<le> length costs"
  using assms
proof (induction t costs arbitrary: M rule: select_costs.induct)
  case (2 t e rest)
  then show ?case by (force split: prod.splits)
next
  case (3 t c rest)
  obtain r t1 where add: "try_add t c = (r, t1)" by fastforce
  obtain results included t2 where rest: "select_costs t1 rest = (results, included, t2)" by (metis prod_cases3)
  show ?case
  proof (cases r)
    case (Inl e)
    with add have "t1 = t" by (auto simp: try_add_def Let_def split: sum.splits prod.splits)
    with 3(1) [OF add [unfolded Inl, symmetric] refl, of M] 3(3-7) add Inl rest show ?thesis by auto
  next
    case (Inr updated)
    have fits: "block_cost_limit t < - 1 \<or>
        unat (block_cost t) + (unat (cost_sum c) + charged_units (\<lambda>_. True) (reserved results)) < 2 ^ 64"
      using 3(7) add rest by (simp add: Inr)
    then have "block_cost_limit t < - 1 \<or> unat (block_cost t) + unat (cost_sum c) < 2 ^ 64" by auto
    note t1 = try_add_accounts [OF 3(3,4) _ _ this add [unfolded Inr]]
    have t1: "accounts_for t1 (add_mset (c, unat (cost_sum c)) M)" "within_limits t1 C" "same_limits t t1"
      "unat (block_cost t1) = unat (block_cost t) + unat (cost_sum c)"
      using t1 3(5,6) by simp_all
    then have "block_cost_limit t1 < - 1 \<or> unat (block_cost t1) + charged_units (\<lambda>_. True) (reserved results) < 2 ^ 64"
      using fits by (auto simp: same_limits_def)
    with 3(2) [OF add [unfolded Inr, symmetric] refl t1(1,2)] 3(5,6) add Inr t1(3) rest show ?thesis
      by (auto intro: same_limits_trans)
  qed
qed simp

text \<open>The units by which settling a batch raises its charges above the estimates.\<close>

fun batch_overshoot :: "CostEnv \<Rightarrow> ((TransactionError + TransactionCost) \<times> CommitTransactionDetails) list \<Rightarrow> nat" where
  "batch_overshoot env [] = 0"
| "batch_overshoot env ((Inr c, Committed units loaded _ _) # rest) =
     overshoot c units (calculate_loaded_accounts_data_size_cost env loaded) + batch_overshoot env rest"
| "batch_overshoot env (_ # rest) = batch_overshoot env rest"

lemma update_recorded_accounts:
  assumes "accounts_for t (reserved (map fst settlement) + M)" and "within_limits t C"
    and "costs_ok (map fst settlement)" and "unat (block_cost t) + batch_overshoot env settlement < 2 ^ 64"
  shows "case update_recorded env t settlement k of (included, t') \<Rightarrow>
    accounts_for t' (settled env settlement + M) \<and> within_limits t' (settled env settlement + C) \<and> same_limits t t' \<and>
    included = k + size (reserved (map fst settlement))"
  using assms
proof (induction env t settlement k arbitrary: M C rule: update_recorded.induct)
  case (3 env t c units loaded balance result rest included)
  let ?l = "calculate_loaded_accounts_data_size_cost env loaded"
  have fits: "unat (block_cost t) + (overshoot c units ?l + batch_overshoot env rest) < 2 ^ 64" using 3(5) by simp
  then have one: "unat (block_cost t) + overshoot c units ?l < 2 ^ 64" by simp
  have t: "accounts_for t (add_mset (c, unat (cost_sum c)) (reserved (map fst rest) + M))"
    using 3(2) by simp
  note t' = update_execution_cost_accounts [OF t 3(3) _ one]
  have "accounts_for (update_execution_cost t c units ?l)
      (reserved (map fst rest) + add_mset (c, actual_units c units ?l) M)"
    "within_limits (update_execution_cost t c units ?l) (add_mset (c, actual_units c units ?l) C)"
    "unat (block_cost (update_execution_cost t c units ?l)) + batch_overshoot env rest < 2 ^ 64"
    using t'(1,2,4) 3(4) fits by simp_all
  from 3(1) [OF this(1,2) _ this(3)] 3(4) same_limits_trans [OF t'(3)] show ?case
    by (auto split: prod.splits)
next
  case (4 env t c e rest included)
  have t: "accounts_for t (add_mset (c, unat (cost_sum c)) (reserved (map fst rest) + M))"
    using 4(2) by simp
  note t' = remove_accounts [OF t 4(3)]
  have "unat (block_cost (CostTracker_remove t c)) + batch_overshoot env rest < 2 ^ 64"
    using t'(4) 4(4,5) by simp
  from 4(1) [OF t'(1,2) _ this] 4(4) same_limits_trans [OF t'(3)] show ?case
    by (auto split: prod.splits)
qed simp_all

lemma remove_unrecorded_accounts:
  assumes "accounts_for t (reserved results + M)" and "within_limits t C" and "costs_ok results"
  shows "case remove_unrecorded t results k of (included, t') \<Rightarrow>
    accounts_for t' M \<and> within_limits t' C \<and> same_limits t t' \<and> included = k + size (reserved results)"
  using assms
proof (induction t results k arbitrary: M rule: remove_unrecorded.induct)
  case (3 t c rest included)
  have t: "accounts_for t (add_mset (c, unat (cost_sum c)) (reserved rest + M))" using 3(2) by simp
  note t' = remove_accounts [OF t 3(3)]
  from 3(1) [OF t'(1,2)] 3(4) same_limits_trans [OF t'(3)] show ?case by (auto split: prod.splits)
qed simp_all

section \<open>Runs\<close>

text \<open>
  A run of the block producer on one block: batches are reserved and settled in any order, by any
  number of threads, under any limits and with any use reported, above the estimate or below.
  \<open>pending\<close> are the reserved batches, \<open>committed\<close> the charges of the settled ones.
  Transactions of a batch name no account twice, and neither the number of transactions nor the cost
  of the block leaves the range of its 64 bit counter: a limit of the block below the greatest 64 bit
  number is enough for that when a batch is reserved; settling may add the use above the estimates.
\<close>

inductive qos_run :: "CostEnv \<Rightarrow> FeatureSet \<Rightarrow> CostTracker \<Rightarrow>
    (TransactionError + TransactionCost) list list \<Rightarrow> charges \<Rightarrow> bool" for env is_active where
  start: "qos_run env is_active (set_limits CostTracker_default account_limit block_limit vote_limit) [] {#}"
| select: "qos_run env is_active t pending committed \<Longrightarrow>
    select_and_accumulate_transaction_costs env is_active t txs pre_results = Some ((results, throttled), t') \<Longrightarrow>
    list_all (\<lambda>tx. distinct (account_keys tx)) txs \<Longrightarrow>
    size (committed + sum_list (map reserved pending)) + length txs < 2 ^ 64 \<Longrightarrow>
    block_cost_limit t < - 1 \<or> unat (block_cost t) + charged_units (\<lambda>_. True) (reserved results) < 2 ^ 64 \<Longrightarrow>
    qos_run env is_active t' (results # pending) committed"
| record_error: "qos_run env is_active t (before @ results # later) committed \<Longrightarrow>
    qos_run env is_active (remove_or_update_costs env t results None) (before @ later) committed"
| settle: "qos_run env is_active t (before @ results # later) committed \<Longrightarrow>
    length statuses = length results \<Longrightarrow>
    unat (block_cost t) + batch_overshoot env (zip results statuses) < 2 ^ 64 \<Longrightarrow>
    qos_run env is_active (remove_or_update_costs env t results (Some statuses)) (before @ later)
      (settled env (zip results statuses) + committed)"

definition qos_inv :: "CostTracker \<Rightarrow> (TransactionError + TransactionCost) list list \<Rightarrow> charges \<Rightarrow> bool" where
  "qos_inv t pending committed \<longleftrightarrow>
     accounts_for t (committed + sum_list (map reserved pending)) \<and> within_limits t committed \<and>
     list_all costs_ok pending \<and>
     unat (in_flight_transaction_count t) = size (sum_list (map reserved pending)) \<and>
     size (committed + sum_list (map reserved pending)) < 2 ^ 64"

lemma in_flight_fields [simp]:
  "accounts_for (add_transactions_in_flight t n) M = accounts_for t M"
  "within_limits (add_transactions_in_flight t n) C = within_limits t C"
  "accounts_for (sub_transactions_in_flight t n) M = accounts_for t M"
  "within_limits (sub_transactions_in_flight t n) C = within_limits t C"
  by (simp_all add: add_transactions_in_flight_def sub_transactions_in_flight_def accounts_for_def
      within_limits_def account_cost_def)

lemma writable_accounts_distinct: "distinct (account_keys (cost_transaction c)) \<Longrightarrow> distinct (writable_accounts c)"
proof -
  assume "distinct (account_keys (cost_transaction c))"
  then have "distinct (map snd (enumerate 0 (account_keys (cost_transaction c))))" by simp
  then show ?thesis unfolding writable_accounts_def Let_def by (rule distinct_map_filter)
qed

lemma calculate_cost_transaction: "calculate_cost env is_active tx = Some c \<Longrightarrow> cost_transaction c = tx"
  by (auto simp: calculate_cost_def calculate_non_vote_transaction_cost_def bind_eq_Some_conv split: if_splits)

lemma compute_transaction_costs_ok:
  "compute_transaction_costs env is_active batch = Some costs \<Longrightarrow>
     list_all (\<lambda>(tx, _). distinct (account_keys tx)) batch \<Longrightarrow> costs_ok costs \<and> length costs = length batch"
proof (induction batch arbitrary: costs)
  case (Cons e batch)
  obtain tx pre where e: "e = (tx, pre)" by fastforce
  with Cons show ?case
    by (cases pre) (auto simp: bind_eq_Some_conv dest!: calculate_cost_transaction intro!: writable_accounts_distinct)
qed simp

lemma select_keeps_inv:
  assumes inv: "qos_inv t pending committed"
    and select: "select_and_accumulate_transaction_costs env is_active t txs pre_results = Some ((results, throttled), t')"
    and txs: "list_all (\<lambda>tx. distinct (account_keys tx)) txs"
    and bound: "size (committed + sum_list (map reserved pending)) + length txs < 2 ^ 64"
    and fits: "block_cost_limit t < - 1 \<or> unat (block_cost t) + charged_units (\<lambda>_. True) (reserved results) < 2 ^ 64"
  shows "qos_inv t' (results # pending) committed"
proof -
  let ?M = "committed + sum_list (map reserved pending)"
  from select obtain costs t1 included where
    costs: "compute_transaction_costs env is_active (zip txs pre_results) = Some costs"
    and select: "select_costs t (map snd (zip txs costs)) = (results, included, t1)"
    and t': "t' = add_transactions_in_flight t1 (word_of_nat included)"
    by (auto simp: select_and_accumulate_transaction_costs_def select_transactions_per_cost_def
        bind_eq_Some_conv Let_def split: prod.splits)
  from txs have "list_all (\<lambda>(tx, _). distinct (account_keys tx)) (zip txs pre_results)"
    by (auto simp: list_all_iff dest: set_zip_leftD)
  note ok = compute_transaction_costs_ok [OF costs this]
  then have "map snd (zip txs costs) = costs" by (simp add: map_snd_zip_take)
  with select have select: "select_costs t costs = (results, included, t1)" by simp
  from ok bound have small: "size ?M + length costs < 2 ^ 64" by simp
  from inv have t: "accounts_for t ?M" "within_limits t committed" by (simp_all add: qos_inv_def)
  from select_costs_accounts [OF t conjunct1 [OF ok] small] fits have
    t1: "accounts_for t1 (reserved results + ?M)" "within_limits t1 committed" "same_limits t t1" "costs_ok results"
      "included = size (reserved results)" "size (reserved results) \<le> length costs"
    unfolding select by simp_all
  have "unat (in_flight_transaction_count t') = size (sum_list (map reserved (results # pending)))"
    using t1(3,5,6) small inv
    by (simp add: t' qos_inv_def add_transactions_in_flight_def same_limits_def unat_ops unat_of_nat_exact)
  with t1 small inv show ?thesis by (simp add: t' qos_inv_def ac_simps)
qed

lemma settle_keeps_inv:
  assumes inv: "qos_inv t (before @ results # later) committed"
    and t': "accounts_for t' (left + (committed + sum_list (map reserved (before @ later))))" "within_limits t' (left + committed)"
      "same_limits t t'" and left: "size left \<le> size (reserved results)"
  shows "qos_inv (sub_transactions_in_flight t' (word_of_nat (size (reserved results)))) (before @ later) (left + committed)"
proof -
  have "unat (word_of_nat (size (reserved results)) :: usize) = size (reserved results)"
    using inv by (intro unat_of_nat_exact) (simp add: qos_inv_def)
  then have "unat (in_flight_transaction_count (sub_transactions_in_flight t' (word_of_nat (size (reserved results))))) =
      size (sum_list (map reserved (before @ later)))"
    using inv t'(3) by (simp add: qos_inv_def sub_transactions_in_flight_def same_limits_def unat_ops)
  with inv t' left show ?thesis by (simp add: qos_inv_def ac_simps)
qed

lemma size_reserved_Cons: "size (reserved rest) \<le> size (reserved (r # rest))"
  by (cases r) simp_all

lemma size_settled: "size (settled env settlement) \<le> size (reserved (map fst settlement))"
  by (induction env settlement rule: settled.induct) (auto intro: order_trans [OF _ size_reserved_Cons])

lemma qos_run_inv: "qos_run env is_active t pending committed \<Longrightarrow> qos_inv t pending committed"
proof (induction rule: qos_run.induct)
  case (start account_limit block_limit vote_limit)
  show ?case
    by (simp add: qos_inv_def accounts_for_def within_limits_def set_limits_def CostTracker_default_def account_cost_def)
next
  case (select t pending committed txs pre_results results throttled t')
  from select_keeps_inv [OF select(6,2,3,4,5)] show ?case .
next
  case (record_error t before results later committed)
  let ?M = "committed + sum_list (map reserved (before @ later))"
  have t: "accounts_for t (reserved results + ?M)" "within_limits t committed" "costs_ok results"
    using record_error(2) by (simp_all add: qos_inv_def ac_simps)
  obtain included t' where r: "remove_unrecorded t results 0 = (included, t')" by fastforce
  from remove_unrecorded_accounts [OF t, of 0] settle_keeps_inv [OF record_error(2), of t' "{#}"] show ?case
    by (simp add: remove_or_update_costs_def remove_unrecorded_transaction_costs_def r)
next
  case (settle t before results later committed statuses)
  let ?M = "committed + sum_list (map reserved (before @ later))" and ?z = "zip results statuses"
  have fst: "map fst ?z = results" using settle(2) by simp
  have t: "accounts_for t (reserved (map fst ?z) + ?M)" "within_limits t committed" "costs_ok (map fst ?z)"
    using settle(4) unfolding fst by (simp_all add: qos_inv_def ac_simps)
  obtain included t' where r: "update_recorded env t ?z 0 = (included, t')" by fastforce
  from update_recorded_accounts [OF t settle(3), of 0] settle_keeps_inv [OF settle(4), of t' "settled env ?z"]
    size_settled [of env ?z] show ?case unfolding fst
    by (simp add: remove_or_update_costs_def remove_or_update_recorded_transaction_costs_def r)
qed

text \<open>C20: At every moment of a run the cost tracker accounts exactly for the transactions charged to
  the block: the block cost, the cost of every writable account, the vote cost and the allocated
  data are the sums over the batches still in flight, at their estimated cost, and the committed
  transactions, at their actual cost; transactions that were not committed or whose batch was not
  recorded leave nothing behind. A use above the estimate is added, one below it is given back. The
  number of transactions in flight is that of the reserved batches. A run reserves and settles batches
  in any order as long as the cost of the block and the number of transactions fit 64 bits.\<close>

theorem cost_tracker_conserves:
  assumes "qos_run env is_active t pending committed"
    and "M = committed + sum_list (map reserved pending)"
  shows "unat (block_cost t) = charged_units (\<lambda>_. True) M \<and>
    (\<forall>key. unat (account_cost t key) = charged_units (\<lambda>c. key \<in> set (writable_accounts c)) M) \<and>
    unat (vote_cost t) = charged_units should_track_as_simple_vote M \<and>
    unat (tracked_allocated_accounts_data_size t) = allocated_units M \<and>
    unat (transaction_count t) = size M \<and>
    unat (in_flight_transaction_count t) = size (sum_list (map reserved pending))"
  using qos_run_inv [OF assms(1)] assms(2) by (simp add: qos_inv_def accounts_for_def)


definition demo_estimate :: TransactionCost where
  "demo_estimate = Transaction
     \<lparr>usage_transaction = demo_cost_tx, usage_signature_cost = 720, usage_write_lock_cost = 300,
      usage_data_bytes_cost = 10, usage_programs_execution_cost = 5000,
      usage_loaded_accounts_data_size_cost = 16384, usage_allocated_accounts_data_size = 0\<rparr>"

lemma demo_cost: "calculate_cost demo_cost_env (\<lambda>_. False) demo_cost_tx = Some demo_estimate"
proof -
  have "sanitize_and_convert_to_compute_budget_limits (budget_env demo_cost_env) (\<lambda>_. False)
      (compute_budget_instruction_details demo_cost_tx) = Some (Inr \<lparr>updated_heap_bytes = 32768,
        compute_unit_limit = 5000, compute_unit_price = 0, loaded_accounts_bytes = 67108864\<rparr>)"
    by (simp add: sanitize_and_convert_to_compute_budget_limits_def demo_cost_tx_def demo_cost_env_def
        ComputeBudgetInstructionDetails_default_def demo_budget_env_def budget_constants)
  then have "get_estimated_execution_cost demo_cost_env (\<lambda>_. False) demo_cost_tx = Some (5000, 16384)"
    by (simp add: get_estimated_execution_cost_def calculate_loaded_accounts_data_size_cost_def
        demo_cost_env_def DEFAULT_HEAP_COST_def num_ops)
  then show ?thesis
    by (simp add: calculate_cost_def demo_estimate_def calculate_non_vote_transaction_cost_def)
      (simp add: demo_cost_tx_def get_signature_cost_def get_write_lock_cost_def get_instructions_data_cost_def
        calculate_allocated_accounts_data_size_def cost_constants num_ops demo_cost_env_def)
qed

lemma demo_cost_sum: "cost_sum demo_estimate = 22414"
  by (simp add: demo_estimate_def UsageCostDetails_sum_def num_ops)

lemma demo_qos_run:
  assumes "saturating_add units 16 = (used :: u64)" and "unat used \<le> 1000000"
  shows "\<exists>t. qos_run demo_cost_env (\<lambda>_. False) t [] {#(demo_estimate, 1030 + unat used)#}"
proof -
  let ?t = "set_limits CostTracker_default 24000000 60000000 36000000"
  let ?status = "[Committed units 40000 0 (Inr ())]"
  have "would_fit ?t demo_estimate = Inr ()"
    by (simp add: would_fit_def demo_cost_sum accounts_fit_iff set_limits_def CostTracker_default_def)
      (simp add: demo_estimate_def num_ops MAX_BLOCK_ACCOUNTS_DATA_SIZE_DELTA_def)
  then obtain updated t1 where "try_add ?t demo_estimate = (Inr updated, t1)"
    by (auto simp: try_add_def Let_def case_prod_unfold)
  then obtain t2 where select: "select_and_accumulate_transaction_costs demo_cost_env (\<lambda>_. False) ?t [demo_cost_tx]
      [Inr ()] = Some (([Inr demo_estimate], 0), t2)"
    by (simp add: select_and_accumulate_transaction_costs_def demo_cost select_transactions_per_cost_def)
  have "block_cost_limit ?t < - 1" by (simp add: set_limits_def word_less_nat_alt unat_max_word)
  with qos_run.select [OF start select] have run: "qos_run demo_cost_env (\<lambda>_. False) t2 ([] @ [Inr demo_estimate] # []) {#}"
    by (simp add: demo_cost_tx_def)
  have block: "unat (block_cost t2) = 22414"
    using qos_run_inv [OF run] by (simp add: qos_inv_def accounts_for_def demo_cost_sum)
  have actual: "calculate_loaded_accounts_data_size_cost demo_cost_env 40000 = 16" "estimated_units demo_estimate = 21384"
    by (simp_all add: calculate_loaded_accounts_data_size_cost_def demo_cost_env_def DEFAULT_HEAP_COST_def num_ops
        estimated_units_def demo_estimate_def)
  have "unat (block_cost t2) + batch_overshoot demo_cost_env (zip [Inr demo_estimate] ?status) < 2 ^ 64"
    using assms by (simp add: actual overshoot_def block)
  moreover have "settled demo_cost_env (zip [Inr demo_estimate] ?status) = {#(demo_estimate, 1030 + unat used)#}"
    using assms(1) by (simp add: actual actual_units_def demo_cost_sum)
  ultimately show ?thesis
    using settle [OF run, of ?status] by auto
qed

theorem cost_tracker_conserves_witness:
  "(\<exists>t. qos_run demo_cost_env (\<lambda>_. False) t [] {#(demo_estimate, 1146)#} \<and> unat (block_cost t) = 1146 \<and>
     unat (in_flight_transaction_count t) = 0)
   \<and> (\<exists>t. qos_run demo_cost_env (\<lambda>_. False) t [] {#(demo_estimate, 31046)#} \<and> unat (block_cost t) = 31046)"
proof -
  obtain t where run: "qos_run demo_cost_env (\<lambda>_. False) t [] {#(demo_estimate, 1146)#}"
    using demo_qos_run [of 100 116] by (auto simp: num_ops)
  obtain t' where run': "qos_run demo_cost_env (\<lambda>_. False) t' [] {#(demo_estimate, 31046)#}"
    using demo_qos_run [of 30000 30016] by (auto simp: num_ops)
  from run run' cost_tracker_conserves [OF run refl] cost_tracker_conserves [OF run' refl] show ?thesis by auto
qed


end
