(* ===== verification/BlockhashQueue.thy ===== *)
theory BlockhashQueue
  imports Prelude
begin

text \<open>
  The queue of recent blockhashes, \<^verbatim>\<open>accounts-db/src/blockhash_queue.rs\<close>. The hash map is
  an association list in key order. The time of registration is an argument. The lemmas show that
  the queue answers every query on the age of a hash as the full history of registrations would,
  although it forgets old hashes.
\<close>

section \<open>Operations\<close>

record FeeCalculator =
  lamports_per_signature :: u64

record HashInfo =
  fee_calculator :: FeeCalculator
  hash_index :: u64
  timestamp :: u64

record BlockhashQueue =
  last_hash_index :: u64
  last_hash :: "Hash option"
  hashes :: "(Hash, HashInfo) btree"
  max_age :: nat

definition BlockhashQueue_new :: "nat \<Rightarrow> BlockhashQueue" where
  "BlockhashQueue_new age_limit = \<lparr>last_hash_index = 0, last_hash = None, hashes = [], max_age = age_limit\<rparr>"

definition get_last_hash :: "BlockhashQueue \<Rightarrow> Hash option" where
  "get_last_hash q = last_hash q"

definition get_lamports_per_signature :: "BlockhashQueue \<Rightarrow> Hash \<Rightarrow> u64 option" where
  "get_lamports_per_signature q hash =
     map_option (\<lambda>info. lamports_per_signature (fee_calculator info)) (map_of (hashes q) hash)"

definition is_hash_index_valid :: "u64 \<Rightarrow> nat \<Rightarrow> u64 \<Rightarrow> bool" where
  "is_hash_index_valid last_index age_limit index \<longleftrightarrow> last_index - index \<le> word_of_nat age_limit"

definition get_hash_info_if_valid :: "BlockhashQueue \<Rightarrow> Hash \<Rightarrow> nat \<Rightarrow> HashInfo option" where
  "get_hash_info_if_valid q hash age_limit =
     (case map_of (hashes q) hash of
        Some info \<Rightarrow>
          if is_hash_index_valid (last_hash_index q) age_limit (hash_index info) then Some info else None
      | None \<Rightarrow> None)"

definition is_hash_valid_for_age :: "BlockhashQueue \<Rightarrow> Hash \<Rightarrow> nat \<Rightarrow> bool" where
  "is_hash_valid_for_age q hash age_limit \<longleftrightarrow> get_hash_info_if_valid q hash age_limit \<noteq> None"

definition get_hash_age :: "BlockhashQueue \<Rightarrow> Hash \<Rightarrow> u64 option" where
  "get_hash_age q hash = map_option (\<lambda>info. last_hash_index q - hash_index info) (map_of (hashes q) hash)"

definition genesis_hash :: "BlockhashQueue \<Rightarrow> Hash \<Rightarrow> u64 \<Rightarrow> u64 \<Rightarrow> BlockhashQueue" where
  "genesis_hash q hash lamports now =
     q \<lparr>hashes := btree_insert hash
          \<lparr>fee_calculator = \<lparr>lamports_per_signature = lamports\<rparr>, hash_index = 0, timestamp = now\<rparr> (hashes q),
        last_hash := Some hash\<rparr>"

definition register_hash :: "BlockhashQueue \<Rightarrow> Hash \<Rightarrow> u64 \<Rightarrow> u64 \<Rightarrow> BlockhashQueue" where
  "register_hash q hash lamports now =
     (let index = last_hash_index q + 1;
          kept = (if max_age q \<le> length (hashes q)
                  then filter (\<lambda>(_, info). is_hash_index_valid index (max_age q) (hash_index info)) (hashes q)
                  else hashes q)
      in q \<lparr>last_hash_index := index,
            hashes := btree_insert hash
              \<lparr>fee_calculator = \<lparr>lamports_per_signature = lamports\<rparr>, hash_index = index, timestamp = now\<rparr> kept,
            last_hash := Some hash\<rparr>)"

section \<open>Histories\<close>

text \<open>
  A history lists the registered hashes and their fees, the latest first; the last entry is the
  genesis hash. Ages are counted in registrations.
\<close>

inductive queue_run :: "nat \<Rightarrow> BlockhashQueue \<Rightarrow> (Hash \<times> u64) list \<Rightarrow> bool" for age_limit where
  genesis: "age_limit < 2 ^ 63 \<Longrightarrow>
    queue_run age_limit (genesis_hash (BlockhashQueue_new age_limit) hash lamports now) [(hash, lamports)]"
| register: "queue_run age_limit q history \<Longrightarrow> length history < 2 ^ 63 \<Longrightarrow>
    queue_run age_limit (register_hash q hash lamports now) ((hash, lamports) # history)"

fun first_index :: "Hash \<Rightarrow> (Hash \<times> u64) list \<Rightarrow> nat option" where
  "first_index h [] = None"
| "first_index h ((h', _) # history) = (if h = h' then Some 0 else map_option Suc (first_index h history))"

lemma first_index_bound: "first_index h history = Some i \<Longrightarrow> i < length history"
  by (induction history arbitrary: i) (auto split: if_splits)

lemma first_index_take:
  "h \<in> fst ` set (take n history) \<longleftrightarrow> (\<exists>i. first_index h history = Some i \<and> i < n)"
  by (induction history arbitrary: n) (auto simp: take_Cons' split: if_splits)

lemma first_index_fee: "first_index h history = Some i \<Longrightarrow> map_of history h = Some (snd (history ! i))"
  by (induction history arbitrary: i) (auto split: if_splits)

definition queue_inv :: "nat \<Rightarrow> BlockhashQueue \<Rightarrow> (Hash \<times> u64) list \<Rightarrow> bool" where
  "queue_inv age_limit q history \<longleftrightarrow>
     history \<noteq> [] \<and> length history \<le> 2 ^ 63 \<and> age_limit < 2 ^ 63 \<and> max_age q = age_limit \<and>
     btree_ok (hashes q) \<and> last_hash q = Some (fst (hd history)) \<and>
     unat (last_hash_index q) = length history - 1 \<and>
     (\<forall>h info. map_of (hashes q) h = Some info \<longrightarrow>
        (\<exists>i. first_index h history = Some i \<and> unat (hash_index info) + i = length history - 1 \<and>
             map_of history h = Some (lamports_per_signature (fee_calculator info)))) \<and>
     (\<forall>h i. first_index h history = Some i \<longrightarrow> i \<le> age_limit \<longrightarrow> map_of (hashes q) h \<noteq> None)"

lemma index_valid_iff:
  assumes "unat (latest :: u64) = n" and "unat index + i = n" and "age_limit < 2 ^ 63"
  shows "is_hash_index_valid latest age_limit index \<longleftrightarrow> i \<le> age_limit" and "unat (latest - index) = i"
proof -
  from assms have "index \<le> latest" by (simp add: word_le_nat_alt)
  with assms show diff: "unat (latest - index) = i" by (simp add: unat_sub)
  from assms(3) show "is_hash_index_valid latest age_limit index \<longleftrightarrow> i \<le> age_limit"
    by (simp add: is_hash_index_valid_def word_le_nat_alt diff unat_of_nat)
qed

lemma queue_run_inv: "queue_run age_limit q history \<Longrightarrow> queue_inv age_limit q history"
proof (induction rule: queue_run.induct)
  case (genesis hash lamports now)
  then show ?case by (auto simp: queue_inv_def genesis_hash_def BlockhashQueue_new_def)
next
  case (register q history hash lamports now)
  note inv = register(3) [unfolded queue_inv_def]
  let ?q = "register_hash q hash lamports now" and ?index = "last_hash_index q + 1"
  define kept where "kept = (if max_age q \<le> length (hashes q)
    then filter (\<lambda>(_, info). is_hash_index_valid ?index (max_age q) (hash_index info)) (hashes q) else hashes q)"
  have index: "unat ?index = length history"
    using inv register(2) by (subst unat_add_exact) simp_all
  have kept: "btree_ok kept" using inv by (simp add: kept_def btree_ok_filter)
  have lookup: "map_of kept h = (case map_of (hashes q) h of
      Some info \<Rightarrow> if max_age q \<le> length (hashes q) \<and> \<not> is_hash_index_valid ?index (max_age q) (hash_index info)
        then None else Some info
    | None \<Rightarrow> None)" for h
    using inv by (auto simp: kept_def map_of_filter_distinct btree_distinct split: option.splits)
  have q: "map_of (hashes ?q) = (map_of kept)(hash \<mapsto>
      \<lparr>fee_calculator = \<lparr>lamports_per_signature = lamports\<rparr>, hash_index = ?index, timestamp = now\<rparr>)"
    using kept by (simp add: register_hash_def Let_def btree_lookup_insert kept_def)
  have fields: "max_age ?q = max_age q" "last_hash ?q = Some hash" "last_hash_index ?q = ?index" "btree_ok (hashes ?q)"
    using kept by (simp_all add: register_hash_def Let_def btree_ok_insert kept_def)
  have old: "\<exists>i. first_index h ((hash, lamports) # history) = Some i \<and>
      unat (hash_index info) + i = length history \<and> map_of ((hash, lamports) # history) h =
        Some (lamports_per_signature (fee_calculator info))"
    if "map_of (hashes q) h = Some info" "h \<noteq> hash" for h info
  proof -
    from inv that(1) obtain i where "first_index h history = Some i" "unat (hash_index info) + i = length history - 1"
      "map_of history h = Some (lamports_per_signature (fee_calculator info))" by blast
    with inv that(2) show ?thesis by (intro exI [of _ "Suc i"]) (cases history, auto)
  qed
  have "map_of (hashes ?q) h \<noteq> None"
    if first: "first_index h ((hash, lamports) # history) = Some i" "i \<le> age_limit" for h i
  proof (cases "h = hash")
    case False
    with first obtain j where j: "first_index h history = Some j" "i = Suc j" by auto
    with inv first(2) obtain info where info: "map_of (hashes q) h = Some info" by force
    with inv j obtain k where "first_index h history = Some k" "unat (hash_index info) + k = length history - 1"
      by blast
    with j inv have "unat (hash_index info) + i = length history"
      by (cases history) auto
    from index_valid_iff(1) [OF index this, of age_limit] first(2) inv info False show ?thesis
      by (simp add: q lookup)
  qed (simp add: q)
  moreover have "\<exists>i. first_index h ((hash, lamports) # history) = Some i \<and>
      unat (hash_index info) + i = length history \<and> map_of ((hash, lamports) # history) h =
        Some (lamports_per_signature (fee_calculator info))"
    if "map_of (hashes ?q) h = Some info" for h info
  proof (cases "h = hash")
    case True
    with that index show ?thesis by (auto simp: q)
  next
    case False
    with that have "map_of (hashes q) h = Some info" by (auto simp: q lookup split: option.splits if_splits)
    from old [OF this False] show ?thesis .
  qed
  ultimately show ?case
    using inv register(2) index fields unfolding queue_inv_def by simp
qed

text \<open>Once more hashes than the maximum age are stored, the older ones are evicted.\<close>

lemma queue_full:
  assumes "queue_inv age_limit q history" and "distinct (map fst history)" and "age_limit < length history"
  shows "age_limit < length (hashes q)"
proof -
  have "fst ` set (take (Suc age_limit) history) \<subseteq> fst ` set (hashes q)"
  proof
    fix h assume "h \<in> fst ` set (take (Suc age_limit) history)"
    then obtain i where "first_index h history = Some i" "i < Suc age_limit" unfolding first_index_take by blast
    then have "map_of (hashes q) h \<noteq> None" using assms(1) by (simp add: queue_inv_def)
    then show "h \<in> fst ` set (hashes q)" by (simp add: map_of_eq_None_iff)
  qed
  then have "card (fst ` set (take (Suc age_limit) history)) \<le> card (fst ` set (hashes q))" by (intro card_mono) simp_all
  moreover have "distinct (map fst (take (Suc age_limit) history))"
    using assms(2) by (simp add: take_map [symmetric])
  then have "card (fst ` set (take (Suc age_limit) history)) = Suc age_limit"
    using assms(3) distinct_card by fastforce
  moreover have "card (fst ` set (hashes q)) \<le> length (hashes q)"
    by (metis card_length length_map list.set_map)
  ultimately show ?thesis by simp
qed

lemma queue_evicts:
  assumes "queue_run age_limit q history" and "distinct (map fst history)"
    and "first_index h history = Some i" and "age_limit < i"
  shows "map_of (hashes q) h = None"
  using assms
proof (induction arbitrary: i rule: queue_run.induct)
  case (genesis hash lamports now)
  then show ?case by (simp split: if_splits)
next
  case (register q history hash lamports now)
  note inv = queue_run_inv [OF register(1)]
  have ne: "h \<noteq> hash" using register.prems(2,3) by auto
  with register.prems(2) obtain j where j: "first_index h history = Some j" "i = Suc j" by auto
  have ok: "btree_ok (hashes q)" "max_age q = age_limit" "age_limit < 2 ^ 63" "unat (last_hash_index q) = length history - 1"
    "history \<noteq> []" using inv by (simp_all add: queue_inv_def)
  have full: "max_age q \<le> length (hashes q)"
    using queue_full [OF inv] first_index_bound [OF j(1)] register.prems(1,3) j(2) ok(2) by simp
  have index: "unat (last_hash_index q + 1) = length history"
    using ok(4,5) register(2) by (subst unat_add_exact) simp_all
  have "\<not> is_hash_index_valid (last_hash_index q + 1) (max_age q) (hash_index info)" if "map_of (hashes q) h = Some info" for info
  proof -
    have "unat (hash_index info) + i = length history"
      using inv that j ok(5) by (cases history) (force simp: queue_inv_def)+
    from index_valid_iff(1) [OF index this, of age_limit] ok(2,3) register.prems(3) show ?thesis by simp
  qed
  then have "map_of (filter (\<lambda>(_, info). is_hash_index_valid (last_hash_index q + 1) (max_age q) (hash_index info)) (hashes q)) h = None"
    using ok(1) by (auto simp: map_of_filter_distinct btree_distinct split: option.splits)
  with full ne ok(1) show ?case
    by (simp add: register_hash_def Let_def btree_lookup_insert btree_ok_filter)
qed

text \<open>C22: Over any history of registrations the queue answers as the history does. The last hash is
  the latest registered one; a hash is valid for an age up to the maximum age of the queue exactly
  when it is among the latest registrations within that age. The age of a hash is the number of
  registrations since its latest one and its fee the one registered with it: the queue gives both for
  every hash within the maximum age, neither for a hash that was never registered, and for an older
  hash either both or neither, always neither when no hash was registered twice.\<close>

theorem blockhash_queue_refines_history:
  assumes "queue_run age_limit q history"
  shows "get_last_hash q = Some (fst (hd history)) \<and>
    (\<forall>h. \<forall>a \<le> age_limit. is_hash_valid_for_age q h a \<longleftrightarrow> h \<in> fst ` set (take (Suc a) history)) \<and>
    (\<forall>h. case first_index h history of
       None \<Rightarrow> get_hash_age q h = None \<and> get_lamports_per_signature q h = None
     | Some i \<Rightarrow>
         if i \<le> age_limit
         then get_hash_age q h = Some (word_of_nat i) \<and> get_lamports_per_signature q h = Some (snd (history ! i))
         else get_hash_age q h = None \<and> get_lamports_per_signature q h = None
           \<or> \<not> distinct (map fst history) \<and>
             get_hash_age q h = Some (word_of_nat i) \<and> get_lamports_per_signature q h = Some (snd (history ! i)))"
proof -
  note inv = queue_run_inv [OF assms, unfolded queue_inv_def]
  have age: "is_hash_index_valid (last_hash_index q) a (hash_index info) \<longleftrightarrow> i \<le> a"
    "last_hash_index q - hash_index info = word_of_nat i"
    if "map_of (hashes q) h = Some info" "first_index h history = Some i" "a \<le> age_limit" for h info i a
  proof -
    from inv that(1,2) have "unat (hash_index info) + i = length history - 1" by force
    from index_valid_iff [of "last_hash_index q", OF _ this, of a] inv that(3)
    show "is_hash_index_valid (last_hash_index q) a (hash_index info) \<longleftrightarrow> i \<le> a"
      "last_hash_index q - hash_index info = word_of_nat i" by auto
  qed
  have valid: "is_hash_valid_for_age q h a \<longleftrightarrow> h \<in> fst ` set (take (Suc a) history)" if "a \<le> age_limit" for h a
  proof (cases "map_of (hashes q) h")
    case None
    with inv that have "\<not> (\<exists>i. first_index h history = Some i \<and> i < Suc a)" by fastforce
    with None show ?thesis
      unfolding first_index_take by (simp add: is_hash_valid_for_age_def get_hash_info_if_valid_def)
  next
    case (Some info)
    with inv obtain i where i: "first_index h history = Some i" by blast
    from age(1) [OF Some i that] Some i show ?thesis
      unfolding first_index_take by (auto simp: is_hash_valid_for_age_def get_hash_info_if_valid_def)
  qed
  have stored: "get_hash_age q h = Some (word_of_nat i) \<and> get_lamports_per_signature q h = Some (snd (history ! i))"
    if "map_of (hashes q) h = Some info" "first_index h history = Some i" for h info i
  proof -
    have "map_of history h = Some (lamports_per_signature (fee_calculator info))" using inv that(1) by blast
    then show ?thesis using age(2) [OF that order_refl] that(1) first_index_fee [OF that(2)]
      by (simp add: get_hash_age_def get_lamports_per_signature_def)
  qed
  have absent: "get_hash_age q h = None \<and> get_lamports_per_signature q h = None" if "map_of (hashes q) h = None" for h
    using that by (simp add: get_hash_age_def get_lamports_per_signature_def)
  have "case first_index h history of
       None \<Rightarrow> get_hash_age q h = None \<and> get_lamports_per_signature q h = None
     | Some i \<Rightarrow>
         if i \<le> age_limit
         then get_hash_age q h = Some (word_of_nat i) \<and> get_lamports_per_signature q h = Some (snd (history ! i))
         else get_hash_age q h = None \<and> get_lamports_per_signature q h = None
           \<or> \<not> distinct (map fst history) \<and>
             get_hash_age q h = Some (word_of_nat i) \<and> get_lamports_per_signature q h = Some (snd (history ! i))" for h
  proof (cases "map_of (hashes q) h")
    case None
    then have "\<not> i \<le> age_limit" if "first_index h history = Some i" for i using inv that by blast
    with absent [OF None] show ?thesis by (simp split: option.split)
  next
    case (Some info)
    with inv obtain i where i: "first_index h history = Some i" by blast
    from stored [OF Some i] queue_evicts [OF assms _ i] Some i show ?thesis by auto
  qed
  with valid inv show ?thesis by (simp add: get_last_hash_def)
qed

definition demo_queue :: BlockhashQueue where
  "demo_queue = register_hash (register_hash (register_hash
     (genesis_hash (BlockhashQueue_new 1) 10 5000 0) 11 5000 1) 12 6000 2) 13 7000 3"

theorem blockhash_queue_refines_history_witness:
  "queue_run 1 demo_queue [(13, 7000), (12, 6000), (11, 5000), (10, 5000)] \<and>
   is_hash_valid_for_age demo_queue 12 1 \<and> \<not> is_hash_valid_for_age demo_queue 11 1 \<and>
   get_hash_age demo_queue 12 = Some 1 \<and> get_hash_age demo_queue 11 = None"
proof -
  have run: "queue_run 1 demo_queue [(13, 7000), (12, 6000), (11, 5000), (10, 5000)]"
    unfolding demo_queue_def by (intro register genesis) simp_all
  note facts = blockhash_queue_refines_history [OF run]
  from facts have "is_hash_valid_for_age demo_queue 12 1" "\<not> is_hash_valid_for_age demo_queue 11 1" by simp_all
  moreover from conjunct2 [OF conjunct2 [OF facts], rule_format, of 12] have "get_hash_age demo_queue 12 = Some 1" by simp
  moreover from conjunct2 [OF conjunct2 [OF facts], rule_format, of 11] have "get_hash_age demo_queue 11 = None" by simp
  ultimately show ?thesis using run by blast
qed

end
