(* ===== verification/RollingBitField.thy ===== *)
theory RollingBitField
  imports Prelude
begin

text \<open>
  The rolling bit field of slots and the set of ancestors built on it:
  \<^verbatim>\<open>accounts-db/src/rolling_bit_field.rs\<close> and
  \<^verbatim>\<open>accounts-db/src/ancestors.rs\<close>. Keys are natural numbers below \<open>2 ^ 64\<close>, with the
  wrap-around of the 64 bit additions written out; the hash set of excess items is a set, whose
  order of iteration is an argument where it matters. A failed assertion is \<^term>\<open>None\<close>. The
  lemmas show that the structure implements a set as long as keys slide upwards.
\<close>

section \<open>Operations\<close>

definition wrap64 :: "nat \<Rightarrow> nat" where
  "wrap64 n = n mod 2 ^ 64"

record RollingBitField =
  max_width :: nat
  min_key :: nat
  max_exclusive :: nat
  bits :: "bool list"
  item_count :: nat
  excess :: "nat set"

definition is_power_of_two :: "nat \<Rightarrow> bool" where
  "is_power_of_two n \<longleftrightarrow> (\<exists>i \<in> set [0..<64]. n = 2 ^ i)"

definition RollingBitField_new :: "nat \<Rightarrow> RollingBitField option" where
  "RollingBitField_new width =
     (if 0 < width \<and> is_power_of_two width
      then Some \<lparr>max_width = width, min_key = 0, max_exclusive = 0, bits = replicate width False,
        item_count = 0, excess = {}\<rparr>
      else None)"

definition get_address :: "RollingBitField \<Rightarrow> nat \<Rightarrow> nat" where
  "get_address f key = key mod max_width f"

definition range_width :: "RollingBitField \<Rightarrow> nat" where
  "range_width f = wrap64 (max_exclusive f + 2 ^ 64 - min_key f)"

definition all_items_in_excess :: "RollingBitField \<Rightarrow> bool" where
  "all_items_in_excess f \<longleftrightarrow> card (excess f) = item_count f"

definition contains_assume_in_range :: "RollingBitField \<Rightarrow> nat \<Rightarrow> bool" where
  "contains_assume_in_range f key = bits f ! get_address f key"

definition min_item :: "RollingBitField \<Rightarrow> nat option" where
  "min_item f =
     (if item_count f = 0 then None
      else if excess f = {} then Some (min_key f)
      else if all_items_in_excess f then Some (Min (excess f))
      else Some (min (min_key f) (Min (excess f))))"

definition purge :: "RollingBitField \<Rightarrow> nat \<Rightarrow> RollingBitField" where
  "purge f key =
     (if item_count f > 0 \<and> \<not> all_items_in_excess f
      then if key = min_key f
           then (case find (contains_assume_in_range f) [wrap64 (min_key f + 1)..<max_exclusive f] of
                   Some k \<Rightarrow> f \<lparr>min_key := k\<rparr>
                 | None \<Rightarrow> f)
           else f
      else f \<lparr>min_key := max_exclusive f\<rparr>)"

text \<open>The loop of \<open>insert\<close> that moves the lowest items out of the bit field.\<close>

definition move_min_to_excess :: "RollingBitField \<Rightarrow> RollingBitField" where
  "move_min_to_excess f =
     purge (f \<lparr>excess := insert (min_key f) (excess f), bits := (bits f)[get_address f (min_key f) := False]\<rparr>)
       (min_key f)"

partial_function (option) make_room :: "nat \<Rightarrow> RollingBitField \<Rightarrow> (bool \<times> RollingBitField) option" where
  "make_room new_max f =
     (if new_max - min_key f \<le> max_width f then Some (False, f)
      else if min_key f \<in> excess f then None
      else if all_items_in_excess (move_min_to_excess f) then Some (True, move_min_to_excess f)
      else make_room new_max (move_min_to_excess f))"

definition set_bit_at :: "RollingBitField \<Rightarrow> nat \<Rightarrow> bool \<Rightarrow> RollingBitField option" where
  "set_bit_at f key bits_empty =
     (if bits f ! get_address f key then Some f
      else
        (let f = f \<lparr>bits := (bits f)[get_address f key := True]\<rparr>
         in if bits_empty
            then Some (f \<lparr>min_key := key, max_exclusive := wrap64 (key + 1), item_count := item_count f + 1\<rparr>)
            else
              (let f = f \<lparr>min_key := min (min_key f) key, max_exclusive := max (max_exclusive f) (wrap64 (key + 1))\<rparr>
               in if wrap64 (min_key f + max_width f) \<ge> max_exclusive f
                  then Some (f \<lparr>item_count := item_count f + 1\<rparr>)
                  else None)))"

definition insert_key :: "RollingBitField \<Rightarrow> nat \<Rightarrow> RollingBitField option" where
  "insert_key f key =
     (if item_count f = 0 \<or> all_items_in_excess f then set_bit_at f key True
      else if key < min_key f
      then Some (if key \<in> excess f then f
                 else f \<lparr>excess := insert key (excess f), item_count := item_count f + 1\<rparr>)
      else if key < max_exclusive f then set_bit_at f key False
      else do {
        (bits_empty, f) \<leftarrow> make_room (wrap64 (key + 1)) f;
        set_bit_at f key bits_empty })"

definition decrement_count :: "RollingBitField \<Rightarrow> RollingBitField" where
  "decrement_count f = f \<lparr>item_count := wrap64 (item_count f + 2 ^ 64 - 1)\<rparr>"

definition remove_key :: "RollingBitField \<Rightarrow> nat \<Rightarrow> bool \<times> RollingBitField" where
  "remove_key f key =
     (if min_key f \<le> key
      then if key < max_exclusive f
           then if bits f ! get_address f key
                then (True, purge ((decrement_count f) \<lparr>bits := (bits f)[get_address f key := False]\<rparr>) key)
                else (False, f)
           else (False, f)
      else if key \<in> excess f then (True, decrement_count (f \<lparr>excess := excess f - {key}\<rparr>))
      else (False, f))"

definition contains_key :: "RollingBitField \<Rightarrow> nat \<Rightarrow> bool" where
  "contains_key f key =
     (if key < max_exclusive f
      then if min_key f \<le> key then contains_assume_in_range f key else key \<in> excess f
      else False)"

definition max_inclusive :: "RollingBitField \<Rightarrow> nat" where
  "max_inclusive f = max_exclusive f - 1"

text \<open>\<open>order\<close> lists the excess items in the order of the hash set's iterator.\<close>

definition get_all_less_than :: "nat list \<Rightarrow> RollingBitField \<Rightarrow> nat \<Rightarrow> nat list" where
  "get_all_less_than order f max_slot_exclusive =
     filter (\<lambda>slot. slot < max_slot_exclusive) order @
     filter (contains_assume_in_range f)
       (takeWhile (\<lambda>key. \<not> key \<ge> max_slot_exclusive) [min_key f..<max_exclusive f])"

definition get_all :: "nat list \<Rightarrow> RollingBitField \<Rightarrow> nat list" where
  "get_all order f = order @ filter (contains_assume_in_range f) [min_key f..<max_exclusive f]"

fun get_prior_loop :: "RollingBitField \<Rightarrow> nat \<Rightarrow> nat \<Rightarrow> nat option" where
  "get_prior_loop f lowest slot =
     (if contains_key f slot then Some slot
      else if slot - 1 = 0 \<or> slot - 1 < lowest then None
      else get_prior_loop f lowest (slot - 1))"

declare get_prior_loop.simps [simp del]

definition get_prior :: "RollingBitField \<Rightarrow> nat \<Rightarrow> nat option" where
  "get_prior f max_slot_exclusive = do {
     lowest \<leftarrow> min_item f;
     get_prior_loop f lowest (max_slot_exclusive - 1) }"

section \<open>The set it represents\<close>

definition window :: "RollingBitField \<Rightarrow> nat set" where
  "window f = {k. min_key f \<le> k \<and> k < max_exclusive f \<and> bits f ! (k mod max_width f)}"

definition elements :: "RollingBitField \<Rightarrow> nat set" where
  "elements f = excess f \<union> window f"

text \<open>Everything but the position of the lowest key.\<close>

definition field_ok :: "RollingBitField \<Rightarrow> bool" where
  "field_ok f \<longleftrightarrow>
     0 < max_width f \<and> max_width f \<le> 2 ^ 62 \<and> length (bits f) = max_width f \<and>
     min_key f \<le> max_exclusive f \<and> max_exclusive f \<le> min_key f + max_width f \<and> max_exclusive f \<le> 2 ^ 62 \<and>
     (\<forall>a < max_width f. bits f ! a \<longrightarrow> (\<exists>k \<in> window f. k mod max_width f = a)) \<and>
     finite (excess f) \<and> item_count f = card (excess f) + card (window f) \<and> item_count f < 2 ^ 64"

definition rolling_ok :: "RollingBitField \<Rightarrow> bool" where
  "rolling_ok f \<longleftrightarrow>
     field_ok f \<and> (\<forall>k \<in> excess f. k < min_key f) \<and>
     (if window f = {} then min_key f = max_exclusive f else min_key f \<in> window f)"

lemma finite_window [simp]: "finite (window f)"
  by (rule finite_subset [of _ "{..<max_exclusive f}"]) (auto simp: window_def)

lemma all_items_in_excess_iff: "field_ok f \<Longrightarrow> all_items_in_excess f \<longleftrightarrow> window f = {}"
  by (auto simp: field_ok_def all_items_in_excess_def)

lemma mod_window:
  fixes w :: nat
  assumes "a \<le> x" "x < a + w" "a \<le> y" "y < a + w" "x mod w = y mod w"
  shows "x = y"
proof -
  have "x = y" if "y \<le> x" "a \<le> y" "x < a + w" "x mod w = y mod w" for x y
  proof -
    from that(1,4) obtain s where s: "x = y + w * s" by (metis mod_eq_nat2E)
    have "w \<le> w * s" if "s \<noteq> 0" using that by simp
    with that s have "s = 0" by linarith
    with s show ?thesis by simp
  qed
  from this [of y x] this [of x y] assms show ?thesis by (cases "y \<le> x") auto
qed

lemma contains_iff: "rolling_ok f \<Longrightarrow> contains_key f key \<longleftrightarrow> key \<in> elements f"
  by (auto simp: rolling_ok_def field_ok_def contains_key_def contains_assume_in_range_def get_address_def
      elements_def window_def)

section \<open>Every operation keeps the set\<close>

lemma wrap64_small [simp]: "n < 2 ^ 64 \<Longrightarrow> wrap64 n = n"
  by (simp add: wrap64_def)

lemma decrement_count_eq: "0 < item_count f \<Longrightarrow> item_count f < 2 ^ 64 \<Longrightarrow>
    decrement_count f = f \<lparr>item_count := item_count f - 1\<rparr>"
  by (cases "item_count f") (simp_all add: decrement_count_def wrap64_def)

lemma window_clear_bit:
  assumes "field_ok f" and "key \<in> window f"
  shows "window (f \<lparr>bits := (bits f)[get_address f key := False]\<rparr>) = window f - {key}"
proof -
  have len: "length (bits f) = max_width f" "0 < max_width f" using assms(1) by (simp_all add: field_ok_def)
  have "k = key" if "k mod max_width f = key mod max_width f" "min_key f \<le> k" "k < max_exclusive f" for k
    by (rule mod_window [of "min_key f" k "max_width f" key])
      (use that assms in \<open>auto simp: window_def field_ok_def\<close>)
  with len show ?thesis by (auto simp: window_def get_address_def nth_list_update)
qed

lemma find_upt_least:
  assumes "k \<in> W" and "\<forall>k \<in> W. a \<le> k \<and> k < b" and "\<And>k. a \<le> k \<Longrightarrow> k < b \<Longrightarrow> P k \<longleftrightarrow> k \<in> W"
  obtains l where "find P [a..<b] = Some l" and "l \<in> W" and "\<forall>k \<in> W. l \<le> k"
proof -
  have "find P [a..<b] \<noteq> None" using assms by (auto simp: find_None_iff)
  then obtain l where l: "find P [a..<b] = Some l" by auto
  then obtain i where i: "i < length [a..<b]" "P ([a..<b] ! i)" "l = [a..<b] ! i" "\<And>j. j < i \<Longrightarrow> \<not> P ([a..<b] ! j)"
    by (auto simp: find_Some_iff)
  then have l_eq: "l = a + i" "a + i < b" by simp_all
  have "l \<le> k" if "k \<in> W" for k
  proof (rule ccontr)
    assume "\<not> l \<le> k"
    with that assms(2) l_eq have "k - a < i" "a \<le> k" "k < b" by auto
    with i(4) [of "k - a"] i(1) that assms(3) [of k] show False by simp
  qed
  moreover have "l \<in> W" using i(2,3) l_eq assms(3) [of l] by simp
  ultimately show thesis using that l by blast
qed

lemma purge_min_ok:
  assumes ok: "field_ok f" and low: "\<forall>k \<in> excess f. k \<le> min_key f" and above: "\<forall>k \<in> window f. min_key f < k"
    and room: "min_key f < max_exclusive f" and g: "g = purge f (min_key f)"
  shows "rolling_ok g \<and> window g = window f \<and> excess g = excess f \<and> max_exclusive g = max_exclusive f \<and>
    max_width g = max_width f \<and> min_key f < min_key g"
proof (cases "window f = {}")
  case True
  with ok have g: "g = f \<lparr>min_key := max_exclusive f\<rparr>" by (simp add: g purge_def all_items_in_excess_iff)
  then have "window g = {}" by (auto simp: window_def)
  with True g ok low room show ?thesis by (auto simp: rolling_ok_def field_ok_def)
next
  case False
  have "wrap64 (min_key f + 1) = min_key f + 1" using ok by (intro wrap64_small) (simp add: field_ok_def)
  moreover obtain k where "k \<in> window f" using False by blast
  moreover have "contains_assume_in_range f k \<longleftrightarrow> k \<in> window f" if "min_key f + 1 \<le> k" "k < max_exclusive f" for k
    using that by (auto simp: contains_assume_in_range_def get_address_def window_def)
  moreover have "\<forall>k \<in> window f. min_key f + 1 \<le> k \<and> k < max_exclusive f"
    using above by (auto simp: window_def)
  ultimately obtain l where l: "find (contains_assume_in_range f) [wrap64 (min_key f + 1)..<max_exclusive f] = Some l"
    "l \<in> window f" "\<forall>k \<in> window f. l \<le> k"
    using find_upt_least [of k "window f" "min_key f + 1" "max_exclusive f" "contains_assume_in_range f"] by metis
  have "item_count f > 0" using False ok by (simp add: field_ok_def card_gt_0_iff)
  with l(1) False ok have g: "g = f \<lparr>min_key := l\<rparr>" by (simp add: g purge_def all_items_in_excess_iff)
  have window: "window g = window f" using l(2,3) by (auto simp: g window_def)
  have "min_key f < l" using above l(2) by blast
  moreover have "l < max_exclusive f" using l(2) by (simp add: window_def)
  ultimately show ?thesis
    using ok low l(2) window False unfolding rolling_ok_def field_ok_def window by (auto simp: g)
qed

lemma purge_other:
  assumes "rolling_ok f" and "key \<noteq> min_key f" and "window f \<noteq> {}"
  shows "purge f key = f"
proof -
  from assms have "item_count f > 0" by (simp add: rolling_ok_def field_ok_def card_gt_0_iff)
  with assms show ?thesis by (simp add: purge_def rolling_ok_def all_items_in_excess_iff)
qed

lemma field_ok_clear_bit:
  assumes "field_ok f" and "key \<in> window f"
    and g: "g = f \<lparr>bits := (bits f)[get_address f key := False], excess := E, item_count := n\<rparr>"
    and "finite E" and "n = card E + card (window f - {key})" and "n < 2 ^ 64"
  shows "field_ok g" and "window g = window f - {key}"
proof -
  show window: "window g = window f - {key}"
    using window_clear_bit [OF assms(1,2)] by (simp add: g window_def get_address_def)
  have "\<exists>k \<in> window f - {key}. k mod max_width f = a"
    if "a < max_width f" "(bits f)[get_address f key := False] ! a" for a
  proof -
    have "get_address f key < length (bits f)" using assms(1) by (simp add: field_ok_def get_address_def)
    with that(2) have "bits f ! a" "a \<noteq> get_address f key"
      by (auto simp: nth_list_update split: if_splits)
    with that assms(1) obtain k where "k \<in> window f" "k mod max_width f = a" by (auto simp: field_ok_def)
    with \<open>a \<noteq> get_address f key\<close> show ?thesis by (auto simp: get_address_def)
  qed
  with assms show "field_ok g" unfolding field_ok_def window by (simp add: g)
qed

lemma move_min_ok:
  assumes ok: "rolling_ok f" and "window f \<noteq> {}" and g: "g = move_min_to_excess f"
  shows "rolling_ok g \<and> elements g = elements f \<and> max_exclusive g = max_exclusive f \<and>
    max_width g = max_width f \<and> card (window g) < card (window f) \<and> min_key f \<notin> excess f"
proof -
  let ?h = "f \<lparr>excess := insert (min_key f) (excess f), bits := (bits f)[get_address f (min_key f) := False]\<rparr>"
  have min: "min_key f \<in> window f" "min_key f \<notin> excess f" using ok assms(2) by (auto simp: rolling_ok_def)
  have f: "field_ok f" using ok by (simp add: rolling_ok_def)
  have count: "item_count f = card (insert (min_key f) (excess f)) + card (window f - {min_key f})"
    using card_Suc_Diff1 [OF finite_window min(1)] min(2) f by (simp add: field_ok_def)
  have eq: "?h = f \<lparr>bits := (bits f)[get_address f (min_key f) := False],
      excess := insert (min_key f) (excess f), item_count := item_count f\<rparr>" by simp
  have "finite (insert (min_key f) (excess f))" "item_count f < 2 ^ 64" using f by (simp_all add: field_ok_def)
  note h = field_ok_clear_bit [OF f min(1) eq this(1) count this(2)]
  have low: "\<forall>k \<in> excess ?h. k \<le> min_key ?h" using ok by (auto simp: rolling_ok_def)
  have above: "\<forall>k \<in> window ?h. min_key ?h < k" unfolding h(2) by (auto simp: window_def)
  have room: "min_key ?h < max_exclusive ?h" using min(1) by (simp add: window_def)
  have "g = purge ?h (min_key ?h)" by (simp add: g move_min_to_excess_def)
  from purge_min_ok [OF h(1) low above room this, unfolded h(2)]
  have "rolling_ok g" "window g = window f - {min_key f}" "excess g = insert (min_key f) (excess f)"
    "max_exclusive g = max_exclusive f" "max_width g = max_width f" by simp_all
  moreover have "card (window f - {min_key f}) < card (window f)"
    by (rule card_Diff1_less) (simp_all add: min)
  ultimately show ?thesis using min by (auto simp: elements_def)
qed

lemma make_room_ok:
  assumes "rolling_ok f" and "window f \<noteq> {}" and "max_exclusive f < new_max"
  shows "\<exists>bits_empty g. make_room new_max f = Some (bits_empty, g) \<and> rolling_ok g \<and> elements g = elements f \<and>
    max_exclusive g = max_exclusive f \<and> max_width g = max_width f \<and> (bits_empty \<longleftrightarrow> window g = {}) \<and>
    (\<not> bits_empty \<longrightarrow> new_max \<le> min_key g + max_width g)"
  using assms
proof (induction "card (window f)" arbitrary: f rule: less_induct)
  case less
  let ?g = "move_min_to_excess f"
  from move_min_ok [OF less(2,3) refl] have g: "rolling_ok ?g" "elements ?g = elements f"
    "max_exclusive ?g = max_exclusive f" "max_width ?g = max_width f" "card (window ?g) < card (window f)"
    "min_key f \<notin> excess f" by simp_all
  then have all: "all_items_in_excess ?g \<longleftrightarrow> window ?g = {}"
    by (intro all_items_in_excess_iff) (simp add: rolling_ok_def)
  show ?case
  proof (cases "new_max - min_key f \<le> max_width f")
    case True
    with less show ?thesis by (auto simp: make_room.simps [of new_max f])
  next
    case False
    show ?thesis
    proof (cases "window ?g = {}")
      case True
      with False g all show ?thesis by (auto simp: make_room.simps [of new_max f])
    next
      case non_empty: False
      from less(1) [OF g(5,1) non_empty] less(4) g(3) False non_empty g(2,4,6) all show ?thesis
        by (simp add: make_room.simps [of new_max f])
    qed
  qed
qed

lemma bit_in_window:
  assumes "field_ok f" and "bits f ! (key mod max_width f)" and "min_key f \<le> key" and "key < min_key f + max_width f"
  shows "key \<in> window f"
proof -
  from assms(1,2) obtain k where k: "k \<in> window f" "k mod max_width f = key mod max_width f"
    unfolding field_ok_def by (metis mod_less_divisor)
  have "k = key"
    by (rule mod_window [of "min_key f" k "max_width f" key]) (use k assms in \<open>auto simp: window_def field_ok_def\<close>)
  with k show ?thesis by simp
qed

lemma set_bit_at_ok:
  assumes ok: "rolling_ok f" and "window f \<noteq> {}" and "min_key f \<le> key" and "key < min_key f + max_width f"
    and "key < 2 ^ 62" and "item_count f + 1 < 2 ^ 64"
  shows "\<exists>g. set_bit_at f key False = Some g \<and> rolling_ok g \<and> elements g = insert key (elements f) \<and>
    max_exclusive g = max (max_exclusive f) (key + 1) \<and> window g \<noteq> {}"
proof (cases "bits f ! get_address f key")
  case True
  have f: "field_ok f" using ok by (simp add: rolling_ok_def)
  from bit_in_window [OF this True [unfolded get_address_def] assms(3,4)] True ok assms(2) show ?thesis
    by (auto simp: set_bit_at_def elements_def window_def)
next
  case False
  have f: "field_ok f" using ok by (simp add: rolling_ok_def)
  let ?g = "f \<lparr>bits := (bits f)[get_address f key := True], max_exclusive := max (max_exclusive f) (key + 1),
    item_count := item_count f + 1\<rparr>"
  have fits: "max (max_exclusive f) (key + 1) \<le> min_key f + max_width f" using f assms(4) by (simp add: field_ok_def)
  have small: "wrap64 (key + 1) = key + 1" "wrap64 (min_key f + max_width f) = min_key f + max_width f"
    using assms(5) f by (simp_all add: field_ok_def)
  have g: "set_bit_at f key False = Some ?g"
    using False fits assms(3) small by (simp add: set_bit_at_def Let_def min_absorb1)
  have len: "get_address f key < length (bits f)" using f by (simp add: field_ok_def get_address_def)
  have old: "k < max_exclusive f"
    if "bits f ! (k mod max_width f)" "min_key f \<le> k" "k < min_key f + max_width f" for k
    using bit_in_window [OF f that] by (simp add: window_def)
  have same: "k = key" if "k mod max_width f = key mod max_width f" "min_key f \<le> k" "k < min_key f + max_width f" for k
    by (rule mod_window [of "min_key f" k "max_width f" key]) (use that assms in auto)
  have window: "window ?g = insert key (window f)"
  proof (intro equalityI subsetI)
    fix k assume "k \<in> window ?g"
    then have k: "min_key f \<le> k" "k < min_key f + max_width f" "(bits f)[get_address f key := True] ! (k mod max_width f)"
      using fits by (auto simp: window_def)
    show "k \<in> insert key (window f)"
    proof (cases "k mod max_width f = key mod max_width f")
      case True
      with same k show ?thesis by simp
    next
      case False
      with k old show ?thesis by (simp add: window_def get_address_def)
    qed
  next
    fix k assume "k \<in> insert key (window f)"
    with assms(3) len show "k \<in> window ?g" by (auto simp: window_def get_address_def nth_list_update)
  qed
  have new: "key \<notin> window f" using False by (simp add: window_def get_address_def)
  have "\<exists>k \<in> window ?g. k mod max_width f = a" if "a < max_width f" "(bits f)[get_address f key := True] ! a" for a
  proof (cases "a = get_address f key")
    case True
    then show ?thesis unfolding window by (auto simp: get_address_def)
  next
    case False
    with that f show ?thesis unfolding window by (auto simp: field_ok_def)
  qed
  moreover have "item_count f + 1 = card (excess f) + card (window ?g)"
    unfolding window using new f by (simp add: field_ok_def)
  ultimately have "field_ok ?g"
    using f fits assms(3,5,6) unfolding field_ok_def window by (simp add: max_def)
  moreover have "min_key f \<in> window ?g" using ok assms(2) unfolding window by (simp add: rolling_ok_def)
  ultimately have "rolling_ok ?g" using ok unfolding rolling_ok_def window by auto
  with g window show ?thesis by (auto simp: elements_def)
qed

lemma count_small: "rolling_ok f \<Longrightarrow> item_count f + 1 < 2 ^ 64 \<and> item_count f = card (elements f)"
proof -
  assume ok: "rolling_ok f"
  have "excess f \<inter> window f = {}" "elements f \<subseteq> {..<2 ^ 62}"
    using ok by (auto simp: rolling_ok_def field_ok_def elements_def window_def)
  moreover from this(2) have "card (elements f) \<le> 2 ^ 62" using card_mono [of "{..<2 ^ 62 :: nat}"] by simp
  ultimately show ?thesis using ok
    by (auto simp: rolling_ok_def field_ok_def elements_def card_Un_disjoint)
qed

lemma set_bit_at_empty:
  assumes ok: "rolling_ok f" and "window f = {}" and "\<forall>k \<in> excess f. k < key" and "key < 2 ^ 62"
  shows "\<exists>g. set_bit_at f key True = Some g \<and> rolling_ok g \<and> elements g = insert key (elements f) \<and>
    max_exclusive g = key + 1 \<and> window g \<noteq> {}"
proof -
  let ?g = "f \<lparr>bits := (bits f)[get_address f key := True], min_key := key, max_exclusive := key + 1,
    item_count := item_count f + 1\<rparr>"
  have f: "field_ok f" using ok by (simp add: rolling_ok_def)
  have zero: "\<not> bits f ! a" if "a < max_width f" for a using f assms(2) that by (simp add: field_ok_def)
  have len: "get_address f key < max_width f" using f by (simp add: field_ok_def get_address_def)
  have "wrap64 (key + 1) = key + 1" using assms(4) by simp
  then have g: "set_bit_at f key True = Some ?g" using zero [OF len] by (simp add: set_bit_at_def Let_def)
  have window: "window ?g = {key}" using len f by (auto simp: window_def get_address_def field_ok_def)
  have "\<exists>k \<in> window ?g. k mod max_width f = a" if "a < max_width f" "(bits f)[get_address f key := True] ! a" for a
    using that zero f unfolding window
    by (auto simp: nth_list_update get_address_def field_ok_def split: if_splits)
  with f assms(2,4) count_small [OF ok] have "field_ok ?g" unfolding field_ok_def window by simp
  with assms(3) have "rolling_ok ?g" unfolding rolling_ok_def window by simp
  with g window assms(2) show ?thesis by (auto simp: elements_def)
qed

lemma insert_key_ok:
  assumes ok: "rolling_ok f" and "key < 2 ^ 62" and slide: "window f = {} \<Longrightarrow> \<forall>k \<in> excess f. k < key"
  shows "\<exists>g. insert_key f key = Some g \<and> rolling_ok g \<and> elements g = insert key (elements f) \<and>
    max_exclusive g = (if window f = {} then key + 1 else max (max_exclusive f) (key + 1)) \<and> window g \<noteq> {}"
proof -
  have f: "field_ok f" using ok by (simp add: rolling_ok_def)
  have empty: "(item_count f = 0 \<or> all_items_in_excess f) \<longleftrightarrow> window f = {}"
    using f by (auto simp: all_items_in_excess_iff field_ok_def)
  consider "window f = {}" | "window f \<noteq> {}" "key < min_key f"
    | "window f \<noteq> {}" "min_key f \<le> key" "key < max_exclusive f"
    | "window f \<noteq> {}" "max_exclusive f \<le> key" by linarith
  then show ?thesis
  proof cases
    case 1
    with set_bit_at_empty [OF ok _ slide assms(2)] empty show ?thesis by (simp add: insert_key_def)
  next
    case 2
    let ?g = "if key \<in> excess f then f else f \<lparr>excess := insert key (excess f), item_count := item_count f + 1\<rparr>"
    have "window ?g = window f" by (auto simp: window_def)
    then have "rolling_ok ?g" using ok 2 count_small [OF ok]
      by (auto simp: rolling_ok_def field_ok_def card_insert_if)
    moreover have "insert_key f key = Some ?g" using 2 empty by (simp add: insert_key_def)
    moreover have "key < max_exclusive f" using 2 f by (simp add: field_ok_def)
    ultimately show ?thesis using \<open>window ?g = window f\<close> 2(1) by (auto simp: elements_def)
  next
    case 3
    then have "key < min_key f + max_width f" using f by (simp add: field_ok_def)
    from set_bit_at_ok [OF ok 3(1,2) this assms(2)] 3 empty count_small [OF ok] show ?thesis
      by (simp add: insert_key_def)
  next
    case 4
    then have not_less: "\<not> key < min_key f" "\<not> key < max_exclusive f" using f by (simp_all add: field_ok_def)
    from make_room_ok [OF ok 4(1), of "key + 1"] 4(2) obtain b h where h: "make_room (key + 1) f = Some (b, h)"
      "rolling_ok h" "elements h = elements f" "max_exclusive h = max_exclusive f" "max_width h = max_width f"
      "b \<longleftrightarrow> window h = {}" "\<not> b \<longrightarrow> key + 1 \<le> min_key h + max_width h" by auto
    have high: "min_key h \<le> key" using h(2,4) 4(2) by (auto simp: rolling_ok_def field_ok_def)
    have insert: "insert_key f key = set_bit_at h key b"
      using empty 4(1) not_less assms(2) h(1) by (simp add: insert_key_def)
    show ?thesis
    proof (cases b)
      case True
      with h(2,6) high have "\<forall>k \<in> excess h. k < key" by (auto simp: rolling_ok_def)
      from set_bit_at_empty [OF h(2) _ this assms(2)] True h(3,6) insert 4 show ?thesis by (simp add: max_def)
    next
      case False
      with set_bit_at_ok [OF h(2) _ high _ assms(2)] h(3,4,6,7) 4(1) insert count_small [OF h(2)] show ?thesis by simp
    qed
  qed
qed

lemma remove_key_ok:
  assumes ok: "rolling_ok f" and g: "remove_key f key = (removed, g)"
  shows "removed \<longleftrightarrow> key \<in> elements f" and "rolling_ok g" and "elements g = elements f - {key}"
proof -
  have f: "field_ok f" using ok by (simp add: rolling_ok_def)
  consider "key \<in> window f" | "key \<in> excess f" "key < min_key f" "key \<notin> window f"
    | "key \<notin> elements f"
    using ok by (auto simp: elements_def rolling_ok_def)
  then have "(removed \<longleftrightarrow> key \<in> elements f) \<and> rolling_ok g \<and> elements g = elements f - {key}"
  proof cases
    case 1
    have disjoint: "key \<notin> excess f" using 1 ok by (auto simp: rolling_ok_def window_def)
    have pos: "0 < item_count f" "item_count f < 2 ^ 64" using 1 f by (auto simp: field_ok_def card_gt_0_iff)
    let ?h = "f \<lparr>bits := (bits f)[get_address f key := False], excess := excess f, item_count := item_count f - 1\<rparr>"
    have count: "item_count f - 1 = card (excess f) + card (window f - {key})"
      using card_Suc_Diff1 [OF finite_window 1] f by (simp add: field_ok_def)
    have "finite (excess f)" using f by (simp add: field_ok_def)
    moreover have "item_count f - 1 < 2 ^ 64" using pos(2) by linarith
    ultimately have "finite (excess f)" "item_count f - 1 < 2 ^ 64" by blast+
    note h = field_ok_clear_bit [OF f 1 refl this(1) count this(2)]
    have eq: "(decrement_count f) \<lparr>bits := (bits f)[get_address f key := False]\<rparr> = ?h"
      using pos by (simp add: decrement_count_eq)
    have in_window: "min_key f \<le> key" "key < max_exclusive f" "bits f ! get_address f key"
      using 1 by (simp_all add: window_def get_address_def)
    have remove: "removed" "g = purge ?h key"
      using g in_window by (auto simp: remove_key_def eq)
    show ?thesis
    proof (cases "key = min_key f")
      case True
      have low: "\<forall>k \<in> excess ?h. k \<le> min_key ?h" using ok by (auto simp: rolling_ok_def)
      have above: "\<forall>k \<in> window ?h. min_key ?h < k" using True unfolding h(2) by (auto simp: window_def)
      have room: "min_key ?h < max_exclusive ?h" using 1 True by (simp add: window_def)
      have "g = purge ?h (min_key ?h)" using remove(2) True by simp
      from purge_min_ok [OF h(1) low above room this, unfolded h(2)] remove(1) disjoint 1 show ?thesis
        by (auto simp: elements_def)
    next
      case False
      have "min_key f \<in> window ?h" using ok 1 False unfolding h(2) by (auto simp: rolling_ok_def split: if_splits)
      then have "rolling_ok ?h" using h(1) ok by (auto simp: rolling_ok_def)
      moreover from this False \<open>min_key f \<in> window ?h\<close> have "purge ?h key = ?h" by (intro purge_other) auto
      ultimately show ?thesis using remove h(2) disjoint 1 by (auto simp: elements_def)
    qed
  next
    case 2
    have pos: "0 < item_count f" "item_count f < 2 ^ 64"
      using 2 f by (auto simp: field_ok_def card_gt_0_iff)
    let ?h = "f \<lparr>excess := excess f - {key}, item_count := item_count f - 1\<rparr>"
    have remove: "removed" "g = ?h" using g 2 pos by (auto simp: remove_key_def decrement_count_eq)
    have window: "window ?h = window f" by (simp add: window_def)
    have "item_count f - 1 = card (excess f - {key}) + card (window f)"
      using card_Suc_Diff1 [of "excess f" key] 2(1) f by (simp add: field_ok_def)
    with ok have "rolling_ok ?h" unfolding rolling_ok_def field_ok_def window by auto
    with remove window 2 show ?thesis by (auto simp: elements_def)
  next
    case 3
    with g ok show ?thesis by (auto simp: remove_key_def elements_def window_def get_address_def split: if_splits)
  qed
  then show "removed \<longleftrightarrow> key \<in> elements f" and "rolling_ok g" and "elements g = elements f - {key}"
    by simp_all
qed

section \<open>Queries\<close>

lemma min_item_eq:
  assumes ok: "rolling_ok f"
  shows "min_item f = (if elements f = {} then None else Some (Min (elements f)))"
proof -
  have f: "field_ok f" "finite (excess f)" using ok by (simp_all add: rolling_ok_def field_ok_def)
  have none: "item_count f = 0 \<longleftrightarrow> elements f = {}"
    using count_small [OF ok] f by (simp add: elements_def)
  have window: "Min (window f) = min_key f" if "window f \<noteq> {}"
  proof (rule Min_eqI)
    show "min_key f \<in> window f" using that ok by (simp add: rolling_ok_def)
  qed (auto simp: window_def)
  have low: "Min (excess f) < min_key f" if "excess f \<noteq> {}" using that ok f by (simp add: rolling_ok_def)
  show ?thesis
  proof (cases "excess f = {} \<or> window f = {}")
    case True
    with none window ok f show ?thesis by (auto simp: min_item_def elements_def all_items_in_excess_iff)
  next
    case False
    then have "Min (elements f) = min (Min (excess f)) (Min (window f))"
      using f by (simp add: elements_def Min_Un)
    with False none window f show ?thesis
      by (simp add: min_item_def elements_def all_items_in_excess_iff min.commute)
  qed
qed

lemma set_in_range: "set (filter (contains_assume_in_range f) [min_key f..<max_exclusive f]) = window f"
  by (auto simp: contains_assume_in_range_def get_address_def window_def)

lemma get_all_eq:
  assumes "rolling_ok f" and "distinct order" and "set order = excess f"
  shows "distinct (get_all order f)" and "set (get_all order f) = elements f"
proof -
  have "excess f \<inter> window f = {}" using assms(1) by (auto simp: rolling_ok_def window_def)
  with assms(2,3) show "distinct (get_all order f)"
    unfolding get_all_def distinct_append set_in_range by simp
  show "set (get_all order f) = elements f"
    unfolding get_all_def set_append set_in_range assms(3) elements_def ..
qed

lemma takeWhile_upt: "takeWhile (\<lambda>key. \<not> key \<ge> x) [a..<b] = [a..<min b x]"
proof (induction "b - a" arbitrary: a)
  case (Suc n)
  then have "[a..<b] = a # [Suc a..<b]" by (simp add: upt_conv_Cons)
  moreover have "takeWhile (\<lambda>key. \<not> key \<ge> x) [Suc a..<b] = [Suc a..<min b x]" using Suc by simp
  ultimately show ?case using Suc(2) by (cases "a < x") (simp_all add: upt_conv_Cons)
qed simp

lemma get_all_less_than_eq:
  assumes "rolling_ok f" and "set order = excess f"
  shows "set (get_all_less_than order f x) = {k \<in> elements f. k < x}"
  using assms unfolding get_all_less_than_def takeWhile_upt
  by (auto simp: elements_def window_def contains_assume_in_range_def get_address_def)

lemma get_prior_loop_eq:
  assumes ok: "rolling_ok f" and lowest: "\<forall>k \<in> elements f. lowest \<le> k"
  shows "get_prior_loop f lowest slot =
    (let C = {k \<in> elements f. k \<le> slot \<and> (0 < k \<or> k = slot)} in if C = {} then None else Some (Max C))"
proof (induction slot rule: less_induct)
  case (less slot)
  let ?C = "\<lambda>slot. {k \<in> elements f. k \<le> slot \<and> (0 < k \<or> k = slot)}"
  have unfold: "get_prior_loop f lowest slot = (if slot \<in> elements f then Some slot
      else if slot - 1 = 0 \<or> slot - 1 < lowest then None else get_prior_loop f lowest (slot - 1))"
    by (subst get_prior_loop.simps) (simp add: contains_iff [OF ok])
  show ?case
  proof (cases "slot \<in> elements f")
    case True
    then have "Max (?C slot) = slot" by (intro Max_eqI) (auto intro: finite_subset [of _ "{..slot}"])
    with True unfold show ?thesis by auto
  next
    case absent: False
    show ?thesis
    proof (cases "slot - 1 = 0 \<or> slot - 1 < lowest")
      case True
      have "k = slot" if "k \<in> elements f" "k \<le> slot" "0 < k \<or> k = slot" for k
        using that True bspec [OF lowest that(1)] by linarith
      with absent have "?C slot = {}" by blast
      with absent True unfold show ?thesis by simp
    next
      case False
      then have pred: "slot - 1 < slot" "0 < slot - 1" by auto
      have "k \<le> slot - 1 \<and> (0 < k \<or> k = slot - 1) \<longleftrightarrow> k \<le> slot \<and> (0 < k \<or> k = slot)" if "k \<in> elements f" for k
        using that absent pred by (cases "k = slot") auto
      then have "?C (slot - 1) = ?C slot" by blast
      moreover have "get_prior_loop f lowest slot = get_prior_loop f lowest (slot - 1)"
        using unfold absent False by presburger
      ultimately show ?thesis using less [OF pred(1)] by simp
    qed
  qed
qed

lemma get_prior_eq:
  assumes ok: "rolling_ok f"
  shows "get_prior f x =
    (let C = {k \<in> elements f. k \<le> x - 1 \<and> (0 < k \<or> k = x - 1)} in if C = {} then None else Some (Max C))"
proof (cases "elements f = {}")
  case True
  with min_item_eq [OF ok] show ?thesis by (simp add: get_prior_def)
next
  case False
  have "finite (elements f)" using ok by (simp add: rolling_ok_def field_ok_def elements_def)
  then have "\<forall>k \<in> elements f. Min (elements f) \<le> k" by simp
  from get_prior_loop_eq [OF ok this] False min_item_eq [OF ok] show ?thesis by (simp add: get_prior_def)
qed

section \<open>Ancestors\<close>

type_synonym Ancestors = RollingBitField

definition ANCESTORS_SIZE :: nat where "ANCESTORS_SIZE = 8192"

definition Ancestors_default :: "Ancestors option" where
  "Ancestors_default = RollingBitField_new ANCESTORS_SIZE"

fun insert_all :: "Ancestors \<Rightarrow> nat list \<Rightarrow> Ancestors option" where
  "insert_all ancestors [] = Some ancestors"
| "insert_all ancestors (slot # slots) = do { ancestors \<leftarrow> insert_key ancestors slot; insert_all ancestors slots }"

definition Ancestors_from :: "nat list \<Rightarrow> Ancestors option" where
  "Ancestors_from source = do { ancestors \<leftarrow> Ancestors_default; insert_all ancestors (sort source) }"

definition min_slot :: "Ancestors \<Rightarrow> nat" where
  "min_slot ancestors = (case min_item ancestors of None \<Rightarrow> 0 | Some slot \<Rightarrow> slot)"

definition max_slot :: "Ancestors \<Rightarrow> nat" where
  "max_slot ancestors = max_exclusive ancestors - 1"

section \<open>Runs\<close>

text \<open>
  A run creates a field, inserts and removes keys. Keys stay below \<open>2 ^ 62\<close>, and once all items
  have been moved to the excess a new key lies above them: this is the sliding window the structure
  relies on.
\<close>

inductive rolling_run :: "nat \<Rightarrow> RollingBitField \<Rightarrow> nat set \<Rightarrow> bool" for width where
  new: "RollingBitField_new width = Some f \<Longrightarrow> width \<le> 2 ^ 62 \<Longrightarrow> rolling_run width f {}"
| insert: "rolling_run width f S \<Longrightarrow> insert_key f key = Some g \<Longrightarrow> key < 2 ^ 62 \<Longrightarrow>
    (all_items_in_excess f \<Longrightarrow> \<forall>k \<in> S. k < key) \<Longrightarrow> rolling_run width g (insert key S)"
| remove: "rolling_run width f S \<Longrightarrow> remove_key f key = (removed, g) \<Longrightarrow> rolling_run width g (S - {key})"

lemma rolling_new_ok:
  assumes "RollingBitField_new width = Some f" and "width \<le> 2 ^ 62"
  shows "rolling_ok f" and "elements f = {}" and "window f = {}"
proof -
  have f: "f = \<lparr>max_width = width, min_key = 0, max_exclusive = 0, bits = replicate width False,
      item_count = 0, excess = {}\<rparr>" "0 < width"
    using assms(1) by (auto simp: RollingBitField_new_def split: if_splits)
  then show "window f = {}" by (simp add: window_def)
  then show "elements f = {}" "rolling_ok f"
    using f assms(2) by (auto simp: elements_def rolling_ok_def field_ok_def)
qed

lemma slide_above:
  assumes "rolling_ok f" and "all_items_in_excess f \<Longrightarrow> \<forall>k \<in> elements f. k < key" and "window f = {}"
  shows "\<forall>k \<in> excess f. k < key"
  using assms by (auto simp: rolling_ok_def elements_def all_items_in_excess_iff)

lemma rolling_run_ok: "rolling_run width f S \<Longrightarrow> rolling_ok f \<and> elements f = S"
proof (induction rule: rolling_run.induct)
  case (new f)
  then show ?case using rolling_new_ok by blast
next
  case (insert f S key g)
  then have "\<forall>k \<in> excess f. k < key" if "window f = {}" using slide_above [of f key] that by blast
  with insert insert_key_ok [of f key] show ?case by force
next
  case (remove f S key removed g)
  with remove_key_ok [of f key removed g] show ?case by simp
qed

text \<open>C26: On every run whose keys slide upwards the rolling bit field is the set of the keys inserted
  and not removed: lookups, the number of items, the lowest item and the listings agree with the
  set whatever was moved to the excess, removal tells whether the key was there, and no assertion
  of an insertion fails.\<close>

theorem rolling_bit_field_refines_set:
  assumes "rolling_run width f S"
  shows "(\<forall>k. contains_key f k \<longleftrightarrow> k \<in> S) \<and> item_count f = card S \<and>
    min_item f = (if S = {} then None else Some (Min S)) \<and>
    (\<forall>order x. distinct order \<and> set order = excess f \<longrightarrow>
       distinct (get_all order f) \<and> set (get_all order f) = S \<and>
       set (get_all_less_than order f x) = {k \<in> S. k < x}) \<and>
    (\<forall>key. fst (remove_key f key) \<longleftrightarrow> key \<in> S) \<and>
    (\<forall>key < 2 ^ 62. (all_items_in_excess f \<longrightarrow> (\<forall>k \<in> S. k < key)) \<longrightarrow> insert_key f key \<noteq> None)"
proof -
  from rolling_run_ok [OF assms] have ok: "rolling_ok f" and S: "elements f = S" by simp_all
  have "insert_key f key \<noteq> None" if "key < 2 ^ 62" "all_items_in_excess f \<longrightarrow> (\<forall>k \<in> S. k < key)" for key
    using insert_key_ok [OF ok that(1) slide_above [OF ok]] that(2) S by auto
  moreover have "fst (remove_key f key) \<longleftrightarrow> key \<in> S" for key
    using remove_key_ok(1) [OF ok surjective_pairing] S by simp
  ultimately show ?thesis
    using contains_iff [OF ok] count_small [OF ok] min_item_eq [OF ok] get_all_eq [OF ok]
      get_all_less_than_eq [OF ok] S by simp
qed

text \<open>C28: The prior item below a bound of at least two is the highest positive item below it: item
  zero is found only under the bound one. Under the bound zero, item zero is returned although it is not below
  the bound.\<close>

theorem get_prior_characterized:
  assumes "rolling_run width f S"
  shows "get_prior f x =
    (let C = (if x \<le> 1 then S \<inter> {0} else {k \<in> S. 0 < k \<and> k < x}) in if C = {} then None else Some (Max C))"
proof -
  from rolling_run_ok [OF assms] have ok: "rolling_ok f" and S: "elements f = S" by simp_all
  have C: "{k \<in> S. k \<le> x - 1 \<and> (0 < k \<or> k = x - 1)} = (if x \<le> 1 then S \<inter> {0} else {k \<in> S. 0 < k \<and> k < x})"
    by auto
  from get_prior_eq [OF ok, of x] show ?thesis unfolding S C .
qed

definition demo_field :: RollingBitField where
  "demo_field = \<lparr>max_width = 2, min_key = 0, max_exclusive = 1, bits = [True, False], item_count = 1, excess = {}\<rparr>"

lemma new_two: "RollingBitField_new 2 = Some \<lparr>max_width = 2, min_key = 0, max_exclusive = 0,
    bits = [False, False], item_count = 0, excess = {}\<rparr>"
proof -
  have "is_power_of_two 2" unfolding is_power_of_two_def by (rule bexI [of _ 1]) simp_all
  then show ?thesis by (simp add: RollingBitField_new_def numeral_2_eq_2)
qed

lemma demo_field_run: "rolling_run 2 demo_field {0}"
  by (rule insert [OF new [OF new_two], where key = 0])
    (simp_all add: insert_key_def set_bit_at_def get_address_def demo_field_def)

theorem rolling_bit_field_refines_set_witness:
  "rolling_run 2 demo_field {0} \<and> contains_key demo_field 0 \<and> \<not> contains_key demo_field 1"
  using demo_field_run rolling_bit_field_refines_set [OF demo_field_run] by simp

theorem get_prior_characterized_witness:
  "rolling_run 2 demo_field {0} \<and> contains_key demo_field 0 \<and> get_prior demo_field 5 = None \<and>
     get_prior demo_field 0 = Some 0"
  using demo_field_run get_prior_characterized [OF demo_field_run, of 5]
    get_prior_characterized [OF demo_field_run, of 0]
  by (simp add: contains_key_def contains_assume_in_range_def get_address_def demo_field_def)

text \<open>
  Without the sliding window an item is forgotten: 10 and 5 are inserted, 10 is removed, and the
  insertion of 3 lowers the upper end of the field below 5, which stays listed and counted.
\<close>

lemma unsliding_insert_forgets:
  "do { f \<leftarrow> RollingBitField_new 2; f \<leftarrow> insert_key f 10; f \<leftarrow> insert_key f 5;
        f \<leftarrow> insert_key (snd (remove_key f 10)) 3;
        Some (contains_key f 5, get_all [5] f, item_count f, excess f) } = Some (False, [5, 3], 2, {5})"
  by (simp add: new_two insert_key_def set_bit_at_def
      get_address_def all_items_in_excess_def remove_key_def purge_def decrement_count_def wrap64_def
      contains_key_def get_all_def contains_assume_in_range_def)

lemma insert_all_ok:
  assumes "rolling_ok f" and "window f \<noteq> {}" and "\<forall>k \<in> set slots. k < 2 ^ 62"
  shows "\<exists>g. insert_all f slots = Some g \<and> rolling_ok g \<and> elements g = elements f \<union> set slots \<and>
    max_exclusive g = Max (insert (max_exclusive f) (Suc ` set slots))"
  using assms
proof (induction slots arbitrary: f)
  case (Cons slot slots)
  from insert_key_ok [OF Cons.prems(1), of slot] Cons.prems(2,3) obtain h where
    h: "insert_key f slot = Some h" "rolling_ok h" "elements h = insert slot (elements f)"
      "max_exclusive h = max (max_exclusive f) (slot + 1)" "window h \<noteq> {}" by auto
  from Cons.IH [OF h(2,5)] Cons.prems(3) obtain g where
    "insert_all h slots = Some g" "rolling_ok g" "elements g = elements h \<union> set slots"
    "max_exclusive g = Max (insert (max_exclusive h) (Suc ` set slots))" by auto
  moreover have "Max (insert (max (max_exclusive f) (slot + 1)) (Suc ` set slots)) =
      Max (insert (max_exclusive f) (insert (Suc slot) (Suc ` set slots)))"
    by (cases "Suc ` set slots = {}") (simp_all add: max.assoc)
  ultimately show ?case using h by auto
qed simp

text \<open>C27: The ancestors built from any list of slots below \<open>2 ^ 62\<close> are exactly its slots, whatever the
  width of the range they span, with their number and their lowest and highest slot.\<close>

theorem ancestors_from_slots:
  assumes "\<forall>slot \<in> set source. slot < 2 ^ 62"
  shows "\<exists>ancestors. Ancestors_from source = Some ancestors \<and>
    (\<forall>slot. contains_key ancestors slot \<longleftrightarrow> slot \<in> set source) \<and>
    item_count ancestors = card (set source) \<and>
    min_slot ancestors = (if source = [] then 0 else Min (set source)) \<and>
    max_slot ancestors = (if source = [] then 0 else Max (set source))"
proof -
  have "is_power_of_two 8192" unfolding is_power_of_two_def by (rule bexI [of _ 13]) simp_all
  then obtain f where f: "RollingBitField_new ANCESTORS_SIZE = Some f"
    by (simp add: RollingBitField_new_def ANCESTORS_SIZE_def)
  have start: "rolling_ok f" "elements f = {}" "window f = {}" "max_exclusive f = 0"
    using rolling_new_ok [OF f] f
    by (auto simp: ANCESTORS_SIZE_def RollingBitField_new_def split: if_splits)
  show ?thesis
  proof (cases "sort source")
    case Nil
    then have "source = []" by (metis length_0_conv length_sort)
    with start f contains_iff [OF start(1)] count_small [OF start(1)] min_item_eq [OF start(1)] show ?thesis
      by (simp add: Ancestors_from_def Ancestors_default_def min_slot_def max_slot_def)
  next
    case (Cons slot slots)
    have source: "set source = insert slot (set slots)" using Cons by (metis list.simps(15) set_sort)
    from insert_key_ok [OF start(1), of slot] assms start source obtain h where
      h: "insert_key f slot = Some h" "rolling_ok h" "elements h = {slot}" "max_exclusive h = slot + 1" "window h \<noteq> {}"
      by (auto simp: elements_def)
    from insert_all_ok [OF h(2,5), of slots] assms source obtain g where
      g: "insert_all h slots = Some g" "rolling_ok g" "elements g = set source"
        "max_exclusive g = Max (insert (slot + 1) (Suc ` set slots))" using h(3,4) by auto
    have "Max (insert (slot + 1) (Suc ` set slots)) = Suc (Max (set source))"
      using source mono_Max_commute [of Suc "set source"] by (simp add: mono_def)
    with g f h(1) Cons source contains_iff [OF g(2)] count_small [OF g(2)] min_item_eq [OF g(2)] show ?thesis
      by (auto simp: Ancestors_from_def Ancestors_default_def min_slot_def max_slot_def)
  qed
qed

theorem ancestors_from_slots_witness:
  "\<exists>ancestors. Ancestors_from [100000, 3, 7] = Some ancestors \<and> contains_key ancestors 3 \<and>
     \<not> contains_key ancestors 4 \<and> max_slot ancestors = 100000"
  using ancestors_from_slots [of "[100000, 3, 7]"] by auto

end
