(* ===== verification/StatusCache.thy ===== *)
theory StatusCache
  imports Prelude "HOL-Library.AList"
begin

text \<open>
  The cache of transaction statuses, \<^verbatim>\<open>runtime/src/status_cache.rs\<close>. Hash maps are
  association lists, whose order stands for the order of iteration; the set of roots is a set. The
  key offset drawn at random for a new blockhash and the number of entries kept are arguments. A
  panic is \<^term>\<open>None\<close>. The lemmas relate the cache to the log of insertions: statuses are found as long
  as their slot is above the purged roots, and slots can be cleared without a panic.
\<close>

section \<open>Operations\<close>

definition CACHED_KEY_SIZE :: nat where "CACHED_KEY_SIZE = 20"

type_synonym KeySlice = "u8 list"
type_synonym 't ForkStatus = "(Slot \<times> 't) list"
type_synonym 't KeyMap = "(KeySlice \<times> 't ForkStatus) list"
type_synonym 't Status = "(Hash \<times> nat \<times> (KeySlice \<times> 't) list) list"
type_synonym 't KeyStatusMap = "(Hash \<times> Slot \<times> nat \<times> 't KeyMap) list"
type_synonym 't SlotDeltaMap = "(Slot \<times> 't Status) list"

record 't StatusCache =
  cache :: "'t KeyStatusMap"
  roots :: "Slot set"
  slot_deltas :: "'t SlotDeltaMap"

definition StatusCache_default :: "'t StatusCache" where
  "StatusCache_default = \<lparr>cache = [], roots = {0}, slot_deltas = []\<rparr>"

text \<open>The loops of \<open>clear_slot_entries\<close>: over the key slices of a blockhash and over the blockhashes.\<close>

fun clear_keys :: "Slot \<Rightarrow> 't KeyMap \<Rightarrow> (KeySlice \<times> 't) list \<Rightarrow> 't KeyMap option" where
  "clear_keys slot all_hash_maps [] = Some all_hash_maps"
| "clear_keys slot all_hash_maps ((key_slice, _) # key_list) =
     (case map_of all_hash_maps key_slice of
        None \<Rightarrow> None
      | Some forks \<Rightarrow>
          (let kept = filter (\<lambda>(updated_slot, _). updated_slot \<noteq> slot) forks
           in clear_keys slot
                (if kept = [] then AList.delete key_slice all_hash_maps
                 else AList.update key_slice kept all_hash_maps) key_list))"

fun clear_blockhashes :: "Slot \<Rightarrow> 't KeyStatusMap \<Rightarrow> 't Status \<Rightarrow> 't KeyStatusMap option" where
  "clear_blockhashes slot c [] = Some c"
| "clear_blockhashes slot c ((blockhash, _, key_list) # deltas) =
     (case map_of c blockhash of
        None \<Rightarrow> None
      | Some (max_slot, key_index, all_hash_maps) \<Rightarrow> do {
          kept \<leftarrow> clear_keys slot all_hash_maps key_list;
          clear_blockhashes slot
            (if kept = [] then AList.delete blockhash c else AList.update blockhash (max_slot, key_index, kept) c)
            deltas })"

definition clear_slot_entries :: "'t StatusCache \<Rightarrow> Slot \<Rightarrow> 't StatusCache option" where
  "clear_slot_entries s slot =
     (case map_of (slot_deltas s) slot of
        None \<Rightarrow> Some s
      | Some deltas \<Rightarrow> do {
          c \<leftarrow> clear_blockhashes slot (cache s) deltas;
          Some (s \<lparr>cache := c, slot_deltas := AList.delete slot (slot_deltas s)\<rparr>) })"

definition max_key_index :: "u8 list \<Rightarrow> nat" where
  "max_key_index key = length key - (CACHED_KEY_SIZE + 1)"

text \<open>\<open>&key[index..index + CACHED_KEY_SIZE]\<close>, which panics out of range.\<close>

definition slice_at :: "u8 list \<Rightarrow> nat \<Rightarrow> KeySlice option" where
  "slice_at key index =
     (if index + CACHED_KEY_SIZE \<le> length key then Some (take CACHED_KEY_SIZE (drop index key)) else None)"

definition get_status :: "'t StatusCache \<Rightarrow> u8 list \<Rightarrow> Hash \<Rightarrow> Slot set \<Rightarrow> (Slot \<times> 't) option option" where
  "get_status s key transaction_blockhash ancestors =
     (case map_of (cache s) transaction_blockhash of
        None \<Rightarrow> Some None
      | Some (_, index, keymap) \<Rightarrow> do {
          key_slice \<leftarrow> slice_at key (min index (max_key_index key));
          Some (case map_of keymap key_slice of
                  Some stored_forks \<Rightarrow> find (\<lambda>(f, _). f \<in> ancestors \<or> f \<in> roots s) stored_forks
                | None \<Rightarrow> None) })"

fun first_status ::
    "'t StatusCache \<Rightarrow> u8 list \<Rightarrow> Hash list \<Rightarrow> Slot set \<Rightarrow> (Slot \<times> 't) option option" where
  "first_status s key [] ancestors = Some None"
| "first_status s key (blockhash # blockhashes) ancestors = do {
     status \<leftarrow> get_status s key blockhash ancestors;
     (case status of Some found \<Rightarrow> Some (Some found) | None \<Rightarrow> first_status s key blockhashes ancestors) }"

definition get_status_any_blockhash ::
    "'t StatusCache \<Rightarrow> u8 list \<Rightarrow> Slot set \<Rightarrow> (Slot \<times> 't) option option" where
  "get_status_any_blockhash s key ancestors = first_status s key (map fst (cache s)) ancestors"

definition purge_roots :: "nat \<Rightarrow> 't StatusCache \<Rightarrow> 't StatusCache" where
  "purge_roots max_entries s =
     (if card (roots s) > max_entries
      then (let lowest = Min (roots s)
            in s \<lparr>roots := roots s - {lowest},
                  cache := filter (\<lambda>(_, fork, _, _). fork > lowest) (cache s),
                  slot_deltas := filter (\<lambda>(slot, _). slot > lowest) (slot_deltas s)\<rparr>)
      else s)"

definition add_root :: "nat \<Rightarrow> 't StatusCache \<Rightarrow> Slot \<Rightarrow> 't StatusCache" where
  "add_root max_entries s fork = purge_roots max_entries (s \<lparr>roots := insert fork (roots s)\<rparr>)"

definition add_to_slot_delta ::
    "'t StatusCache \<Rightarrow> Hash \<Rightarrow> Slot \<Rightarrow> nat \<Rightarrow> KeySlice \<Rightarrow> 't \<Rightarrow> 't StatusCache" where
  "add_to_slot_delta s transaction_blockhash slot key_index key_slice res =
     (let fork_entry = (case map_of (slot_deltas s) slot of None \<Rightarrow> [] | Some e \<Rightarrow> e);
          (index, hash_entry) =
            (case map_of fork_entry transaction_blockhash of None \<Rightarrow> (key_index, []) | Some e \<Rightarrow> e)
      in s \<lparr>slot_deltas := AList.update slot
              (AList.update transaction_blockhash (index, hash_entry @ [(key_slice, res)]) fork_entry)
              (slot_deltas s)\<rparr>)"

definition add_fork :: "'t KeyMap \<Rightarrow> KeySlice \<Rightarrow> Slot \<Rightarrow> 't \<Rightarrow> 't KeyMap" where
  "add_fork hash_map key_slice slot res =
     AList.update key_slice
       ((case map_of hash_map key_slice of None \<Rightarrow> [] | Some forks \<Rightarrow> forks) @ [(slot, res)]) hash_map"

definition insert_status ::
    "'t StatusCache \<Rightarrow> Hash \<Rightarrow> u8 list \<Rightarrow> Slot \<Rightarrow> 't \<Rightarrow> nat \<Rightarrow> 't StatusCache option" where
  "insert_status s transaction_blockhash key slot res random_index =
     (let (max_slot, cached_index, hash_map) =
            (case map_of (cache s) transaction_blockhash of None \<Rightarrow> (slot, random_index, []) | Some e \<Rightarrow> e);
          key_index = min cached_index (max_key_index key)
      in do {
        key_slice \<leftarrow> slice_at key key_index;
        Some (add_to_slot_delta
          (s \<lparr>cache := AList.update transaction_blockhash
                 (max slot max_slot, cached_index, add_fork hash_map key_slice slot res) (cache s)\<rparr>)
          transaction_blockhash slot key_index key_slice res) })"

definition insert_with_slice ::
    "'t StatusCache \<Rightarrow> Hash \<Rightarrow> Slot \<Rightarrow> nat \<Rightarrow> KeySlice \<Rightarrow> 't \<Rightarrow> 't StatusCache" where
  "insert_with_slice s transaction_blockhash slot key_index key_slice res =
     (let (max_slot, cached_index, hash_map) =
            (case map_of (cache s) transaction_blockhash of None \<Rightarrow> (slot, key_index, []) | Some e \<Rightarrow> e)
      in add_to_slot_delta
           (s \<lparr>cache := AList.update transaction_blockhash
                  (max slot max_slot, cached_index, add_fork hash_map key_slice slot res) (cache s)\<rparr>)
           transaction_blockhash slot key_index key_slice res)"

text \<open>\<open>order\<close> lists the roots in the order of the hash set's iterator.\<close>

definition root_slot_deltas :: "Slot list \<Rightarrow> 't StatusCache \<Rightarrow> (Slot \<times> bool \<times> 't Status) list" where
  "root_slot_deltas order s =
     map (\<lambda>root. (root, True, case map_of (slot_deltas s) root of None \<Rightarrow> [] | Some e \<Rightarrow> e)) order"

definition insert_statuses :: "'t StatusCache \<Rightarrow> Slot \<Rightarrow> 't Status \<Rightarrow> 't StatusCache" where
  "insert_statuses s slot statuses =
     fold (\<lambda>(tx_hash, key_index, entries) s.
       fold (\<lambda>(key_slice, res) s. insert_with_slice s tx_hash slot key_index key_slice res) entries s) statuses s"

fun append_deltas :: "nat \<Rightarrow> 't StatusCache \<Rightarrow> (Slot \<times> bool \<times> 't Status) list \<Rightarrow> 't StatusCache" where
  "append_deltas max_entries s [] = s"
| "append_deltas max_entries s ((slot, is_root, statuses) # deltas) =
     (let s = insert_statuses s slot statuses
      in append_deltas max_entries (if is_root then add_root max_entries s slot else s) deltas)"

section \<open>Views of a cache\<close>

definition forks_at :: "'t StatusCache \<Rightarrow> Hash \<Rightarrow> KeySlice \<Rightarrow> 't ForkStatus" where
  "forks_at s b k =
     (case map_of (cache s) b of
        None \<Rightarrow> []
      | Some (_, _, keymap) \<Rightarrow> (case map_of keymap k of None \<Rightarrow> [] | Some forks \<Rightarrow> forks))"

definition index_of :: "'t StatusCache \<Rightarrow> Hash \<Rightarrow> nat option" where
  "index_of s b = map_option (\<lambda>(_, index, _). index) (map_of (cache s) b)"

definition max_slot_of :: "'t StatusCache \<Rightarrow> Hash \<Rightarrow> Slot option" where
  "max_slot_of s b = map_option fst (map_of (cache s) b)"

definition delta_at :: "'t StatusCache \<Rightarrow> Slot \<Rightarrow> Hash \<Rightarrow> (nat \<times> (KeySlice \<times> 't) list) option" where
  "delta_at s slot b =
     (case map_of (slot_deltas s) slot of None \<Rightarrow> None | Some status \<Rightarrow> map_of status b)"

definition keys_at :: "'t StatusCache \<Rightarrow> Slot \<Rightarrow> Hash \<Rightarrow> (KeySlice \<times> 't) list" where
  "keys_at s slot b = (case delta_at s slot b of None \<Rightarrow> [] | Some (_, entries) \<Rightarrow> entries)"

text \<open>The part common to both insertions.\<close>

definition cached_index :: "'t StatusCache \<Rightarrow> Hash \<Rightarrow> nat \<Rightarrow> nat" where
  "cached_index s b fresh = (case index_of s b of None \<Rightarrow> fresh | Some index \<Rightarrow> index)"

definition put_status ::
    "'t StatusCache \<Rightarrow> Hash \<Rightarrow> Slot \<Rightarrow> nat \<Rightarrow> nat \<Rightarrow> KeySlice \<Rightarrow> 't \<Rightarrow> 't StatusCache" where
  "put_status s b slot fresh key_index k res =
     (let (max_slot, index, hash_map) = (case map_of (cache s) b of None \<Rightarrow> (slot, fresh, []) | Some e \<Rightarrow> e)
      in add_to_slot_delta
           (s \<lparr>cache := AList.update b (max slot max_slot, index, add_fork hash_map k slot res) (cache s)\<rparr>)
           b slot key_index k res)"

lemma insert_status_put:
  "insert_status s b key slot res random_index = do {
     k \<leftarrow> slice_at key (min (cached_index s b random_index) (max_key_index key));
     Some (put_status s b slot random_index (min (cached_index s b random_index) (max_key_index key)) k res) }"
  by (auto simp: insert_status_def put_status_def cached_index_def index_of_def Let_def split: option.splits prod.splits)

lemma insert_with_slice_put: "insert_with_slice s b slot key_index k res = put_status s b slot key_index key_index k res"
  by (simp add: insert_with_slice_def put_status_def)

lemma cache_put:
  "map_of (cache (put_status s b slot fresh key_index k res)) =
     (map_of (cache s))(b \<mapsto> (case map_of (cache s) b of
        None \<Rightarrow> (slot, fresh, add_fork [] k slot res)
      | Some (max_slot, index, hash_map) \<Rightarrow> (max slot max_slot, index, add_fork hash_map k slot res)))"
  by (cases "map_of (cache s) b")
    (simp_all add: put_status_def add_to_slot_delta_def update_conv' case_prod_unfold Let_def)

lemma forks_put:
  "forks_at (put_status s b slot fresh key_index k res) b' k' =
     (if b' = b \<and> k' = k then forks_at s b k @ [(slot, res)] else forks_at s b' k')"
  unfolding forks_at_def cache_put
  by (cases "map_of (cache s) b") (auto simp: add_fork_def update_conv' split: option.splits)

lemma index_put:
  "index_of (put_status s b slot fresh key_index k res) b' =
     (if b' = b then Some (cached_index s b fresh) else index_of s b')"
  unfolding index_of_def cached_index_def cache_put
  by (cases "map_of (cache s) b") (auto split: option.splits)

lemma max_slot_put:
  "max_slot_of (put_status s b slot fresh key_index k res) b' =
     (if b' = b then Some (case max_slot_of s b of None \<Rightarrow> slot | Some m \<Rightarrow> max slot m) else max_slot_of s b')"
  unfolding max_slot_of_def cache_put
  by (cases "map_of (cache s) b") (auto split: option.splits)

lemma slot_deltas_put:
  "slot_deltas (put_status s b slot fresh key_index k res) =
     AList.update slot
       (AList.update b
         (case delta_at s slot b of None \<Rightarrow> (key_index, [(k, res)]) | Some (index, entries) \<Rightarrow> (index, entries @ [(k, res)]))
         (case map_of (slot_deltas s) slot of None \<Rightarrow> [] | Some e \<Rightarrow> e))
       (slot_deltas s)"
proof -
  have "slot_deltas (add_to_slot_delta t b slot key_index k res) =
     AList.update slot
       (AList.update b
         (case delta_at t slot b of None \<Rightarrow> (key_index, [(k, res)]) | Some (index, entries) \<Rightarrow> (index, entries @ [(k, res)]))
         (case map_of (slot_deltas t) slot of None \<Rightarrow> [] | Some e \<Rightarrow> e))
       (slot_deltas t)" for t :: "'a StatusCache"
    by (cases "map_of (slot_deltas t) slot"; cases "delta_at t slot b")
      (simp_all add: add_to_slot_delta_def delta_at_def case_prod_unfold)
  moreover have "delta_at (s \<lparr>cache := c\<rparr>) slot b = delta_at s slot b" for c by (simp add: delta_at_def)
  ultimately show ?thesis by (simp add: put_status_def case_prod_unfold Let_def)
qed

lemma delta_put:
  "delta_at (put_status s b slot fresh key_index k res) slot' b' =
     (if slot' = slot \<and> b' = b
      then Some (case delta_at s slot b of
                   None \<Rightarrow> (key_index, [(k, res)])
                 | Some (index, entries) \<Rightarrow> (index, entries @ [(k, res)]))
      else delta_at s slot' b')"
  unfolding delta_at_def [of "put_status s b slot fresh key_index k res"] slot_deltas_put
  by (simp add: update_conv' delta_at_def split: option.split)

lemma keys_put:
  "keys_at (put_status s b slot fresh key_index k res) slot' b' =
     (if slot' = slot \<and> b' = b then keys_at s slot b @ [(k, res)] else keys_at s slot' b')"
  by (auto simp: keys_at_def delta_put split: option.splits prod.splits)

lemma roots_put [simp]: "roots (put_status s b slot fresh key_index k res) = roots s"
  by (simp add: put_status_def add_to_slot_delta_def Let_def split: prod.splits option.splits)

lemmas put_simps = forks_put index_put max_slot_put delta_put keys_put

section \<open>Clearing and purging\<close>

definition structure_ok :: "'t StatusCache \<Rightarrow> bool" where
  "structure_ok s \<longleftrightarrow>
     distinct (map fst (cache s)) \<and> distinct (map fst (slot_deltas s)) \<and>
     (\<forall>slot status. map_of (slot_deltas s) slot = Some status \<longrightarrow> distinct (map fst status))"

lemma structure_put: "structure_ok s \<Longrightarrow> structure_ok (put_status s b slot fresh key_index k res)"
proof -
  assume ok: "structure_ok s"
  have "cache (put_status s b slot fresh key_index k res) =
      AList.update b (case map_of (cache s) b of
          None \<Rightarrow> (slot, fresh, add_fork [] k slot res)
        | Some (max_slot, index, hash_map) \<Rightarrow> (max slot max_slot, index, add_fork hash_map k slot res)) (cache s)"
    by (cases "map_of (cache s) b")
      (simp_all add: put_status_def add_to_slot_delta_def case_prod_unfold Let_def)
  with ok show ?thesis
    by (auto simp: structure_ok_def slot_deltas_put distinct_update update_conv' split: option.splits)
qed

abbreviation forks_of :: "'t KeyMap \<Rightarrow> KeySlice \<Rightarrow> 't ForkStatus" where
  "forks_of km k \<equiv> (case map_of km k of None \<Rightarrow> [] | Some forks \<Rightarrow> forks)"

lemma clear_keys_eq:
  assumes "distinct (map fst ks)" and "\<forall>k \<in> fst ` set ks. map_of km k \<noteq> None"
  shows "\<exists>km'. clear_keys slot km ks = Some km' \<and>
    (\<forall>k. forks_of km' k = (if k \<in> fst ` set ks then filter (\<lambda>(f, _). f \<noteq> slot) (forks_of km k) else forks_of km k))"
  using assms
proof (induction ks arbitrary: km)
  case (Cons e ks)
  obtain k r where e: "e = (k, r)" by fastforce
  with Cons.prems obtain forks where forks: "map_of km k = Some forks" by auto
  let ?kept = "filter (\<lambda>(f, _). f \<noteq> slot) forks"
  let ?km = "if ?kept = [] then AList.delete k km else AList.update k ?kept km"
  have km: "map_of ?km = (map_of km)(k := if ?kept = [] then None else Some ?kept)"
    by (simp add: delete_conv' update_conv')
  have "\<forall>k' \<in> fst ` set ks. map_of ?km k' \<noteq> None" unfolding km using Cons.prems e by auto
  from Cons.IH [OF _ this] Cons.prems(1) e obtain km' where
    km': "clear_keys slot ?km ks = Some km'"
      "\<And>k'. forks_of km' k' = (if k' \<in> fst ` set ks then filter (\<lambda>(f, _). f \<noteq> slot) (forks_of ?km k') else forks_of ?km k')"
    by auto
  have "k \<notin> fst ` set ks" using Cons.prems(1) e by simp
  moreover have "forks_of ?km k' = (if k' = k then ?kept else forks_of km k')" for k' unfolding km by simp
  ultimately have "forks_of km' k' =
      (if k' \<in> fst ` set (e # ks) then filter (\<lambda>(f, _). f \<noteq> slot) (forks_of km k') else forks_of km k')" for k'
    unfolding km'(2) e by (simp add: forks)
  moreover have "clear_keys slot km (e # ks) = Some km'" using km'(1) e forks by (simp add: Let_def)
  ultimately show ?case by blast
qed simp

lemma clear_blockhashes_eq:
  assumes "distinct (map fst deltas)" and "distinct (map fst c)"
    and "\<forall>b i ks. (b, i, ks) \<in> set deltas \<longrightarrow> distinct (map fst ks) \<and>
      (\<exists>m j km. map_of c b = Some (m, j, km) \<and> (\<forall>k \<in> fst ` set ks. map_of km k \<noteq> None))"
  shows "\<exists>c'. clear_blockhashes slot c deltas = Some c' \<and> distinct (map fst c') \<and>
    (\<forall>b. b \<notin> fst ` set deltas \<longrightarrow> map_of c' b = map_of c b) \<and>
    (\<forall>b i ks m j km. (b, i, ks) \<in> set deltas \<longrightarrow> map_of c b = Some (m, j, km) \<longrightarrow>
       (\<exists>km'. map_of c' b = (if km' = [] then None else Some (m, j, km')) \<and>
          (\<forall>k. forks_of km' k =
             (if k \<in> fst ` set ks then filter (\<lambda>(f, _). f \<noteq> slot) (forks_of km k) else forks_of km k))))"
  using assms
proof (induction deltas arbitrary: c)
  case (Cons e deltas)
  obtain b i ks where e: "e = (b, i, ks)" using prod_cases3 by blast
  from Cons.prems(3) [rule_format, of b i ks] e obtain m j km where b: "map_of c b = Some (m, j, km)"
    "\<forall>k \<in> fst ` set ks. map_of km k \<noteq> None" "distinct (map fst ks)" by auto
  from clear_keys_eq [OF b(3,2), of slot] obtain km' where km': "clear_keys slot km ks = Some km'"
    "\<forall>k. forks_of km' k = (if k \<in> fst ` set ks then filter (\<lambda>(f, _). f \<noteq> slot) (forks_of km k) else forks_of km k)"
    by blast
  let ?c = "if km' = [] then AList.delete b c else AList.update b (m, j, km') c"
  have c: "map_of ?c = (map_of c)(b := if km' = [] then None else Some (m, j, km'))"
    by (simp add: delete_conv' update_conv')
  have fresh: "b \<notin> fst ` set deltas" using Cons.prems(1) e by simp
  have distinct: "distinct (map fst ?c)" using Cons.prems(2) by (simp add: distinct_update distinct_delete)
  have rest: "\<forall>b' i ks. (b', i, ks) \<in> set deltas \<longrightarrow> distinct (map fst ks) \<and>
      (\<exists>m j km. map_of ?c b' = Some (m, j, km) \<and> (\<forall>k \<in> fst ` set ks. map_of km k \<noteq> None))"
  proof (intro allI impI)
    fix b' i' ks' assume in_deltas: "(b', i', ks') \<in> set deltas"
    with fresh have "b' \<noteq> b" by (auto simp: image_iff)
    with Cons.prems(3) [rule_format, of b' i' ks'] in_deltas show "distinct (map fst ks') \<and>
      (\<exists>m j km. map_of ?c b' = Some (m, j, km) \<and> (\<forall>k \<in> fst ` set ks'. map_of km k \<noteq> None))"
      unfolding c by simp
  qed
  from Cons.IH [OF _ distinct rest] Cons.prems(1) obtain c' where c':
    "clear_blockhashes slot ?c deltas = Some c'" "distinct (map fst c')"
    "\<And>b. b \<notin> fst ` set deltas \<Longrightarrow> map_of c' b = map_of ?c b"
    "\<And>b i ks m j km. (b, i, ks) \<in> set deltas \<Longrightarrow> map_of ?c b = Some (m, j, km) \<Longrightarrow>
       \<exists>km'. map_of c' b = (if km' = [] then None else Some (m, j, km')) \<and>
          (\<forall>k. forks_of km' k =
             (if k \<in> fst ` set ks then filter (\<lambda>(f, _). f \<noteq> slot) (forks_of km k) else forks_of km k))" by auto
  have "clear_blockhashes slot c (e # deltas) = Some c'" using e b(1) km'(1) c'(1) by simp
  moreover have "map_of c' b' = map_of c b'" if "b' \<notin> fst ` set (e # deltas)" for b'
    using that c'(3) [of b'] e unfolding c by simp
  moreover have "\<exists>km'. map_of c' b' = (if km' = [] then None else Some (m', j', km')) \<and>
      (\<forall>k. forks_of km' k = (if k \<in> fst ` set ks' then filter (\<lambda>(f, _). f \<noteq> slot) (forks_of km'' k) else forks_of km'' k))"
    if in_deltas: "(b', i', ks') \<in> set (e # deltas)" "map_of c b' = Some (m', j', km'')" for b' i' ks' m' j' km''
  proof (cases "b' = b")
    case True
    then have "(b', i', ks') = e" using in_deltas(1) fresh by (force simp: image_iff)
    with True e b(1) in_deltas(2) have same: "ks' = ks" "m' = m" "j' = j" "km'' = km" by simp_all
    show ?thesis unfolding same
      by (rule exI [of _ km']) (use True c'(3) [OF fresh] km'(2) in \<open>simp add: c\<close>)
  next
    case False
    with in_deltas e c'(4) [of b' i' ks' m' j' km''] show ?thesis unfolding c by auto
  qed
  ultimately show ?case using c'(2) by blast
qed simp

definition deltas_ok :: "'t StatusCache \<Rightarrow> bool" where
  "deltas_ok s \<longleftrightarrow>
     (\<forall>slot b i ks. delta_at s slot b = Some (i, ks) \<longrightarrow> ks \<noteq> [] \<and> distinct (map fst ks) \<and> index_of s b = Some i) \<and>
     (\<forall>slot b k r. (k, r) \<in> set (keys_at s slot b) \<longrightarrow> (slot, r) \<in> set (forks_at s b k))"

lemma forks_at_Some: "map_of (cache s) b = Some (m, j, km) \<Longrightarrow> forks_at s b k = forks_of km k"
  by (simp add: forks_at_def)

lemma clear_slot_eq:
  assumes ok: "structure_ok s" "deltas_ok s"
  shows "\<exists>s'. clear_slot_entries s slot = Some s' \<and> structure_ok s' \<and> roots s' = roots s \<and>
    (\<forall>b k. forks_at s' b k = (if k \<in> fst ` set (keys_at s slot b)
       then filter (\<lambda>(f, _). f \<noteq> slot) (forks_at s b k) else forks_at s b k)) \<and>
    (\<forall>b. index_of s' b = index_of s b \<and> max_slot_of s' b = max_slot_of s b \<or>
       index_of s' b = None \<and> (\<forall>k. forks_at s' b k = [])) \<and>
    (\<forall>sl b. delta_at s' sl b = (if sl = slot then None else delta_at s sl b))"
proof (cases "map_of (slot_deltas s) slot")
  case None
  then show ?thesis using ok(1) by (simp add: clear_slot_entries_def keys_at_def delta_at_def)
next
  case (Some deltas)
  have distinct: "distinct (map fst deltas)" "distinct (map fst (cache s))"
    using ok(1) Some by (simp_all add: structure_ok_def)
  have delta: "delta_at s slot b = map_of deltas b" for b using Some by (simp add: delta_at_def)
  have found: "delta_at s slot b = Some (i, ks)" if "(b, i, ks) \<in> set deltas" for b i ks
    using that distinct(1) by (simp add: delta)
  have keys: "keys_at s slot b = ks" if "delta_at s slot b = Some (i, ks)" for b i ks
    using that by (simp add: keys_at_def)
  have entry: "distinct (map fst ks) \<and>
      (\<exists>m j km. map_of (cache s) b = Some (m, j, km) \<and> (\<forall>k \<in> fst ` set ks. map_of km k \<noteq> None))"
    if "(b, i, ks) \<in> set deltas" for b i ks
  proof -
    note d = found [OF that]
    have ks: "ks \<noteq> []" "distinct (map fst ks)" using d ok(2) by (simp_all add: deltas_ok_def)
    have forks: "forks_at s b k \<noteq> []" if "k \<in> fst ` set ks" for k
      using that ok(2) keys [OF d] unfolding deltas_ok_def by fastforce
    from ks(1) obtain k where "k \<in> fst ` set ks" by (cases ks) auto
    from forks [OF this] obtain m j km where c: "map_of (cache s) b = Some (m, j, km)"
      by (cases "map_of (cache s) b") (auto simp: forks_at_def)
    have "map_of km k \<noteq> None" if "k \<in> fst ` set ks" for k
      using forks [OF that] forks_at_Some [OF c, of k] by (auto split: option.splits)
    with ks(2) c show ?thesis by blast
  qed
  have "\<forall>b i ks. (b, i, ks) \<in> set deltas \<longrightarrow> distinct (map fst ks) \<and>
      (\<exists>m j km. map_of (cache s) b = Some (m, j, km) \<and> (\<forall>k \<in> fst ` set ks. map_of km k \<noteq> None))"
    using entry by blast
  from clear_blockhashes_eq [OF distinct this, of slot] obtain c' where
    clear: "clear_blockhashes slot (cache s) deltas = Some c'" and distinct': "distinct (map fst c')"
    and same: "\<forall>b. b \<notin> fst ` set deltas \<longrightarrow> map_of c' b = map_of (cache s) b"
    and changed: "\<forall>b i ks m j km. (b, i, ks) \<in> set deltas \<longrightarrow> map_of (cache s) b = Some (m, j, km) \<longrightarrow>
       (\<exists>km'. map_of c' b = (if km' = [] then None else Some (m, j, km')) \<and>
          (\<forall>k. forks_of km' k =
             (if k \<in> fst ` set ks then filter (\<lambda>(f, _). f \<noteq> slot) (forks_of km k) else forks_of km k)))"
    by (elim exE conjE)
  let ?s = "s \<lparr>cache := c', slot_deltas := AList.delete slot (slot_deltas s)\<rparr>"
  have per_hash: "(\<forall>k. forks_at ?s b k = (if k \<in> fst ` set (keys_at s slot b)
       then filter (\<lambda>(f, _). f \<noteq> slot) (forks_at s b k) else forks_at s b k)) \<and>
     (index_of ?s b = index_of s b \<and> max_slot_of ?s b = max_slot_of s b \<or>
       index_of ?s b = None \<and> (\<forall>k. forks_at ?s b k = []))" for b
  proof (cases "b \<in> fst ` set deltas")
    case False
    then have "keys_at s slot b = []" by (simp add: keys_at_def delta map_of_eq_None_iff [THEN iffD2])
    with same [rule_format, OF False] show ?thesis by (simp add: forks_at_def index_of_def max_slot_of_def)
  next
    case True
    then obtain i ks where b: "(b, i, ks) \<in> set deltas" by auto
    with entry obtain m j km where c: "map_of (cache s) b = Some (m, j, km)" by blast
    from changed [rule_format, OF b c] obtain km' where km': "map_of c' b = (if km' = [] then None else Some (m, j, km'))"
      "\<And>k. forks_of km' k =
         (if k \<in> fst ` set ks then filter (\<lambda>(f, _). f \<noteq> slot) (forks_of km k) else forks_of km k)" by blast
    have forks: "forks_at ?s b k = forks_of km' k" for k using km'(1) by (simp add: forks_at_def)
    show ?thesis
      unfolding forks km'(2) keys [OF found [OF b]] forks_at_Some [OF c]
      using km' c by (cases "km' = []") (auto simp: index_of_def max_slot_of_def)
  qed
  have "delta_at ?s sl b = (if sl = slot then None else delta_at s sl b)" for sl b
    by (simp add: delta_at_def delete_conv')
  moreover have "structure_ok ?s"
    using ok(1) distinct' by (auto simp: structure_ok_def distinct_delete delete_conv' split: if_splits)
  moreover have "clear_slot_entries s slot = Some ?s" using Some clear by (simp add: clear_slot_entries_def)
  moreover have "roots ?s = roots s" by simp
  ultimately show ?thesis using per_hash by blast
qed

lemma purge_roots_eq:
  assumes "structure_ok s" and "card (roots s) > max_entries" and s': "s' = purge_roots max_entries s"
  shows "structure_ok s'" and "roots s' = roots s - {Min (roots s)}"
    and "\<And>b. map_of (cache s') b = (case map_of (cache s) b of
        Some e \<Rightarrow> if fst e > Min (roots s) then Some e else None | None \<Rightarrow> None)"
    and "\<And>sl b. delta_at s' sl b = (if sl > Min (roots s) then delta_at s sl b else None)"
proof -
  have distinct: "distinct (map fst (cache s))" "distinct (map fst (slot_deltas s))"
    using assms(1) by (simp_all add: structure_ok_def)
  have fields: "roots s' = roots s - {Min (roots s)}"
    "cache s' = filter (\<lambda>(_, fork, _, _). fork > Min (roots s)) (cache s)"
    "slot_deltas s' = filter (\<lambda>(slot, _). slot > Min (roots s)) (slot_deltas s)"
    using assms(2) by (simp_all add: s' purge_roots_def Let_def)
  show "roots s' = roots s - {Min (roots s)}" by (rule fields(1))
  show "map_of (cache s') b = (case map_of (cache s) b of
        Some e \<Rightarrow> if fst e > Min (roots s) then Some e else None | None \<Rightarrow> None)" for b
    unfolding fields(2) map_of_filter_distinct [OF distinct(1)]
    by (simp add: case_prod_unfold split: option.split)
  have deltas: "map_of (slot_deltas s') sl = (if sl > Min (roots s) then map_of (slot_deltas s) sl else None)" for sl
    unfolding fields(3) map_of_filter_distinct [OF distinct(2)] by (simp split: option.split)
  show "delta_at s' sl b = (if sl > Min (roots s) then delta_at s sl b else None)" for sl b
    by (simp add: delta_at_def deltas)
  have "distinct (map fst (cache s'))" "distinct (map fst (slot_deltas s'))"
    unfolding fields using distinct by (simp_all add: distinct_map_filter)
  with assms(1) show "structure_ok s'" unfolding structure_ok_def deltas by simp
qed

section \<open>The log of insertions\<close>

text \<open>
  A log holds the blockhash, key, slot and result of every insertion that was not cleared, and
  \<open>purged\<close> the roots dropped so far. Keys are message hashes of 32 or signatures of 64 bytes, and
  the first key inserted under a blockhash is a message hash: so an offset is at most 11.
\<close>

type_synonym 't status_log = "(Hash \<times> u8 list \<times> Slot \<times> 't) set"

definition slice :: "u8 list \<Rightarrow> nat \<Rightarrow> KeySlice" where
  "slice key index = take CACHED_KEY_SIZE (drop index key)"

lemma slice_at_min:
  "32 \<le> length key \<Longrightarrow> index \<le> 11 \<Longrightarrow> min index (max_key_index key) = index \<and> slice_at key index = Some (slice key index)"
  by (simp add: max_key_index_def slice_at_def slice_def CACHED_KEY_SIZE_def)

definition log_ok :: "'t StatusCache \<Rightarrow> 't status_log \<Rightarrow> Slot set \<Rightarrow> bool" where
  "log_ok s log purged \<longleftrightarrow>
     (\<forall>b k sl r. (sl, r) \<in> set (forks_at s b k) \<longrightarrow>
        (\<exists>m. max_slot_of s b = Some m \<and> sl \<le> m) \<and>
        ((\<forall>p \<in> purged. p < sl) \<longrightarrow> (k, r) \<in> set (keys_at s sl b)) \<and>
        (\<exists>key i. (b, key, sl, r) \<in> log \<and> index_of s b = Some i \<and> k = slice key i)) \<and>
     (\<forall>b key sl r. (b, key, sl, r) \<in> log \<longrightarrow> (\<forall>p \<in> purged. p < sl) \<longrightarrow>
        (\<exists>i. index_of s b = Some i \<and> (sl, r) \<in> set (forks_at s b (slice key i)))) \<and>
     (\<forall>b i. index_of s b = Some i \<longrightarrow> i \<le> 11)"

definition cache_inv :: "'t StatusCache \<Rightarrow> 't status_log \<Rightarrow> Slot set \<Rightarrow> bool" where
  "cache_inv s log purged \<longleftrightarrow>
     structure_ok s \<and> deltas_ok s \<and> log_ok s log purged \<and> finite (roots s) \<and> (\<forall>p \<in> purged. \<forall>t \<in> roots s. p < t)"

lemma cache_invI:
  assumes "structure_ok s" "deltas_ok s" "log_ok s log purged" "finite (roots s)" "\<forall>p \<in> purged. \<forall>t \<in> roots s. p < t"
  shows "cache_inv s log purged"
  using assms by (simp add: cache_inv_def)

lemma insert_keeps_inv:
  assumes inv: "cache_inv s log purged" and key: "32 \<le> length key" "random_index \<le> 11"
    and fresh: "slot \<notin> fst ` set (forks_at s b (slice key (cached_index s b random_index)))"
    and insert: "insert_status s b key slot res random_index = Some s'"
  shows "cache_inv s' (insert (b, key, slot, res) log) purged"
proof -
  let ?i = "cached_index s b random_index"
  have ok: "structure_ok s" "deltas_ok s" "log_ok s log purged" using inv by (simp_all add: cache_inv_def)
  have index: "?i \<le> 11" using ok(3) key(2) by (auto simp: log_ok_def cached_index_def split: option.split)
  let ?k = "slice key ?i"
  have s': "s' = put_status s b slot random_index ?i ?k res"
    using insert slice_at_min [OF key(1) index] by (simp add: insert_status_put)
  have known: "index_of s b = Some ?i" if "delta_at s sl b = Some d" for sl d
    using that ok(2) by (cases d) (auto simp: deltas_ok_def cached_index_def)
  have new: "?k \<notin> fst ` set (keys_at s slot b)"
  proof
    assume "?k \<in> fst ` set (keys_at s slot b)"
    then obtain r where "(?k, r) \<in> set (keys_at s slot b)" by auto
    with ok(2) have "(slot, r) \<in> set (forks_at s b ?k)" unfolding deltas_ok_def by blast
    from imageI [OF this, of fst] fresh show False by simp
  qed
  have "deltas_ok s'"
    unfolding deltas_ok_def
  proof (intro conjI allI impI)
    fix sl b' i ks assume d: "delta_at s' sl b' = Some (i, ks)"
    show "ks \<noteq> []" "distinct (map fst ks)" "index_of s' b' = Some i"
      using d ok(2) known new unfolding s' put_simps deltas_ok_def keys_at_def
      by (auto split: if_splits option.splits)
  next
    fix sl b' k r assume "(k, r) \<in> set (keys_at s' sl b')"
    then show "(sl, r) \<in> set (forks_at s' b' k)"
      using ok(2) unfolding s' put_simps deltas_ok_def by (auto split: if_splits)
  qed
  moreover have "log_ok s' (insert (b, key, slot, res) log) purged"
    unfolding log_ok_def
  proof (intro conjI allI impI)
    fix b' k sl r assume f: "(sl, r) \<in> set (forks_at s' b' k)"
    then have old: "(sl, r) \<in> set (forks_at s b' k) \<or> sl = slot \<and> r = res \<and> b' = b \<and> k = ?k"
      unfolding s' put_simps by (auto split: if_splits)
    show "\<exists>m. max_slot_of s' b' = Some m \<and> sl \<le> m"
      using old ok(3) unfolding s' put_simps log_ok_def by (fastforce simp: le_max_iff_disj split: option.splits)
    show "(k, r) \<in> set (keys_at s' sl b')" if "\<forall>p \<in> purged. p < sl"
      using old that ok(3) unfolding s' put_simps log_ok_def by auto
    show "\<exists>key' i. (b', key', sl, r) \<in> insert (b, key, slot, res) log \<and> index_of s' b' = Some i \<and> k = slice key' i"
      using old ok(3) unfolding s' put_simps log_ok_def cached_index_def by fastforce
  next
    fix b' key' sl r assume "(b', key', sl, r) \<in> insert (b, key, slot, res) log" "\<forall>p \<in> purged. p < sl"
    then show "\<exists>i. index_of s' b' = Some i \<and> (sl, r) \<in> set (forks_at s' b' (slice key' i))"
      using ok(3) unfolding s' put_simps log_ok_def cached_index_def by fastforce
  next
    fix b' i assume "index_of s' b' = Some i"
    then show "i \<le> 11" using ok(3) index unfolding s' put_simps log_ok_def by (auto split: if_splits)
  qed
  ultimately show ?thesis using inv structure_put [OF ok(1)] by (simp add: cache_inv_def s')
qed

lemma views_of_roots_update [simp]:
  "forks_at (s \<lparr>roots := R\<rparr>) = forks_at s" "index_of (s \<lparr>roots := R\<rparr>) = index_of s"
  "max_slot_of (s \<lparr>roots := R\<rparr>) = max_slot_of s" "delta_at (s \<lparr>roots := R\<rparr>) = delta_at s"
  "keys_at (s \<lparr>roots := R\<rparr>) = keys_at s"
  by (simp_all add: fun_eq_iff forks_at_def index_of_def max_slot_of_def delta_at_def keys_at_def)

lemma roots_insert_inv: "cache_inv s log purged \<Longrightarrow> \<forall>p \<in> purged. p < slot \<Longrightarrow>
    cache_inv (s \<lparr>roots := insert slot (roots s)\<rparr>) log purged"
  by (simp add: cache_inv_def structure_ok_def deltas_ok_def log_ok_def)

lemma purge_keeps_inv:
  assumes inv: "cache_inv s log purged" and s': "s' = purge_roots max_entries s"
  shows "cache_inv s' log (purged \<union> (roots s - roots s'))"
proof (cases "card (roots s) > max_entries")
  case False
  with inv show ?thesis by (simp add: s' purge_roots_def)
next
  case True
  let ?low = "Min (roots s)"
  have ok: "structure_ok s" "deltas_ok s" "log_ok s log purged" "finite (roots s)" using inv by (simp_all add: cache_inv_def)
  note purge = purge_roots_eq [OF ok(1) True s']
  have low: "?low \<in> roots s" using True ok(4) by (metis Min_in card.empty not_less_zero)
  then have dropped: "roots s - roots s' = {?low}" by (auto simp: purge(2))
  have cache: "forks_at s' b k = (case max_slot_of s b of
      Some m \<Rightarrow> if m > ?low then forks_at s b k else [] | None \<Rightarrow> [])"
    "index_of s' b = (case max_slot_of s b of Some m \<Rightarrow> if m > ?low then index_of s b else None | None \<Rightarrow> None)"
    "max_slot_of s' b = (case max_slot_of s b of Some m \<Rightarrow> if m > ?low then Some m else None | None \<Rightarrow> None)" for b k
    by (cases "map_of (cache s) b"; simp add: forks_at_def index_of_def max_slot_of_def purge(3) case_prod_unfold)+
  have keys: "keys_at s' sl b = (if sl > ?low then keys_at s sl b else [])" for sl b
    by (simp add: keys_at_def purge(4))
  have kept: "forks_at s' b k = forks_at s b k \<and> index_of s' b = index_of s b \<and> max_slot_of s' b = max_slot_of s b"
    if "(sl, r) \<in> set (forks_at s b k)" "sl > ?low" for b k sl r
  proof -
    from ok(3) that(1) obtain m where "max_slot_of s b = Some m" "sl \<le> m" unfolding log_ok_def by blast
    with that(2) show ?thesis using cache(1) [of b k] cache(2,3) [of b] by auto
  qed
  have sub: "forks_at s' b k = forks_at s b k \<and> index_of s' b = index_of s b \<and> max_slot_of s' b = max_slot_of s b"
    if "(sl, r) \<in> set (forks_at s' b k)" for b k sl r
    using that cache(1) [of b k] cache(2,3) [of b] by (auto split: option.splits if_splits)
  have "deltas_ok s'"
    unfolding deltas_ok_def
  proof (intro conjI allI impI)
    fix sl b i ks assume "delta_at s' sl b = Some (i, ks)"
    then have d: "delta_at s sl b = Some (i, ks)" "sl > ?low" by (auto simp: purge(4) split: if_splits)
    with ok(2) show ks: "ks \<noteq> []" "distinct (map fst ks)" by (auto simp: deltas_ok_def)
    from ks(1) obtain k r where "(k, r) \<in> set ks" by (cases ks) auto
    with d(1) have "(k, r) \<in> set (keys_at s sl b)" by (simp add: keys_at_def)
    with ok(2) have "(sl, r) \<in> set (forks_at s b k)" by (auto simp: deltas_ok_def)
    from kept [OF this d(2)] d(1) ok(2) show "index_of s' b = Some i" by (auto simp: deltas_ok_def)
  next
    fix sl b k r assume "(k, r) \<in> set (keys_at s' sl b)"
    then have k: "(k, r) \<in> set (keys_at s sl b)" "sl > ?low" by (auto simp: keys split: if_splits)
    with ok(2) have "(sl, r) \<in> set (forks_at s b k)" by (auto simp: deltas_ok_def)
    with kept [OF this k(2)] show "(sl, r) \<in> set (forks_at s' b k)" by simp
  qed
  moreover have "log_ok s' log (purged \<union> {?low})"
    unfolding log_ok_def
  proof (intro conjI allI impI)
    fix b k sl r assume f: "(sl, r) \<in> set (forks_at s' b k)"
    note same = sub [OF f]
    with f have f': "(sl, r) \<in> set (forks_at s b k)" by simp
    show "\<exists>m. max_slot_of s' b = Some m \<and> sl \<le> m" using ok(3) f' same unfolding log_ok_def by auto
    show "(k, r) \<in> set (keys_at s' sl b)" if "\<forall>p \<in> purged \<union> {?low}. p < sl"
      using ok(3) f' that unfolding log_ok_def keys by auto
    show "\<exists>key i. (b, key, sl, r) \<in> log \<and> index_of s' b = Some i \<and> k = slice key i"
      using ok(3) f' same unfolding log_ok_def by metis
  next
    fix b key sl r assume l: "(b, key, sl, r) \<in> log" "\<forall>p \<in> purged \<union> {?low}. p < sl"
    with ok(3) obtain i where "index_of s b = Some i" "(sl, r) \<in> set (forks_at s b (slice key i))"
      unfolding log_ok_def by blast
    with kept [OF this(2)] l(2) show "\<exists>i. index_of s' b = Some i \<and> (sl, r) \<in> set (forks_at s' b (slice key i))"
      by auto
  next
    fix b i assume "index_of s' b = Some i"
    then have "index_of s b = Some i" using cache(2) [of b] by (auto split: option.splits if_splits)
    with ok(3) show "i \<le> 11" unfolding log_ok_def by blast
  qed
  moreover have "\<forall>p \<in> purged \<union> {?low}. \<forall>t \<in> roots s'. p < t"
    using inv Min_le [OF ok(4)] unfolding purge(2) cache_inv_def by fastforce
  ultimately show ?thesis using purge(1,2) ok(4) unfolding dropped cache_inv_def by simp
qed

lemma clear_keeps_inv:
  assumes inv: "cache_inv s log purged" and above: "\<forall>p \<in> purged. p < slot"
  shows "\<exists>s'. clear_slot_entries s slot = Some s' \<and> roots s' = roots s \<and>
    (\<forall>b k. forks_at s' b k = filter (\<lambda>(f, _). f \<noteq> slot) (forks_at s b k)) \<and>
    (\<forall>b. index_of s' b = index_of s b \<or> index_of s' b = None \<and> (\<forall>k. forks_at s' b k = [])) \<and>
    cache_inv s' {e \<in> log. fst (snd (snd e)) \<noteq> slot} purged"
proof -
  have ok: "structure_ok s" "deltas_ok s" "log_ok s log purged" using inv by (simp_all add: cache_inv_def)
  from clear_slot_eq [OF ok(1,2), of slot] obtain s' where s': "clear_slot_entries s slot = Some s'"
    "structure_ok s'" "roots s' = roots s"
    "\<forall>b k. forks_at s' b k = (if k \<in> fst ` set (keys_at s slot b)
       then filter (\<lambda>(f, _). f \<noteq> slot) (forks_at s b k) else forks_at s b k)"
    "\<forall>b. index_of s' b = index_of s b \<and> max_slot_of s' b = max_slot_of s b \<or>
       index_of s' b = None \<and> (\<forall>k. forks_at s' b k = [])"
    "\<forall>sl b. delta_at s' sl b = (if sl = slot then None else delta_at s sl b)" by (elim exE conjE)
  have forks: "forks_at s' b k = filter (\<lambda>(f, _). f \<noteq> slot) (forks_at s b k)" for b k
  proof (cases "k \<in> fst ` set (keys_at s slot b)")
    case False
    have "f \<noteq> slot" if "(f, r) \<in> set (forks_at s b k)" for f r
    proof
      assume "f = slot"
      with that ok(3) above have "(k, r) \<in> set (keys_at s slot b)" unfolding log_ok_def by blast
      from imageI [OF this, of fst] False show False by simp
    qed
    then have "filter (\<lambda>(f, _). f \<noteq> slot) (forks_at s b k) = forks_at s b k" by (auto intro: filter_True)
    with False s'(4) show ?thesis by simp
  qed (use s'(4) in simp)
  have in_forks: "(sl, r) \<in> set (forks_at s' b k) \<longleftrightarrow> (sl, r) \<in> set (forks_at s b k) \<and> sl \<noteq> slot" for sl r b k
    unfolding forks by auto
  have same: "index_of s' b = index_of s b \<and> max_slot_of s' b = max_slot_of s b" if "forks_at s' b k \<noteq> []" for b k
    using s'(5) that by blast
  have keys: "keys_at s' sl b = (if sl = slot then [] else keys_at s sl b)" for sl b
    using s'(6) by (simp add: keys_at_def)
  have kept: "forks_at s' b k \<noteq> []" if "(sl, r) \<in> set (forks_at s b k)" "sl \<noteq> slot" for b k sl r
    using that in_forks [of sl r b k] by auto
  have "deltas_ok s'"
    unfolding deltas_ok_def
  proof (intro conjI allI impI)
    fix sl b i ks assume "delta_at s' sl b = Some (i, ks)"
    then have d: "delta_at s sl b = Some (i, ks)" "sl \<noteq> slot" using s'(6) by (auto split: if_splits)
    with ok(2) show ks: "ks \<noteq> []" "distinct (map fst ks)" by (auto simp: deltas_ok_def)
    from ks(1) obtain k r where "(k, r) \<in> set ks" by (cases ks) auto
    with d(1) have "(k, r) \<in> set (keys_at s sl b)" by (simp add: keys_at_def)
    with ok(2) have "(sl, r) \<in> set (forks_at s b k)" by (auto simp: deltas_ok_def)
    from same [OF kept [OF this d(2)]] d(1) ok(2) show "index_of s' b = Some i" by (auto simp: deltas_ok_def)
  next
    fix sl b k r assume "(k, r) \<in> set (keys_at s' sl b)"
    then show "(sl, r) \<in> set (forks_at s' b k)"
      using ok(2) in_forks by (auto simp: keys deltas_ok_def split: if_splits)
  qed
  moreover have "log_ok s' {e \<in> log. fst (snd (snd e)) \<noteq> slot} purged"
    unfolding log_ok_def
  proof (intro conjI allI impI)
    fix b k sl r assume f: "(sl, r) \<in> set (forks_at s' b k)"
    then have "forks_at s' b k \<noteq> []" by auto
    note idx = same [OF this]
    from f have f': "(sl, r) \<in> set (forks_at s b k)" "sl \<noteq> slot" by (simp_all add: in_forks)
    show "\<exists>m. max_slot_of s' b = Some m \<and> sl \<le> m" using ok(3) f' idx unfolding log_ok_def by auto
    show "(k, r) \<in> set (keys_at s' sl b)" if "\<forall>p \<in> purged. p < sl"
      using ok(3) f' that unfolding log_ok_def keys by auto
    from ok(3) f'(1) obtain key i where "(b, key, sl, r) \<in> log" "index_of s b = Some i" "k = slice key i"
      unfolding log_ok_def by blast
    with f'(2) idx show "\<exists>key i. (b, key, sl, r) \<in> {e \<in> log. fst (snd (snd e)) \<noteq> slot} \<and>
        index_of s' b = Some i \<and> k = slice key i" by auto
  next
    fix b key sl r assume l: "(b, key, sl, r) \<in> {e \<in> log. fst (snd (snd e)) \<noteq> slot}" "\<forall>p \<in> purged. p < sl"
    from l(1) have "(b, key, sl, r) \<in> log" by simp
    with ok(3) l(2) obtain i where i: "index_of s b = Some i" "(sl, r) \<in> set (forks_at s b (slice key i))"
      unfolding log_ok_def by blast
    from l(1) have "sl \<noteq> slot" by simp
    with i same [OF kept [OF i(2)]] show "\<exists>i. index_of s' b = Some i \<and> (sl, r) \<in> set (forks_at s' b (slice key i))"
      by (auto simp: in_forks)
  next
    fix b i assume i: "index_of s' b = Some i"
    with s'(5) have "index_of s b = Some i" by (metis option.distinct(1))
    with ok(3) show "i \<le> 11" unfolding log_ok_def by blast
  qed
  ultimately show ?thesis using s' forks same inv unfolding cache_inv_def by auto
qed

section \<open>Runs of a cache\<close>

text \<open>
  A bank inserts a transaction at most once per slot, under its message hash first; roots are added
  and slots cleared above the roots already purged.
\<close>

inductive cache_run :: "nat \<Rightarrow> 't StatusCache \<Rightarrow> 't status_log \<Rightarrow> Slot set \<Rightarrow> bool" for max_entries where
  start: "cache_run max_entries StatusCache_default {} {}"
| insert: "cache_run max_entries s log purged \<Longrightarrow> 32 \<le> length key \<Longrightarrow> random_index \<le> 11 \<Longrightarrow>
    slot \<notin> fst ` set (forks_at s b (slice key (cached_index s b random_index))) \<Longrightarrow>
    insert_status s b key slot res random_index = Some s' \<Longrightarrow>
    cache_run max_entries s' (insert (b, key, slot, res) log) purged"
| root: "cache_run max_entries s log purged \<Longrightarrow> \<forall>p \<in> purged. p < slot \<Longrightarrow> s' = add_root max_entries s slot \<Longrightarrow>
    cache_run max_entries s' log (purged \<union> (insert slot (roots s) - roots s'))"
| clear: "cache_run max_entries s log purged \<Longrightarrow> \<forall>p \<in> purged. p < slot \<Longrightarrow> clear_slot_entries s slot = Some s' \<Longrightarrow>
    cache_run max_entries s' {e \<in> log. fst (snd (snd e)) \<noteq> slot} purged"

lemma cache_run_inv: "cache_run max_entries s log purged \<Longrightarrow> cache_inv s log purged"
proof (induction rule: cache_run.induct)
  case start
  show ?case
    by (simp add: cache_inv_def structure_ok_def deltas_ok_def log_ok_def StatusCache_default_def
        forks_at_def index_of_def keys_at_def delta_at_def)
next
  case (insert s log purged key random_index slot b res s')
  then show ?case by (blast intro: insert_keeps_inv)
next
  case (root s log purged slot s')
  let ?s = "s \<lparr>roots := insert slot (roots s)\<rparr>"
  from purge_keeps_inv [OF roots_insert_inv [OF root.IH root.hyps(2)] refl, of max_entries]
  show ?case using root.hyps(3) by (simp add: add_root_def)
next
  case (clear s log purged slot s')
  from clear_keeps_inv [OF clear.IH clear.hyps(2)] clear.hyps(3) show ?case by auto
qed

lemma index_bound: "cache_inv s log purged \<Longrightarrow> index_of s b = Some i \<Longrightarrow> i \<le> 11"
  by (simp add: cache_inv_def log_ok_def)

lemma get_status_view:
  assumes "\<And>i. index_of s b = Some i \<Longrightarrow> i \<le> 11" and "32 \<le> length key"
  shows "get_status s key b ancestors = Some (case index_of s b of
     None \<Rightarrow> None | Some i \<Rightarrow> find (\<lambda>(f, _). f \<in> ancestors \<or> f \<in> roots s) (forks_at s b (slice key i)))"
proof (cases "map_of (cache s) b")
  case (Some e)
  obtain m i keymap where e: "e = (m, i, keymap)" using prod_cases3 by blast
  have "index_of s b = Some i" using Some e by (simp add: index_of_def)
  with assms(1) show ?thesis
    using Some e slice_at_min [OF assms(2), of i] by (simp add: get_status_def forks_at_def split: option.split)
qed (simp add: get_status_def index_of_def)

lemma get_status_inv:
  assumes "cache_inv s log purged" and "32 \<le> length key"
  shows "get_status s key b ancestors = Some (case index_of s b of
     None \<Rightarrow> None | Some i \<Rightarrow> find (\<lambda>(f, _). f \<in> ancestors \<or> f \<in> roots s) (forks_at s b (slice key i)))"
  by (rule get_status_view [OF index_bound [OF assms(1)] assms(2)])

lemma find_filter_conj: "find P (filter Q xs) = find (\<lambda>x. P x \<and> Q x) xs"
  by (induction xs) auto

lemma forks_index: "forks_at s b k \<noteq> [] \<Longrightarrow> \<exists>i. index_of s b = Some i"
  by (cases "map_of (cache s) b") (auto simp: forks_at_def index_of_def)



section \<open>Snapshots of the rooted slots\<close>

text \<open>
  What appending adds to the forks, the offsets and the roots. \<open>idx\<close> is the cache the deltas were
  taken from: its offsets are those of the deltas.
\<close>

definition follows :: "'t StatusCache \<Rightarrow> (Hash \<Rightarrow> nat option) \<Rightarrow> bool" where
  "follows s idx \<longleftrightarrow> (\<forall>b i. index_of s b = Some i \<longrightarrow> idx b = Some i)"

lemma put_entries:
  assumes "follows s idx" and "idx b = Some i"
  shows "follows (fold (\<lambda>(k, res) s. insert_with_slice s b slot i k res) entries s) idx \<and>
    roots (fold (\<lambda>(k, res) s. insert_with_slice s b slot i k res) entries s) = roots s \<and>
    (\<forall>b' k sl r. (sl, r) \<in> set (forks_at (fold (\<lambda>(k, res) s. insert_with_slice s b slot i k res) entries s) b' k) \<longleftrightarrow>
       (sl, r) \<in> set (forks_at s b' k) \<or> sl = slot \<and> b' = b \<and> (k, r) \<in> set entries)"
  using assms(1)
proof (induction entries arbitrary: s)
  case (Cons e entries)
  obtain k r where e: "e = (k, r)" by fastforce
  have "follows (insert_with_slice s b slot i k r) idx"
    using Cons.prems assms(2) unfolding follows_def insert_with_slice_put put_simps cached_index_def
    by (auto split: option.splits)
  from Cons.IH [OF this] show ?case unfolding e by (auto simp: insert_with_slice_put put_simps)
qed simp

lemma insert_statuses_views:
  assumes "follows s idx" and "\<forall>(b, i, _) \<in> set statuses. idx b = Some i"
  shows "follows (insert_statuses s slot statuses) idx \<and> roots (insert_statuses s slot statuses) = roots s \<and>
    (\<forall>b k sl r. (sl, r) \<in> set (forks_at (insert_statuses s slot statuses) b k) \<longleftrightarrow>
       (sl, r) \<in> set (forks_at s b k) \<or> sl = slot \<and> (\<exists>i entries. (b, i, entries) \<in> set statuses \<and> (k, r) \<in> set entries))"
  using assms
proof (induction statuses arbitrary: s)
  case (Cons e statuses)
  obtain b i entries where e: "e = (b, i, entries)" using prod_cases3 by blast
  let ?s = "fold (\<lambda>(k, res) s. insert_with_slice s b slot i k res) entries s"
  have "idx b = Some i" using Cons.prems(2) e by simp
  note first = put_entries [OF Cons.prems(1) this, of slot entries]
  then have "follows ?s idx" by blast
  moreover have "\<forall>(b, i, _) \<in> set statuses. idx b = Some i" using Cons.prems(2) by simp
  ultimately have "follows (insert_statuses ?s slot statuses) idx \<and> roots (insert_statuses ?s slot statuses) = roots ?s \<and>
    (\<forall>b k sl r. (sl, r) \<in> set (forks_at (insert_statuses ?s slot statuses) b k) \<longleftrightarrow>
       (sl, r) \<in> set (forks_at ?s b k) \<or> sl = slot \<and> (\<exists>i entries. (b, i, entries) \<in> set statuses \<and> (k, r) \<in> set entries))"
    by (rule Cons.IH)
  moreover have "insert_statuses s slot (e # statuses) = insert_statuses ?s slot statuses"
    by (simp add: insert_statuses_def e)
  ultimately show ?case using first unfolding e by auto
qed (simp add: insert_statuses_def)

lemma append_deltas_views:
  assumes "follows s idx" and "\<forall>(_, _, statuses) \<in> set deltas. \<forall>(b, i, _) \<in> set statuses. idx b = Some i"
    and "\<forall>(_, is_root, _) \<in> set deltas. is_root" and "finite (roots s)" and "card (roots s \<union> fst ` set deltas) \<le> max_entries"
  shows "follows (append_deltas max_entries s deltas) idx \<and>
    roots (append_deltas max_entries s deltas) = roots s \<union> fst ` set deltas \<and>
    (\<forall>b k sl r. (sl, r) \<in> set (forks_at (append_deltas max_entries s deltas) b k) \<longleftrightarrow>
       (sl, r) \<in> set (forks_at s b k) \<or>
       (\<exists>statuses i entries. (sl, True, statuses) \<in> set deltas \<and> (b, i, entries) \<in> set statuses \<and> (k, r) \<in> set entries))"
  using assms
proof (induction deltas arbitrary: s)
  case (Cons e deltas)
  obtain slot statuses where e: "e = (slot, True, statuses)" using Cons.prems(3) by (cases e) auto
  let ?s = "insert_statuses s slot statuses"
  let ?t = "?s \<lparr>roots := insert slot (roots ?s)\<rparr>"
  have "\<forall>(b, i, _) \<in> set statuses. idx b = Some i" using Cons.prems(2) unfolding e by simp
  note first = insert_statuses_views [OF Cons.prems(1) this, of slot]
  then have roots: "roots ?s = roots s" by blast
  have "card (insert slot (roots s)) \<le> card (roots s \<union> fst ` set (e # deltas))"
    using Cons.prems(4) by (intro card_mono) (auto simp: e)
  then have t: "add_root max_entries ?s slot = ?t"
    using Cons.prems(5) by (simp add: add_root_def purge_roots_def roots)
  have union: "roots ?t \<union> fst ` set deltas = roots s \<union> fst ` set (e # deltas)" by (auto simp: e roots)
  have "follows ?t idx" using first by (simp add: follows_def)
  from Cons.IH [OF this] Cons.prems(2,3,4,5) have rest: "follows (append_deltas max_entries ?t deltas) idx \<and>
    roots (append_deltas max_entries ?t deltas) = roots ?t \<union> fst ` set deltas \<and>
    (\<forall>b k sl r. (sl, r) \<in> set (forks_at (append_deltas max_entries ?t deltas) b k) \<longleftrightarrow>
       (sl, r) \<in> set (forks_at ?t b k) \<or>
       (\<exists>statuses i entries. (sl, True, statuses) \<in> set deltas \<and> (b, i, entries) \<in> set statuses \<and> (k, r) \<in> set entries))"
    unfolding union by (simp add: roots)
  have same: "append_deltas max_entries s (e # deltas) = append_deltas max_entries ?t deltas" by (simp add: e t Let_def)
  have "(sl, r) \<in> set (forks_at (append_deltas max_entries s (e # deltas)) b k) \<longleftrightarrow> (sl, r) \<in> set (forks_at s b k) \<or>
       (\<exists>sts i entries. (sl, True, sts) \<in> set (e # deltas) \<and> (b, i, entries) \<in> set sts \<and> (k, r) \<in> set entries)" for sl r b k
  proof -
    have "(sl, r) \<in> set (forks_at ?t b k) \<longleftrightarrow> (sl, r) \<in> set (forks_at s b k) \<or>
        sl = slot \<and> (\<exists>i entries. (b, i, entries) \<in> set statuses \<and> (k, r) \<in> set entries)" using first by simp
    moreover have "(sl, r) \<in> set (forks_at (append_deltas max_entries ?t deltas) b k) \<longleftrightarrow> (sl, r) \<in> set (forks_at ?t b k) \<or>
       (\<exists>sts i entries. (sl, True, sts) \<in> set deltas \<and> (b, i, entries) \<in> set sts \<and> (k, r) \<in> set entries)"
      using rest by simp
    ultimately show ?thesis unfolding same unfolding e by (auto; blast)
  qed
  moreover have "follows (append_deltas max_entries ?t deltas) idx" using rest by (rule conjunct1)
  moreover have "roots (append_deltas max_entries ?t deltas) = roots s \<union> fst ` set (e # deltas)"
    using rest unfolding union by (elim conjE)
  ultimately show ?case unfolding same by (intro conjI allI)
qed simp

lemma rooted_delta:
  assumes inv: "cache_inv s log purged" and root: "sl \<in> roots s"
  shows "(sl, r) \<in> set (forks_at s b k) \<longleftrightarrow>
    (\<exists>i entries. (b, i, entries) \<in> set (case map_of (slot_deltas s) sl of None \<Rightarrow> [] | Some e \<Rightarrow> e) \<and> (k, r) \<in> set entries)"
proof -
  have ok: "structure_ok s" "deltas_ok s" "log_ok s log purged" using inv by (simp_all add: cache_inv_def)
  have "\<forall>p \<in> purged. p < sl" using inv root by (simp add: cache_inv_def)
  with ok(2,3) have "(sl, r) \<in> set (forks_at s b k) \<longleftrightarrow> (k, r) \<in> set (keys_at s sl b)"
    unfolding log_ok_def deltas_ok_def by blast
  also have "\<dots> \<longleftrightarrow> (\<exists>i entries. delta_at s sl b = Some (i, entries) \<and> (k, r) \<in> set entries)"
    by (cases "delta_at s sl b") (auto simp: keys_at_def)
  also have "\<dots> \<longleftrightarrow> (\<exists>i entries. (b, i, entries) \<in> set (case map_of (slot_deltas s) sl of None \<Rightarrow> [] | Some e \<Rightarrow> e) \<and> (k, r) \<in> set entries)"
    using ok(1) by (cases "map_of (slot_deltas s) sl") (simp_all add: delta_at_def structure_ok_def)
  finally show ?thesis .
qed

lemma loaded_views:
  assumes run: "cache_run max_entries s log purged" and order: "set order = roots s"
    and fits: "card (insert 0 (roots s)) \<le> max_entries"
    and s': "s' = append_deltas max_entries StatusCache_default (root_slot_deltas order s)"
  shows "follows s' (index_of s)" and "roots s' = insert 0 (roots s)"
    and "\<And>b k sl r. (sl, r) \<in> set (forks_at s' b k) \<longleftrightarrow> (sl, r) \<in> set (forks_at s b k) \<and> sl \<in> roots s"
proof -
  note inv = cache_run_inv [OF run]
  have ok: "structure_ok s" "deltas_ok s" "finite (roots s)" using inv by (simp_all add: cache_inv_def)
  let ?deltas = "root_slot_deltas order s"
  have idx: "index_of s b = Some i" if "map_of (slot_deltas s) sl = Some statuses" "(b, i, ks) \<in> set statuses" for sl statuses b i ks
  proof -
    have "delta_at s sl b = Some (i, ks)" using that ok(1) by (auto simp: delta_at_def structure_ok_def)
    with ok(2) show ?thesis by (auto simp: deltas_ok_def)
  qed
  have start: "roots (StatusCache_default :: 'a StatusCache) = {0}"
    "forks_at (StatusCache_default :: 'a StatusCache) b k = []" "follows (StatusCache_default :: 'a StatusCache) (index_of s)" for b k
    by (simp_all add: StatusCache_default_def forks_at_def follows_def index_of_def)
  have slots: "fst ` set ?deltas = roots s" using order by (force simp: root_slot_deltas_def)
  have "\<forall>(_, _, statuses) \<in> set ?deltas. \<forall>(b, i, _) \<in> set statuses. index_of s b = Some i"
    by (auto simp: root_slot_deltas_def intro: idx [OF sym])
  moreover have "\<forall>(_, is_root, _) \<in> set ?deltas. is_root" by (auto simp: root_slot_deltas_def)
  ultimately have views: "follows s' (index_of s)" "roots s' = {0} \<union> roots s"
    "\<And>b k sl r. (sl, r) \<in> set (forks_at s' b k) \<longleftrightarrow>
       (\<exists>statuses i entries. (sl, True, statuses) \<in> set ?deltas \<and> (b, i, entries) \<in> set statuses \<and> (k, r) \<in> set entries)"
    using append_deltas_views [OF start(3), of ?deltas max_entries] fits unfolding s' start slots by simp_all
  show "follows s' (index_of s)" "roots s' = insert 0 (roots s)" using views(1,2) by simp_all
  show "(sl, r) \<in> set (forks_at s' b k) \<longleftrightarrow> (sl, r) \<in> set (forks_at s b k) \<and> sl \<in> roots s" for b k sl r
  proof -
    have "(sl, True, sts) \<in> set ?deltas \<longleftrightarrow>
        sl \<in> roots s \<and> sts = (case map_of (slot_deltas s) sl of None \<Rightarrow> [] | Some e \<Rightarrow> e)" for sts
      unfolding order [symmetric] root_slot_deltas_def by auto
    then show ?thesis
      unfolding views(3) using rooted_delta [OF inv, of sl r b k] by (cases "sl \<in> roots s") simp_all
  qed
qed


section \<open>A run\<close>

definition example_cache :: "nat StatusCache" where
  "example_cache = \<lparr>cache = [(7, 5, 2, [(replicate 20 1, [(5, 9)])])], roots = {5, 0},
     slot_deltas = [(5, [(7, 2, [(replicate 20 1, 9)])])]\<rparr>"

lemma example_run: "cache_run 3 example_cache {(7, replicate 32 1, 5, 9)} {}"
proof -
  let ?s = "example_cache \<lparr>roots := {0}\<rparr>"
  have "cache_run 3 ?s (insert (7, replicate 32 1, 5, 9) {}) {}"
    by (rule cache_run.insert [where random_index = 2, OF cache_run.start])
      (simp_all add: StatusCache_default_def example_cache_def insert_status_def max_key_index_def slice_at_def
        CACHED_KEY_SIZE_def add_to_slot_delta_def add_fork_def forks_at_def)
  from cache_run.root [OF this, of 5 example_cache] show ?thesis
    by (simp add: example_cache_def add_root_def purge_roots_def)
qed




end
