(* ===== verification/ThreadAwareLocks.thy ===== *)
theory ThreadAwareLocks
  imports LockTable
begin

text \<open>
  The thread-aware account locks of the transaction schedulers,
  \<^verbatim>\<open>scheduling-utils/src/thread_aware_account_locks.rs\<close>: sets of threads as bits of a
  word, and the table of the read and write locks that each worker thread holds. A failed assertion and
  an index out of range are \<^term>\<open>None\<close>; the thread selector is an argument. The lemmas relate the
  table to the batches queued on the threads.
\<close>

unbundle bit_operations_syntax

section \<open>Thread sets\<close>

definition MAX_THREADS :: nat where "MAX_THREADS = 64"

type_synonym ThreadId = nat
type_synonym LockCount = u32
type_synonym ThreadSet = u64

text \<open>The shift of the release profile takes the amount modulo the width.\<close>

definition as_flag :: "ThreadId \<Rightarrow> u64" where
  "as_flag thread_id = push_bit (thread_id mod 64) 1"

definition ts_none :: ThreadSet where "ts_none = 0"

definition ts_any :: "nat \<Rightarrow> ThreadSet" where
  "ts_any num = (if num = MAX_THREADS then - 1 else as_flag num - 1)"

definition ts_only :: "ThreadId \<Rightarrow> ThreadSet" where
  "ts_only thread_id = as_flag thread_id"

definition trailing_zeros :: "u64 \<Rightarrow> nat" where
  "trailing_zeros s = (case find (bit s) [0..<64] of None \<Rightarrow> 64 | Some i \<Rightarrow> i)"

definition ts_num_threads :: "ThreadSet \<Rightarrow> nat" where
  "ts_num_threads s = length (filter (bit s) [0..<64])"

definition only_one_contained :: "ThreadSet \<Rightarrow> ThreadId option" where
  "only_one_contained s = (if ts_num_threads s = 1 then Some (trailing_zeros s) else None)"

definition ts_is_empty :: "ThreadSet \<Rightarrow> bool" where
  "ts_is_empty s \<longleftrightarrow> s = ts_none"

definition ts_contains :: "ThreadSet \<Rightarrow> ThreadId \<Rightarrow> bool" where
  "ts_contains s thread_id \<longleftrightarrow> s AND as_flag thread_id \<noteq> 0"

definition ts_insert :: "ThreadSet \<Rightarrow> ThreadId \<Rightarrow> ThreadSet" where
  "ts_insert s thread_id = s OR as_flag thread_id"

definition ts_remove :: "ThreadSet \<Rightarrow> ThreadId \<Rightarrow> ThreadSet" where
  "ts_remove s thread_id = s AND NOT (as_flag thread_id)"

definition ts_sub :: "ThreadSet \<Rightarrow> ThreadSet \<Rightarrow> ThreadSet" where
  "ts_sub s rhs = s AND NOT rhs"

section \<open>Account locks\<close>

record AccountWriteLocks =
  thread_id :: ThreadId
  lock_count :: LockCount

record AccountReadLocks =
  thread_set :: ThreadSet
  lock_counts :: "LockCount list"

record ThreadLocks =
  write_locks :: "AccountWriteLocks option"
  read_locks :: "AccountReadLocks option"

datatype TryLockError = MultipleConflicts | ThreadNotAllowed

record ThreadAwareAccountLocks =
  num_threads :: nat
  locks :: "Pubkey \<rightharpoonup> ThreadLocks"

definition ThreadAwareAccountLocks_new :: "nat \<Rightarrow> ThreadAwareAccountLocks option" where
  "ThreadAwareAccountLocks_new num =
     (if 0 < num \<and> num \<le> MAX_THREADS then Some \<lparr>num_threads = num, locks = Map.empty\<rparr> else None)"

definition schedulable_threads :: "bool \<Rightarrow> ThreadAwareAccountLocks \<Rightarrow> Pubkey \<Rightarrow> ThreadSet option" where
  "schedulable_threads write l account =
     (case locks l account of
        None \<Rightarrow> Some (ts_any (num_threads l))
      | Some entry \<Rightarrow>
          (case (write_locks entry, read_locks entry) of
             (None, Some reads) \<Rightarrow>
               if write
               then Some (case only_one_contained (thread_set reads) of Some t \<Rightarrow> ts_only t | None \<Rightarrow> ts_none)
               else Some (ts_any (num_threads l))
           | (Some writes, None) \<Rightarrow> Some (ts_only (thread_id writes))
           | (Some writes, Some reads) \<Rightarrow>
               if only_one_contained (thread_set reads) = Some (thread_id writes) then Some (thread_set reads) else None
           | (None, None) \<Rightarrow> None))"

text \<open>A loop over accounts; the result is the empty value once no thread is left.\<close>

fun restrict_schedulable ::
    "bool \<Rightarrow> ThreadAwareAccountLocks \<Rightarrow> ThreadSet \<Rightarrow> Pubkey list \<Rightarrow> ThreadSet option option" where
  "restrict_schedulable write l schedulable [] = Some (Some schedulable)"
| "restrict_schedulable write l schedulable (account # accounts) = do {
     threads \<leftarrow> schedulable_threads write l account;
     if ts_is_empty (schedulable AND threads) then Some None
     else restrict_schedulable write l (schedulable AND threads) accounts }"

definition accounts_schedulable_threads ::
    "ThreadAwareAccountLocks \<Rightarrow> Pubkey list \<Rightarrow> Pubkey list \<Rightarrow> ThreadSet option option" where
  "accounts_schedulable_threads l write_account_locks read_account_locks = do {
     restricted \<leftarrow> restrict_schedulable True l (ts_any (num_threads l)) write_account_locks;
     (case restricted of
        None \<Rightarrow> Some None
      | Some schedulable \<Rightarrow> restrict_schedulable False l schedulable read_account_locks) }"

definition entry_or_default :: "ThreadAwareAccountLocks \<Rightarrow> Pubkey \<Rightarrow> ThreadLocks" where
  "entry_or_default l account =
     (case locks l account of None \<Rightarrow> \<lparr>write_locks = None, read_locks = None\<rparr> | Some entry \<Rightarrow> entry)"

definition write_lock_account ::
    "ThreadAwareAccountLocks \<Rightarrow> Pubkey \<Rightarrow> ThreadId \<Rightarrow> ThreadAwareAccountLocks option" where
  "write_lock_account l account thread =
     (let entry = entry_or_default l account in
      if (case read_locks entry of None \<Rightarrow> True | Some reads \<Rightarrow> only_one_contained (thread_set reads) = Some thread)
      then (case write_locks entry of
              Some writes \<Rightarrow>
                if thread_id writes = thread
                then Some (l\<lparr>locks := (locks l)(account \<mapsto>
                       entry\<lparr>write_locks := Some (writes\<lparr>lock_count := lock_count writes + 1\<rparr>)\<rparr>)\<rparr>)
                else None
            | None \<Rightarrow>
                Some (l\<lparr>locks := (locks l)(account \<mapsto>
                  entry\<lparr>write_locks := Some \<lparr>thread_id = thread, lock_count = 1\<rparr>\<rparr>)\<rparr>))
      else None)"

definition write_unlock_account ::
    "ThreadAwareAccountLocks \<Rightarrow> Pubkey \<Rightarrow> ThreadId \<Rightarrow> ThreadAwareAccountLocks option" where
  "write_unlock_account l account thread = do {
     entry \<leftarrow> locks l account;
     writes \<leftarrow> write_locks entry;
     if thread_id writes = thread
     then (let count = lock_count writes - 1 in
           if count = 0
           then if read_locks entry = None
                then Some (l\<lparr>locks := (locks l)(account := None)\<rparr>)
                else Some (l\<lparr>locks := (locks l)(account \<mapsto> entry\<lparr>write_locks := None\<rparr>)\<rparr>)
           else Some (l\<lparr>locks := (locks l)(account \<mapsto> entry\<lparr>write_locks := Some (writes\<lparr>lock_count := count\<rparr>)\<rparr>)\<rparr>))
     else None }"

definition read_lock_account ::
    "ThreadAwareAccountLocks \<Rightarrow> Pubkey \<Rightarrow> ThreadId \<Rightarrow> ThreadAwareAccountLocks option" where
  "read_lock_account l account thread =
     (let entry = entry_or_default l account in
      if (case write_locks entry of None \<Rightarrow> True | Some writes \<Rightarrow> thread_id writes = thread) \<and> thread < MAX_THREADS
      then (case read_locks entry of
              Some reads \<Rightarrow>
                Some (l\<lparr>locks := (locks l)(account \<mapsto> entry\<lparr>read_locks := Some
                  \<lparr>thread_set = ts_insert (thread_set reads) thread,
                   lock_counts = (lock_counts reads)[thread := lock_counts reads ! thread + 1]\<rparr>\<rparr>)\<rparr>)
            | None \<Rightarrow>
                Some (l\<lparr>locks := (locks l)(account \<mapsto> entry\<lparr>read_locks := Some
                  \<lparr>thread_set = ts_only thread, lock_counts = (replicate MAX_THREADS 0)[thread := 1]\<rparr>\<rparr>)\<rparr>))
      else None)"

definition read_unlock_account ::
    "ThreadAwareAccountLocks \<Rightarrow> Pubkey \<Rightarrow> ThreadId \<Rightarrow> ThreadAwareAccountLocks option" where
  "read_unlock_account l account thread = do {
     entry \<leftarrow> locks l account;
     reads \<leftarrow> read_locks entry;
     if ts_contains (thread_set reads) thread \<and> thread < MAX_THREADS
     then (let count = lock_counts reads ! thread - 1;
               counts = (lock_counts reads)[thread := count] in
           if count = 0
           then (let threads = ts_remove (thread_set reads) thread in
                 if ts_is_empty threads
                 then if write_locks entry = None
                      then Some (l\<lparr>locks := (locks l)(account := None)\<rparr>)
                      else Some (l\<lparr>locks := (locks l)(account \<mapsto> entry\<lparr>read_locks := None\<rparr>)\<rparr>)
                 else Some (l\<lparr>locks := (locks l)(account \<mapsto>
                        entry\<lparr>read_locks := Some \<lparr>thread_set = threads, lock_counts = counts\<rparr>\<rparr>)\<rparr>))
           else Some (l\<lparr>locks := (locks l)(account \<mapsto>
                  entry\<lparr>read_locks := Some (reads\<lparr>lock_counts := counts\<rparr>)\<rparr>)\<rparr>))
     else None }"

text \<open>The loops of locking and unlocking, for one kind of lock.\<close>

fun each_account ::
    "(ThreadAwareAccountLocks \<Rightarrow> Pubkey \<Rightarrow> ThreadId \<Rightarrow> ThreadAwareAccountLocks option) \<Rightarrow>
     ThreadAwareAccountLocks \<Rightarrow> Pubkey list \<Rightarrow> ThreadId \<Rightarrow> ThreadAwareAccountLocks option" where
  "each_account f l [] thread = Some l"
| "each_account f l (account # accounts) thread = do { l \<leftarrow> f l account thread; each_account f l accounts thread }"

definition thread_lock_accounts ::
    "ThreadAwareAccountLocks \<Rightarrow> Pubkey list \<Rightarrow> Pubkey list \<Rightarrow> ThreadId \<Rightarrow> ThreadAwareAccountLocks option" where
  "thread_lock_accounts l write_account_locks read_account_locks thread =
     (if thread < num_threads l
      then do {
        l \<leftarrow> each_account write_lock_account l write_account_locks thread;
        each_account read_lock_account l read_account_locks thread }
      else None)"

definition thread_unlock_accounts ::
    "ThreadAwareAccountLocks \<Rightarrow> Pubkey list \<Rightarrow> Pubkey list \<Rightarrow> ThreadId \<Rightarrow> ThreadAwareAccountLocks option" where
  "thread_unlock_accounts l write_account_locks read_account_locks thread = do {
     l \<leftarrow> each_account write_unlock_account l write_account_locks thread;
     each_account read_unlock_account l read_account_locks thread }"

definition thread_try_lock_accounts ::
    "ThreadAwareAccountLocks \<Rightarrow> Pubkey list \<Rightarrow> Pubkey list \<Rightarrow> ThreadSet \<Rightarrow> (ThreadSet \<Rightarrow> ThreadId) \<Rightarrow>
     ((TryLockError + ThreadId) \<times> ThreadAwareAccountLocks) option" where
  "thread_try_lock_accounts l write_account_locks read_account_locks allowed_threads thread_selector = do {
     schedulable \<leftarrow> accounts_schedulable_threads l write_account_locks read_account_locks;
     (case schedulable of
        None \<Rightarrow> Some (Inl MultipleConflicts, l)
      | Some schedulable \<Rightarrow>
          if ts_is_empty (schedulable AND allowed_threads) then Some (Inl ThreadNotAllowed, l)
          else do {
            let thread = thread_selector (schedulable AND allowed_threads);
            l \<leftarrow> thread_lock_accounts l write_account_locks read_account_locks thread;
            Some (Inr thread, l) }) }"

section \<open>Thread sets as sets\<close>

definition threads :: "ThreadSet \<Rightarrow> ThreadId set" where
  "threads s = {t. bit s t}"

lemma threads_bound: "t \<in> threads s \<Longrightarrow> t < 64"
  using bit_imp_le_length [of s t] by (simp add: threads_def)

lemma bit_as_flag: "t < 64 \<Longrightarrow> bit (as_flag t) i \<longleftrightarrow> i = t"
  by (auto simp: as_flag_def bit_simps)

lemma threads_ops [simp]:
  "threads ts_none = {}"
  "threads (a AND b) = threads a \<inter> threads b"
  "t < 64 \<Longrightarrow> threads (ts_only t) = {t}"
  "t < 64 \<Longrightarrow> threads (ts_insert s t) = insert t (threads s)"
  "t < 64 \<Longrightarrow> threads (ts_remove s t) = threads s - {t}"
  "threads (ts_sub a b) = threads a - threads b"
  by (auto simp: threads_def ts_none_def bit_simps ts_only_def ts_insert_def ts_remove_def ts_sub_def bit_as_flag
      dest: bit_imp_le_length)

lemma threads_any: "num \<le> 64 \<Longrightarrow> threads (ts_any num) = {..<num}"
proof (cases "num = 64")
  case False
  assume "num \<le> 64"
  with False have "as_flag num - 1 = mask num" by (simp add: as_flag_def mask_eq_exp_minus_1)
  with False \<open>num \<le> 64\<close> show ?thesis by (auto simp: threads_def ts_any_def MAX_THREADS_def bit_simps)
qed (auto simp: threads_def ts_any_def MAX_THREADS_def bit_simps)

lemma threads_empty: "ts_is_empty s \<longleftrightarrow> threads s = {}"
  using bit_imp_le_length [of s] by (auto simp: ts_is_empty_def ts_none_def threads_def bit_eq_iff)

lemma threads_contains: "t < 64 \<Longrightarrow> ts_contains s t \<longleftrightarrow> t \<in> threads s"
proof -
  assume t: "t < 64"
  have "threads (s AND as_flag t) = threads s \<inter> {t}" by (auto simp: threads_def bit_simps bit_as_flag t)
  with threads_empty [of "s AND as_flag t"] show ?thesis
    by (auto simp: ts_contains_def ts_is_empty_def ts_none_def)
qed

lemma only_one_iff: "only_one_contained s = Some t \<longleftrightarrow> threads s = {t}"
proof -
  have set: "threads s = set (filter (bit s) [0..<64])" using threads_bound [of _ s] by (auto simp: threads_def)
  have card: "card (threads s) = ts_num_threads s"
    unfolding set ts_num_threads_def by (rule distinct_card) simp
  have first: "trailing_zeros s = t'" if "threads s = {t'}" for t'
  proof -
    from that have bits: "bit s i \<longleftrightarrow> i = t'" for i by (auto simp: threads_def)
    have "t' < 64" using threads_bound [of t' s] that by simp
    then have "[0..<64] ! i = i" if "i \<le> t'" for i using nth_upt [of 0 i 64] that by simp
    with \<open>t' < 64\<close> have "find (bit s) [0..<64] = Some t'"
      unfolding find_Some_iff by (intro exI [of _ t']) (simp add: bits)
    then show ?thesis by (simp add: trailing_zeros_def)
  qed
  show ?thesis
  proof
    assume "only_one_contained s = Some t"
    then have "card (threads s) = 1" "trailing_zeros s = t" by (auto simp: only_one_contained_def card split: if_splits)
    then show "threads s = {t}" using first by (auto simp: card_1_singleton_iff)
  next
    assume "threads s = {t}"
    with first card show "only_one_contained s = Some t" by (simp add: only_one_contained_def)
  qed
qed

lemma threads_inject: "threads a = threads b \<Longrightarrow> a = b"
  unfolding threads_def set_eq_iff mem_Collect_eq by (simp add: bit_eq_iff)

section \<open>What the table records\<close>

text \<open>\<open>held t (account, w)\<close> counts the locks that thread \<open>t\<close> holds on an account.\<close>

type_synonym thread_locks = "ThreadId \<Rightarrow> lock_request \<Rightarrow> nat"

definition bump :: "thread_locks \<Rightarrow> ThreadId \<Rightarrow> lock_request \<Rightarrow> thread_locks" where
  "bump held t r = held(t := (held t)(r := Suc (held t r)))"

definition drop_one :: "thread_locks \<Rightarrow> ThreadId \<Rightarrow> lock_request \<Rightarrow> thread_locks" where
  "drop_one held t r = held(t := (held t)(r := held t r - 1))"

text \<open>A thread may take a lock if no other thread holds a conflicting one.\<close>

definition available :: "thread_locks \<Rightarrow> ThreadId \<Rightarrow> lock_request \<Rightarrow> bool" where
  "available held t r \<longleftrightarrow>
     (\<forall>t'. t' \<noteq> t \<longrightarrow> held t' (fst r, True) = 0 \<and> (snd r \<longrightarrow> held t' (fst r, False) = 0))"

definition write_ok :: "AccountWriteLocks option \<Rightarrow> (ThreadId \<Rightarrow> nat) \<Rightarrow> bool" where
  "write_ok writes w \<longleftrightarrow>
     (case writes of
        None \<Rightarrow> \<forall>t. w t = 0
      | Some e \<Rightarrow> 0 < w (thread_id e) \<and> unat (lock_count e) = w (thread_id e) \<and> (\<forall>t. t \<noteq> thread_id e \<longrightarrow> w t = 0))"

definition read_ok :: "AccountReadLocks option \<Rightarrow> (ThreadId \<Rightarrow> nat) \<Rightarrow> bool" where
  "read_ok reads r \<longleftrightarrow>
     (case reads of
        None \<Rightarrow> \<forall>t. r t = 0
      | Some e \<Rightarrow> threads (thread_set e) = {t. 0 < r t} \<and> threads (thread_set e) \<noteq> {} \<and>
          length (lock_counts e) = 64 \<and> (\<forall>t < 64. unat (lock_counts e ! t) = r t))"

definition entry_ok :: "ThreadLocks option \<Rightarrow> (ThreadId \<Rightarrow> nat) \<Rightarrow> (ThreadId \<Rightarrow> nat) \<Rightarrow> bool" where
  "entry_ok entry w r \<longleftrightarrow>
     write_ok (Option.bind entry write_locks) w \<and> read_ok (Option.bind entry read_locks) r \<and>
     (\<forall>e. entry = Some e \<longrightarrow> write_locks e \<noteq> None \<or> read_locks e \<noteq> None) \<and>
     (\<forall>t t'. 0 < w t \<longrightarrow> 0 < w t' \<or> 0 < r t' \<longrightarrow> t = t')"

definition records :: "ThreadAwareAccountLocks \<Rightarrow> thread_locks \<Rightarrow> bool" where
  "records l held \<longleftrightarrow>
     0 < num_threads l \<and> num_threads l \<le> 64 \<and> (\<forall>t r. 0 < held t r \<longrightarrow> t < num_threads l) \<and>
     (\<forall>account. entry_ok (locks l account) (\<lambda>t. held t (account, True)) (\<lambda>t. held t (account, False)))"

lemma step_views:
  "(\<lambda>t'. bump held t (a, w) t' (a, w)) = (\<lambda>t'. held t' (a, w))(t := Suc (held t (a, w)))"
  "w \<noteq> w' \<Longrightarrow> (\<lambda>t'. bump held t (a, w) t' (a, w')) = (\<lambda>t'. held t' (a, w'))"
  "(\<lambda>t'. drop_one held t (a, w) t' (a, w)) = (\<lambda>t'. held t' (a, w))(t := held t (a, w) - 1)"
  "w \<noteq> w' \<Longrightarrow> (\<lambda>t'. drop_one held t (a, w) t' (a, w')) = (\<lambda>t'. held t' (a, w'))"
  by (auto simp: bump_def drop_one_def)

lemma entry_views:
  "write_locks (entry_or_default l a) = Option.bind (locks l a) write_locks"
  "read_locks (entry_or_default l a) = Option.bind (locks l a) read_locks"
  by (simp_all add: entry_or_default_def split: option.split)

lemma records_update:
  assumes "records l held" and "t < num_threads l" and "\<And>t' r. (t', fst r) \<noteq> (t, a) \<Longrightarrow> held' t' r = held t' r"
    and "entry_ok e (\<lambda>t. held' t (a, True)) (\<lambda>t. held' t (a, False))"
  shows "records (l\<lparr>locks := (locks l)(a := e)\<rparr>) held'"
proof -
  have "entry_ok (locks l a') (\<lambda>t. held' t (a', True)) (\<lambda>t. held' t (a', False))" if "a' \<noteq> a" for a'
    using assms(1) assms(3) [of _ "(a', True)"] assms(3) [of _ "(a', False)"] that by (simp add: records_def)
  moreover have "t' < num_threads l" if "0 < held' t' r" for t' r
  proof (cases "(t', fst r) = (t, a)")
    case False
    from assms(3) [OF this] that have "0 < held t' r" by simp
    with assms(1) show ?thesis unfolding records_def by blast
  qed (use assms(2) in simp)
  ultimately show ?thesis using assms(1,4) by (auto simp: records_def)
qed

lemma unat_Suc32: "Suc (unat (c :: u32)) < 2 ^ 32 \<Longrightarrow> unat (c + 1) = Suc (unat c)"
  by (simp add: unat_add_exact)

lemma unat_pred32: "0 < unat (c :: u32) \<Longrightarrow> unat (c - 1) = unat c - 1"
  by (simp add: unat_minus_one unat_gt_0 flip: word_gt_0)

lemma recount: "w\<lparr>lock_count := c\<rparr> = \<lparr>thread_id = thread_id w, lock_count = c\<rparr>" for w :: AccountWriteLocks
  by (cases w) simp

lemma write_ok_only:
  assumes "write_ok writes w" and "\<And>t'. t' \<noteq> t \<Longrightarrow> w t' = 0"
  shows "case writes of None \<Rightarrow> w t = 0 | Some e \<Rightarrow> thread_id e = t \<and> unat (lock_count e) = w t"
proof (cases writes)
  case (Some e)
  with assms(1) have e: "0 < w (thread_id e)" "unat (lock_count e) = w (thread_id e)" by (simp_all add: write_ok_def)
  with assms(2) [of "thread_id e"] have "thread_id e = t" by fastforce
  with e Some show ?thesis by simp
qed (use assms(1) in \<open>simp add: write_ok_def\<close>)

lemma write_lock_ok:
  assumes ok: "records l held" and t: "t < num_threads l" and avail: "available held t (a, True)"
    and small: "Suc (held t (a, True)) < 2 ^ 32"
  shows "\<exists>l'. write_lock_account l a t = Some l' \<and> num_threads l' = num_threads l \<and> records l' (bump held t (a, True))"
proof -
  let ?e = "entry_or_default l a"
  let ?w = "\<lambda>t. held t (a, True)" and ?r = "\<lambda>t. held t (a, False)"
  have e: "write_ok (write_locks ?e) ?w" "read_ok (read_locks ?e) ?r"
    using ok by (simp_all add: records_def entry_ok_def entry_views)
  have others: "?w t' = 0" "?r t' = 0" if "t' \<noteq> t" for t' using avail that by (simp_all add: available_def)
  have reads: "case read_locks ?e of None \<Rightarrow> True | Some reads \<Rightarrow> only_one_contained (thread_set reads) = Some t"
  proof (cases "read_locks ?e")
    case (Some reads)
    with e(2) have "threads (thread_set reads) = {t. 0 < ?r t}" "threads (thread_set reads) \<noteq> {}"
      by (auto simp: read_ok_def)
    moreover have "{t. 0 < ?r t} \<subseteq> {t}" using others(2) by fastforce
    ultimately have "threads (thread_set reads) = {t}" by blast
    with Some show ?thesis by (simp add: only_one_iff)
  qed simp
  define count where "count = (case write_locks ?e of None \<Rightarrow> 0 | Some w \<Rightarrow> lock_count w)"
  have count: "unat count = ?w t" "case write_locks ?e of None \<Rightarrow> True | Some w \<Rightarrow> thread_id w = t"
    using write_ok_only [OF e(1) others(1)] by (auto simp: count_def split: option.splits)
  let ?new = "?e\<lparr>write_locks := Some \<lparr>thread_id = t, lock_count = count + 1\<rparr>\<rparr>"
  have "write_lock_account l a t = Some (l\<lparr>locks := (locks l)(a \<mapsto> ?new)\<rparr>)"
    using reads count(2) by (auto simp: write_lock_account_def Let_def count_def recount split: option.splits)
  moreover have "entry_ok (Some ?new) (\<lambda>t'. bump held t (a, True) t' (a, True)) (\<lambda>t'. bump held t (a, True) t' (a, False))"
    using e(2) others small count(1) unat_Suc32 [of count]
    by (auto simp: entry_ok_def write_ok_def step_views)
  with records_update [OF ok t, where e = "Some ?new"] have "records (l\<lparr>locks := (locks l)(a \<mapsto> ?new)\<rparr>) (bump held t (a, True))"
    by (auto simp: bump_def)
  ultimately show ?thesis by simp
qed

lemma read_lock_ok:
  assumes ok: "records l held" and t: "t < num_threads l" and avail: "available held t (a, False)"
    and small: "Suc (held t (a, False)) < 2 ^ 32"
  shows "\<exists>l'. read_lock_account l a t = Some l' \<and> num_threads l' = num_threads l \<and> records l' (bump held t (a, False))"
proof -
  let ?e = "entry_or_default l a"
  let ?w = "\<lambda>t. held t (a, True)" and ?r = "\<lambda>t. held t (a, False)"
  have e: "write_ok (write_locks ?e) ?w" "read_ok (read_locks ?e) ?r"
    using ok by (simp_all add: records_def entry_ok_def entry_views)
  have t64: "t < 64" using ok t by (simp add: records_def)
  have others: "?w t' = 0" if "t' \<noteq> t" for t' using avail that by (simp add: available_def)
  then have writers: "t' = t" if "0 < ?w t'" for t' using that by fastforce
  have excl: "t' = t''" if "0 < ?w t'" "0 < ?r t''" for t' t''
    using ok that unfolding records_def entry_ok_def by blast
  have writes: "case write_locks ?e of None \<Rightarrow> True | Some w \<Rightarrow> thread_id w = t"
    using write_ok_only [OF e(1) others] by (auto split: option.splits)
  define set where "set = (case read_locks ?e of None \<Rightarrow> ts_only t | Some r \<Rightarrow> ts_insert (thread_set r) t)"
  define counts where "counts = (case read_locks ?e of None \<Rightarrow> replicate MAX_THREADS 0 | Some r \<Rightarrow> lock_counts r)"
  have counts: "length counts = 64" "\<And>t. t < 64 \<Longrightarrow> unat (counts ! t) = ?r t"
    using e(2) by (auto simp: counts_def read_ok_def MAX_THREADS_def split: option.splits)
  have set: "threads set = insert t {t. 0 < ?r t}"
    using e(2) t64 by (auto simp: set_def read_ok_def split: option.splits)
  let ?new = "?e\<lparr>read_locks := Some \<lparr>thread_set = set, lock_counts = counts[t := counts ! t + 1]\<rparr>\<rparr>"
  have "read_lock_account l a t = Some (l\<lparr>locks := (locks l)(a \<mapsto> ?new)\<rparr>)"
    using writes t64 by (auto simp: read_lock_account_def Let_def set_def counts_def MAX_THREADS_def split: option.splits)
  moreover have "read_ok (Some \<lparr>thread_set = set, lock_counts = counts[t := counts ! t + 1]\<rparr>) (?r(t := Suc (?r t)))"
    using counts small unat_Suc32 [of "counts ! t"] t64 by (auto simp: read_ok_def set nth_list_update)
  then have "entry_ok (Some ?new) (\<lambda>t'. bump held t (a, False) t' (a, True)) (\<lambda>t'. bump held t (a, False) t' (a, False))"
    using e(1) by (auto simp: entry_ok_def step_views dest: writers excl)
  with records_update [OF ok t, where e = "Some ?new"] have "records (l\<lparr>locks := (locks l)(a \<mapsto> ?new)\<rparr>) (bump held t (a, False))"
    by (auto simp: bump_def)
  ultimately show ?thesis by simp
qed

lemma entry_write:
  assumes e: "entry_ok entry w r" and t: "0 < w t"
  obtains e writes where "entry = Some e" "write_locks e = Some writes" "thread_id writes = t"
    "unat (lock_count writes) = w t" "\<forall>t'. t' \<noteq> t \<longrightarrow> w t' = 0 \<and> r t' = 0" "read_ok (read_locks e) r"
proof -
  have ok: "write_ok (Option.bind entry write_locks) w" "read_ok (Option.bind entry read_locks) r"
    and excl: "\<And>t'. 0 < w t' \<or> 0 < r t' \<Longrightarrow> t = t'"
    using e t unfolding entry_ok_def by blast+
  from ok(1) t have "Option.bind entry write_locks \<noteq> None" by (auto simp: write_ok_def split: option.splits)
  then obtain e' writes where e': "entry = Some e'" "write_locks e' = Some writes" by (auto simp: bind_eq_None_conv)
  have others: "w t' = 0" "r t' = 0" if "t' \<noteq> t" for t' using excl that by (metis neq0_conv)+
  have "thread_id writes = t \<and> unat (lock_count writes) = w t"
    using write_ok_only [OF ok(1) others(1)] e' by simp
  with that [OF e'] others ok(2) e' show thesis by simp
qed

lemma entry_read:
  assumes e: "entry_ok entry w r" and t: "0 < r t"
  obtains e reads where "entry = Some e" "read_locks e = Some reads" "threads (thread_set reads) = {t. 0 < r t}"
    "length (lock_counts reads) = 64" "\<And>t. t < 64 \<Longrightarrow> unat (lock_counts reads ! t) = r t" "write_ok (write_locks e) w"
    "\<And>t t'. 0 < w t \<Longrightarrow> 0 < w t' \<or> 0 < r t' \<Longrightarrow> t = t'"
proof -
  have ok: "write_ok (Option.bind entry write_locks) w" "read_ok (Option.bind entry read_locks) r"
    and excl: "\<And>t t'. 0 < w t \<Longrightarrow> 0 < w t' \<or> 0 < r t' \<Longrightarrow> t = t'"
    using e unfolding entry_ok_def by blast+
  from ok(2) t have "Option.bind entry read_locks \<noteq> None" by (auto simp: read_ok_def split: option.splits)
  then obtain e' reads where e': "entry = Some e'" "read_locks e' = Some reads" by (auto simp: bind_eq_None_conv)
  with ok(2) have "threads (thread_set reads) = {t. 0 < r t}" "length (lock_counts reads) = 64"
    "\<And>t. t < 64 \<Longrightarrow> unat (lock_counts reads ! t) = r t" by (auto simp: read_ok_def)
  with that [OF e'] ok(1) e' excl show thesis by simp
qed

lemma write_unlock_ok:
  assumes ok: "records l held" and some: "0 < held t (a, True)"
  shows "\<exists>l'. write_unlock_account l a t = Some l' \<and> num_threads l' = num_threads l \<and> records l' (drop_one held t (a, True))"
proof -
  let ?w = "\<lambda>t. held t (a, True)" and ?r = "\<lambda>t. held t (a, False)"
  have t: "t < num_threads l" using ok some unfolding records_def by blast
  have e: "entry_ok (locks l a) ?w ?r" using ok by (simp add: records_def)
  from entry_write [OF e some] obtain entry writes where entry: "locks l a = Some entry" "write_locks entry = Some writes"
    and writes: "thread_id writes = t" "unat (lock_count writes) = ?w t" "\<forall>t'. t' \<noteq> t \<longrightarrow> ?w t' = 0 \<and> ?r t' = 0"
    and reads: "read_ok (read_locks entry) ?r" by blast
  let ?c = "lock_count writes - 1"
  have c: "unat ?c = ?w t - 1" using unat_pred32 [of "lock_count writes"] writes(2) some by simp
  then have zero: "?c = 0 \<longleftrightarrow> ?w t = 1" using some by (metis One_nat_def Suc_pred diff_self_eq_0 unsigned_0 unat_inject)
  let ?new = "if ?c = 0 then (if read_locks entry = None then None else Some (entry\<lparr>write_locks := None\<rparr>))
    else Some (entry\<lparr>write_locks := Some (writes\<lparr>lock_count := ?c\<rparr>)\<rparr>)"
  have "write_unlock_account l a t = Some (l\<lparr>locks := (locks l)(a := ?new)\<rparr>)"
    using entry writes(1) by (simp add: write_unlock_account_def Let_def)
  moreover have "entry_ok ?new (\<lambda>t'. drop_one held t (a, True) t' (a, True)) (\<lambda>t'. drop_one held t (a, True) t' (a, False))"
    using writes reads c zero some
    by (auto simp: entry_ok_def write_ok_def step_views)
  with records_update [OF ok t, where e = ?new] have "records (l\<lparr>locks := (locks l)(a := ?new)\<rparr>) (drop_one held t (a, True))"
    by (auto simp: drop_one_def)
  ultimately show ?thesis by simp
qed

lemma read_unlock_ok:
  assumes ok: "records l held" and some: "0 < held t (a, False)"
  shows "\<exists>l'. read_unlock_account l a t = Some l' \<and> num_threads l' = num_threads l \<and> records l' (drop_one held t (a, False))"
proof -
  let ?w = "\<lambda>t. held t (a, True)" and ?r = "\<lambda>t. held t (a, False)"
  have t: "t < num_threads l" using ok some unfolding records_def by blast
  then have t64: "t < 64" using ok by (simp add: records_def)
  have e: "entry_ok (locks l a) ?w ?r" using ok by (simp add: records_def)
  from entry_read [OF e some] obtain entry reads where entry: "locks l a = Some entry" "read_locks entry = Some reads"
    and reads: "threads (thread_set reads) = {t. 0 < ?r t}" "length (lock_counts reads) = 64"
      "\<And>t. t < 64 \<Longrightarrow> unat (lock_counts reads ! t) = ?r t"
    and writes: "write_ok (write_locks entry) ?w" "\<And>t t'. 0 < ?w t \<Longrightarrow> 0 < ?w t' \<or> 0 < ?r t' \<Longrightarrow> t = t'"
    by blast
  have contained: "ts_contains (thread_set reads) t" using reads(1) some t64 by (simp add: threads_contains)
  let ?c = "lock_counts reads ! t - 1"
  let ?counts = "(lock_counts reads)[t := ?c]" and ?threads = "ts_remove (thread_set reads) t"
  have c: "unat ?c = ?r t - 1" using unat_pred32 [of "lock_counts reads ! t"] reads(3) [OF t64] some by simp
  then have zero: "?c = 0 \<longleftrightarrow> ?r t = 1" using some by (metis One_nat_def Suc_pred diff_self_eq_0 unsigned_0 unat_inject)
  let ?new = "if ?c = 0
    then if ts_is_empty ?threads then (if write_locks entry = None then None else Some (entry\<lparr>read_locks := None\<rparr>))
      else Some (entry\<lparr>read_locks := Some \<lparr>thread_set = ?threads, lock_counts = ?counts\<rparr>\<rparr>)
    else Some (entry\<lparr>read_locks := Some (reads\<lparr>lock_counts := ?counts\<rparr>)\<rparr>)"
  have "read_unlock_account l a t = Some (l\<lparr>locks := (locks l)(a := ?new)\<rparr>)"
    using entry contained t64 by (simp add: read_unlock_account_def Let_def MAX_THREADS_def)
  moreover have "entry_ok ?new ?w (?r(t := ?r t - 1))"
    using writes reads c zero some t64
    by (auto simp: entry_ok_def read_ok_def threads_empty nth_list_update)
  then have "entry_ok ?new (\<lambda>t'. drop_one held t (a, False) t' (a, True)) (\<lambda>t'. drop_one held t (a, False) t' (a, False))"
    by (simp add: step_views)
  with records_update [OF ok t, where e = ?new] have "records (l\<lparr>locks := (locks l)(a := ?new)\<rparr>) (drop_one held t (a, False))"
    by (auto simp: drop_one_def)
  ultimately show ?thesis by simp
qed

section \<open>Lists of accounts\<close>

definition take_locks :: "thread_locks \<Rightarrow> ThreadId \<Rightarrow> bool \<Rightarrow> Pubkey list \<Rightarrow> thread_locks" where
  "take_locks held t w accounts = held(t := (\<lambda>(a, w'). held t (a, w') + (if w' = w then count_list accounts a else 0)))"

definition drop_locks :: "thread_locks \<Rightarrow> ThreadId \<Rightarrow> bool \<Rightarrow> Pubkey list \<Rightarrow> thread_locks" where
  "drop_locks held t w accounts = held(t := (\<lambda>(a, w'). held t (a, w') - (if w' = w then count_list accounts a else 0)))"

lemma take_locks_Cons: "take_locks held t w (a # accounts) = take_locks (bump held t (a, w)) t w accounts"
  and take_locks_Nil: "take_locks held t w [] = held"
  by (auto simp: take_locks_def bump_def fun_eq_iff)

lemma drop_locks_Cons: "drop_locks held t w (a # accounts) = drop_locks (drop_one held t (a, w)) t w accounts"
  and drop_locks_Nil: "drop_locks held t w [] = held"
  by (auto simp: drop_locks_def drop_one_def fun_eq_iff)

lemma available_bump: "available held t r \<Longrightarrow> available (bump held t r') t r"
  by (auto simp: available_def bump_def)

lemma lock_each_ok:
  assumes "records l held" and "t < num_threads l" and "\<forall>a \<in> set accounts. available held t (a, w)"
    and "\<forall>a. held t (a, w) + count_list accounts a < 2 ^ 32"
  shows "\<exists>l'. each_account (if w then write_lock_account else read_lock_account) l accounts t = Some l' \<and>
    num_threads l' = num_threads l \<and> records l' (take_locks held t w accounts)"
  using assms
proof (induction accounts arbitrary: l held)
  case (Cons a accounts)
  have "Suc (held t (a, w)) < 2 ^ 32" using Cons.prems(4) [rule_format, of a] by simp
  with Cons.prems write_lock_ok [OF Cons.prems(1,2), of a] read_lock_ok [OF Cons.prems(1,2), of a]
  obtain l1 where l1: "(if w then write_lock_account else read_lock_account) l a t = Some l1"
    "num_threads l1 = num_threads l" "records l1 (bump held t (a, w))" by (cases w) auto
  have "bump held t (a, w) t (b, w) + count_list accounts b < 2 ^ 32" for b
    using Cons.prems(4) [rule_format, of b] by (auto simp: bump_def)
  with Cons.IH [OF l1(3)] Cons.prems(2,3) l1(1,2) show ?case
    by (auto simp: take_locks_Cons available_bump)
qed (simp add: take_locks_Nil)

lemma unlock_each_ok:
  assumes "records l held" and "\<forall>a. count_list accounts a \<le> held t (a, w)"
  shows "\<exists>l'. each_account (if w then write_unlock_account else read_unlock_account) l accounts t = Some l' \<and>
    num_threads l' = num_threads l \<and> records l' (drop_locks held t w accounts)"
  using assms
proof (induction accounts arbitrary: l held)
  case (Cons a accounts)
  have "0 < held t (a, w)" using Cons.prems(2) [rule_format, of a] by simp
  with write_unlock_ok [OF Cons.prems(1), of t a] read_unlock_ok [OF Cons.prems(1), of t a]
  obtain l1 where l1: "(if w then write_unlock_account else read_unlock_account) l a t = Some l1"
    "num_threads l1 = num_threads l" "records l1 (drop_one held t (a, w))" by (cases w) auto
  have "count_list accounts b \<le> drop_one held t (a, w) t (b, w)" for b
    using Cons.prems(2) [rule_format, of b] by (auto simp: drop_one_def)
  with Cons.IH [OF l1(3)] l1(1,2) show ?case by (auto simp: drop_locks_Cons)
qed (simp add: drop_locks_Nil)

lemma readers_schedulable:
  assumes num: "num \<le> 64" and bound: "\<And>t. 0 < held t (a, False) \<Longrightarrow> t < num" and no_writes: "\<forall>t. held t (a, True) = 0"
    and readers: "threads s = {t. 0 < held t (a, False)}" "threads s \<noteq> {}"
  shows "threads (case only_one_contained s of Some t \<Rightarrow> ts_only t | None \<Rightarrow> ts_none) = {t. t < num \<and> available held t (a, True)}"
proof -
  have avail: "available held t (a, True) \<longleftrightarrow> threads s \<subseteq> {t}" for t
    using no_writes readers(1) by (auto simp: available_def)
  show ?thesis
  proof (cases "only_one_contained s")
    case None
    then have "threads s \<noteq> {t}" for t using only_one_iff [of s t] by simp
    with readers(2) have "\<not> threads s \<subseteq> {t}" for t by blast
    with None show ?thesis by (simp add: avail)
  next
    case (Some t)
    then have t: "threads s = {t}" by (simp add: only_one_iff)
    with readers(1) have "0 < held t (a, False)" by blast
    from bound [OF this] num have "t < num" "t < 64" by simp_all
    with Some t show ?thesis by (auto simp: avail)
  qed
qed

lemma schedulable_ok:
  assumes ok: "records l held"
  shows "\<exists>s. schedulable_threads w l a = Some s \<and> threads s = {t. t < num_threads l \<and> available held t (a, w)}"
proof -
  let ?w = "\<lambda>t. held t (a, True)" and ?r = "\<lambda>t. held t (a, False)"
  have e: "entry_ok (locks l a) ?w ?r" and num: "num_threads l \<le> 64"
    and bound: "\<And>t r. 0 < held t r \<Longrightarrow> t < num_threads l" using ok unfolding records_def by blast+
  show ?thesis
  proof (cases "\<exists>t. 0 < ?w t")
    case True
    then obtain t where t: "0 < ?w t" by blast
    from e t obtain entry writes where entry: "locks l a = Some entry" "write_locks entry = Some writes"
      and writes: "thread_id writes = t" "unat (lock_count writes) = ?w t" "\<forall>t'. t' \<noteq> t \<longrightarrow> ?w t' = 0 \<and> ?r t' = 0"
      and reads: "read_ok (read_locks entry) ?r" by (rule entry_write)
    have "available held t' (a, w) \<longleftrightarrow> t' = t" for t'
      using writes(3) t unfolding available_def by (cases "t' = t") auto
    then have "{t. t < num_threads l \<and> available held t (a, w)} = {t}" using bound [OF t] by auto
    moreover have "threads (ts_only t) = {t}" using bound [OF t] num by simp
    moreover have "threads (thread_set r) = {t}" if "read_locks entry = Some r" for r
    proof -
      have "threads (thread_set r) = {t. 0 < ?r t}" "threads (thread_set r) \<noteq> {}"
        using reads that by (auto simp: read_ok_def)
      moreover have "{t. 0 < ?r t} \<subseteq> {t}" using writes(3) by fastforce
      ultimately show ?thesis by blast
    qed
    ultimately show ?thesis
      using entry writes(1) by (cases "read_locks entry") (simp_all add: schedulable_threads_def only_one_iff)
  next
    case False
    then have no_writes: "\<forall>t. ?w t = 0" by simp
    then have none: "Option.bind (locks l a) write_locks = None"
      using e by (auto simp: entry_ok_def write_ok_def split: option.splits)
    show ?thesis
    proof (cases "locks l a")
      case None
      with e have "\<forall>t. ?r t = 0" by (simp add: entry_ok_def read_ok_def)
      with None no_writes show ?thesis by (auto simp: schedulable_threads_def available_def threads_any num)
    next
      case (Some entry)
      with none have "write_locks entry = None" by simp
      with e Some obtain reads where reads: "write_locks entry = None" "read_locks entry = Some reads"
        by (auto simp: entry_ok_def)
      with e Some have "threads (thread_set reads) = {t. 0 < ?r t}" "threads (thread_set reads) \<noteq> {}"
        by (auto simp: entry_ok_def read_ok_def)
      note reads = reads this
      with Some no_writes readers_schedulable [OF num bound no_writes reads(3,4)] show ?thesis
        by (cases w) (auto simp: schedulable_threads_def available_def threads_any num)
    qed
  qed
qed

lemma restrict_ok:
  assumes "records l held" and "threads s \<noteq> {}" and "threads s \<subseteq> {..<num_threads l}"
  shows "\<exists>found. restrict_schedulable w l s accounts = Some found \<and>
    (case found of
       None \<Rightarrow> {t \<in> threads s. \<forall>a \<in> set accounts. available held t (a, w)} = {}
     | Some s' \<Rightarrow> threads s' = {t \<in> threads s. \<forall>a \<in> set accounts. available held t (a, w)} \<and> threads s' \<noteq> {})"
  using assms(2,3)
proof (induction accounts arbitrary: s)
  case (Cons a accounts)
  from schedulable_ok [OF assms(1), of w a] obtain s1 where s1: "schedulable_threads w l a = Some s1"
    "threads s1 = {t. t < num_threads l \<and> available held t (a, w)}" by blast
  have s: "threads (s AND s1) = {t \<in> threads s. available held t (a, w)}" using s1(2) Cons.prems(2) by auto
  show ?case
  proof (cases "threads (s AND s1) = {}")
    case True
    with s s1(1) show ?thesis by (auto simp: threads_empty simp del: threads_ops)
  next
    case False
    have "threads (s AND s1) \<subseteq> {..<num_threads l}" using Cons.prems(2) by auto
    from Cons.IH [OF False this] obtain found where found: "restrict_schedulable w l (s AND s1) accounts = Some found"
      "case found of
       None \<Rightarrow> {t \<in> threads (s AND s1). \<forall>a \<in> set accounts. available held t (a, w)} = {}
     | Some s' \<Rightarrow> threads s' = {t \<in> threads (s AND s1). \<forall>a \<in> set accounts. available held t (a, w)} \<and> threads s' \<noteq> {}"
      by blast
    have same: "{t \<in> threads (s AND s1). \<forall>a \<in> set accounts. available held t (a, w)} =
        {t \<in> threads s. \<forall>a' \<in> set (a # accounts). available held t (a', w)}" unfolding s by auto
    have "restrict_schedulable w l s (a # accounts) = Some found"
      using found(1) s1(1) False by (simp add: threads_empty del: threads_ops)
    with found(2) show ?thesis unfolding same by blast
  qed
qed (simp split: option.split)

section \<open>Batches queued on the threads\<close>

text \<open>A batch is queued on a thread with its writable and its readable accounts.\<close>

type_synonym queued_batch = "ThreadId \<times> Pubkey list \<times> Pubkey list"

definition batch_locks :: "queued_batch \<Rightarrow> lock_request list" where
  "batch_locks = (\<lambda>(_, ws, rs). map (\<lambda>a. (a, True)) ws @ map (\<lambda>a. (a, False)) rs)"

definition held_by :: "queued_batch multiset \<Rightarrow> thread_locks" where
  "held_by M t r = (\<Sum>b \<in># M. if fst b = t then count_list (batch_locks b) r else 0)"

definition lock_total :: "queued_batch multiset \<Rightarrow> nat" where
  "lock_total M = (\<Sum>b \<in># M. length (batch_locks b))"

lemma count_list_pairs: "count_list (map (\<lambda>a. (a, w')) xs) (a, w) = (if w' = w then count_list xs a else 0)"
  by (induction xs) auto

lemma count_batch: "count_list (batch_locks (t, ws, rs)) (a, w) = count_list (if w then ws else rs) a"
  by (simp add: batch_locks_def count_list_pairs)

lemma held_by_add:
  "held_by (add_mset (t, ws, rs) M) = take_locks (take_locks (held_by M) t True ws) t False rs"
  by (auto simp: fun_eq_iff held_by_def take_locks_def count_batch)

lemma held_by_drop:
  "(t, ws, rs) \<in># M \<Longrightarrow>
   held_by (M - {#(t, ws, rs)#}) = drop_locks (drop_locks (held_by M) t True ws) t False rs"
  using held_by_add [of t ws rs "M - {#(t, ws, rs)#}"]
  by (auto simp: fun_eq_iff take_locks_def drop_locks_def split: if_splits)

lemma held_by_le: "held_by M t r \<le> lock_total M"
  unfolding held_by_def lock_total_def by (intro sum_mset_mono) (auto simp: count_le_length)

lemma held_by_pos: "0 < held_by M t r \<longleftrightarrow> (\<exists>b \<in># M. fst b = t \<and> r \<in> set (batch_locks b))"
proof (induction M)
  case (add b M)
  have "0 < count_list (batch_locks b) r \<longleftrightarrow> r \<in> set (batch_locks b)" by (simp add: count_list_0_iff flip: neq0_conv)
  with add show ?case by (auto simp: held_by_def)
qed (simp add: held_by_def)

text \<open>A thread can take a batch if no batch queued on another thread conflicts with it.\<close>

definition can_take :: "queued_batch multiset \<Rightarrow> Pubkey list \<Rightarrow> Pubkey list \<Rightarrow> ThreadId \<Rightarrow> bool" where
  "can_take M ws rs t \<longleftrightarrow>
     (\<forall>b \<in># M. fst b \<noteq> t \<longrightarrow> \<not> lock_conflict (batch_locks (t, ws, rs)) (batch_locks b))"

lemma can_take_available:
  "can_take M ws rs t \<longleftrightarrow>
   (\<forall>a \<in> set ws. available (held_by M) t (a, True)) \<and> (\<forall>a \<in> set rs. available (held_by M) t (a, False))"
proof -
  have free: "held_by M t' r = 0 \<longleftrightarrow> (\<forall>b \<in># M. fst b = t' \<longrightarrow> r \<notin> set (batch_locks b))" for t' r
    using held_by_pos [of M t' r] by auto
  have "lock_conflict (batch_locks (t, ws, rs)) ys \<longleftrightarrow>
      (\<exists>a \<in> set ws. (a, True) \<in> set ys \<or> (a, False) \<in> set ys) \<or> (\<exists>a \<in> set rs. (a, True) \<in> set ys)" for ys
    by (auto simp: lock_conflict_iff batch_locks_def)
  moreover have "(\<forall>a \<in> set ws. available (held_by M) t (a, True)) \<longleftrightarrow>
      (\<forall>b \<in># M. fst b \<noteq> t \<longrightarrow> (\<forall>a \<in> set ws. (a, True) \<notin> set (batch_locks b) \<and> (a, False) \<notin> set (batch_locks b)))"
    unfolding available_def free fst_conv snd_conv by blast
  moreover have "(\<forall>a \<in> set rs. available (held_by M) t (a, False)) \<longleftrightarrow>
      (\<forall>b \<in># M. fst b \<noteq> t \<longrightarrow> (\<forall>a \<in> set rs. (a, True) \<notin> set (batch_locks b)))"
    unfolding available_def free fst_conv snd_conv by blast
  ultimately show ?thesis unfolding can_take_def by blast
qed

lemma lock_accounts_ok:
  assumes ok: "records l (held_by M)" and t: "t < num_threads l" and free: "can_take M ws rs t"
    and small: "lock_total M + length ws + length rs < 2 ^ 32"
  shows "\<exists>l'. thread_lock_accounts l ws rs t = Some l' \<and> num_threads l' = num_threads l \<and>
    records l' (held_by (add_mset (t, ws, rs) M))"
proof -
  have avail: "\<forall>a \<in> set ws. available (held_by M) t (a, True)" "\<forall>a \<in> set rs. available (held_by M) t (a, False)"
    using free by (simp_all add: can_take_available)
  have bound: "held_by M t r + count_list ws a < 2 ^ 32" "held_by M t r + count_list rs a < 2 ^ 32" for r a
    using small held_by_le [of M t r] count_le_length [of ws a] count_le_length [of rs a] by linarith+
  have "\<forall>a. held_by M t (a, True) + count_list ws a < 2 ^ 32" using bound(1) by blast
  from lock_each_ok [OF ok t avail(1) this] obtain l1 where l1:
    "each_account write_lock_account l ws t = Some l1" "num_threads l1 = num_threads l"
    "records l1 (take_locks (held_by M) t True ws)" by auto
  have "\<forall>a \<in> set rs. available (take_locks (held_by M) t True ws) t (a, False)"
    using avail(2) by (simp add: available_def take_locks_def)
  moreover have "\<forall>a. take_locks (held_by M) t True ws t (a, False) + count_list rs a < 2 ^ 32"
    using bound(2) by (simp add: take_locks_def)
  ultimately have "\<exists>l'. each_account read_lock_account l1 rs t = Some l' \<and> num_threads l' = num_threads l1 \<and>
      records l' (take_locks (take_locks (held_by M) t True ws) t False rs)"
    using lock_each_ok [OF l1(3), of t rs False] l1(2) t by simp
  with l1(1,2) t show ?thesis by (auto simp: thread_lock_accounts_def held_by_add)
qed

lemma unlock_accounts_ok:
  assumes ok: "records l (held_by M)" and queued: "(t, ws, rs) \<in># M"
  shows "\<exists>l'. thread_unlock_accounts l ws rs t = Some l' \<and> num_threads l' = num_threads l \<and>
    records l' (held_by (M - {#(t, ws, rs)#}))"
proof -
  let ?M = "M - {#(t, ws, rs)#}"
  have M: "held_by M = take_locks (take_locks (held_by ?M) t True ws) t False rs"
    using held_by_add [of t ws rs ?M] queued by simp
  have "\<forall>a. count_list ws a \<le> held_by M t (a, True)" by (simp add: M take_locks_def)
  from unlock_each_ok [OF ok, of ws t True] this obtain l1 where l1:
    "each_account write_unlock_account l ws t = Some l1" "num_threads l1 = num_threads l"
    "records l1 (drop_locks (held_by M) t True ws)" by auto
  have "\<forall>a. count_list rs a \<le> drop_locks (held_by M) t True ws t (a, False)"
    by (simp add: M take_locks_def drop_locks_def)
  from unlock_each_ok [OF l1(3), of rs t False] this l1(1,2) show ?thesis
    by (auto simp: thread_unlock_accounts_def held_by_drop [OF queued])
qed

lemma schedulable_set:
  assumes ok: "records l (held_by M)"
  shows "\<exists>found. accounts_schedulable_threads l ws rs = Some found \<and>
    (case found of
       None \<Rightarrow> {t. t < num_threads l \<and> can_take M ws rs t} = {}
     | Some s \<Rightarrow> threads s = {t. t < num_threads l \<and> can_take M ws rs t} \<and> threads s \<noteq> {})"
proof -
  let ?any = "ts_any (num_threads l)"
  have any: "threads ?any = {..<num_threads l}" "threads ?any \<noteq> {}" using ok by (auto simp: records_def threads_any)
  from restrict_ok [OF ok any(2), of True ws] any(1) obtain found where found:
    "restrict_schedulable True l ?any ws = Some found"
    "case found of
       None \<Rightarrow> {t \<in> threads ?any. \<forall>a \<in> set ws. available (held_by M) t (a, True)} = {}
     | Some s' \<Rightarrow> threads s' = {t \<in> threads ?any. \<forall>a \<in> set ws. available (held_by M) t (a, True)} \<and> threads s' \<noteq> {}"
    by blast
  show ?thesis
  proof (cases found)
    case None
    with found any(1) show ?thesis by (auto simp: accounts_schedulable_threads_def can_take_available)
  next
    case (Some s)
    with found(2) have s: "threads s = {t \<in> threads ?any. \<forall>a \<in> set ws. available (held_by M) t (a, True)}" "threads s \<noteq> {}"
      by (simp, auto)
    then have "threads s \<subseteq> {..<num_threads l}" using any(1) by auto
    from restrict_ok [OF ok s(2) this, of False rs] obtain found' where found':
      "restrict_schedulable False l s rs = Some found'"
      "case found' of
         None \<Rightarrow> {t \<in> threads s. \<forall>a \<in> set rs. available (held_by M) t (a, False)} = {}
       | Some s' \<Rightarrow> threads s' = {t \<in> threads s. \<forall>a \<in> set rs. available (held_by M) t (a, False)} \<and> threads s' \<noteq> {}"
      by blast
    have same: "{t \<in> threads s. \<forall>a \<in> set rs. available (held_by M) t (a, False)} = {t. t < num_threads l \<and> can_take M ws rs t}"
      unfolding s(1) any(1) can_take_available by auto
    from found' Some found(1) show ?thesis unfolding same by (auto simp: accounts_schedulable_threads_def)
  qed
qed

section \<open>Runs of a scheduler\<close>

text \<open>A thread selector picks a thread out of the set it is given.\<close>

definition selects :: "(ThreadSet \<Rightarrow> ThreadId) \<Rightarrow> bool" where
  "selects selector \<longleftrightarrow> (\<forall>s. threads s \<noteq> {} \<longrightarrow> selector s \<in> threads s)"

inductive thread_run :: "nat \<Rightarrow> ThreadAwareAccountLocks \<Rightarrow> queued_batch multiset \<Rightarrow> bool" for num where
  start: "ThreadAwareAccountLocks_new num = Some l \<Longrightarrow> thread_run num l {#}"
| queue: "thread_run num l M \<Longrightarrow> lock_total M + length ws + length rs < 2 ^ 32 \<Longrightarrow> selects selector \<Longrightarrow>
    thread_try_lock_accounts l ws rs allowed selector = Some (Inr t, l') \<Longrightarrow> thread_run num l' (add_mset (t, ws, rs) M)"
| finish: "thread_run num l M \<Longrightarrow> (t, ws, rs) \<in># M \<Longrightarrow> thread_unlock_accounts l ws rs t = Some l' \<Longrightarrow>
    thread_run num l' (M - {#(t, ws, rs)#})"

lemma try_lock_cases:
  assumes ok: "records l (held_by M)" and small: "lock_total M + length ws + length rs < 2 ^ 32" and sel: "selects selector"
  shows "(if {t. t < num_threads l \<and> can_take M ws rs t} = {}
      then thread_try_lock_accounts l ws rs allowed selector = Some (Inl MultipleConflicts, l)
    else if {t. t < num_threads l \<and> can_take M ws rs t} \<inter> threads allowed = {}
      then thread_try_lock_accounts l ws rs allowed selector = Some (Inl ThreadNotAllowed, l)
    else \<exists>s l'. threads s = {t. t < num_threads l \<and> can_take M ws rs t} \<inter> threads allowed \<and>
      thread_try_lock_accounts l ws rs allowed selector = Some (Inr (selector s), l') \<and> num_threads l' = num_threads l \<and>
      records l' (held_by (add_mset (selector s, ws, rs) M)))"
proof -
  let ?C = "{t. t < num_threads l \<and> can_take M ws rs t}"
  from schedulable_set [OF ok, of ws rs] obtain found where found: "accounts_schedulable_threads l ws rs = Some found"
    "case found of None \<Rightarrow> ?C = {} | Some s \<Rightarrow> threads s = ?C \<and> threads s \<noteq> {}" by blast
  show ?thesis
  proof (cases found)
    case None
    with found show ?thesis by (simp add: thread_try_lock_accounts_def)
  next
    case (Some s)
    let ?s = "s AND allowed"
    from Some found(2) have s: "threads ?s = ?C \<inter> threads allowed" "?C \<noteq> {}" by auto
    show ?thesis
    proof (cases "threads ?s = {}")
      case True
      have "thread_try_lock_accounts l ws rs allowed selector = Some (Inl ThreadNotAllowed, l)"
        using found(1) Some True by (simp add: thread_try_lock_accounts_def threads_empty del: threads_ops)
      with s True show ?thesis by auto
    next
      case False
      with sel s(1) have t: "selector ?s < num_threads l" "can_take M ws rs (selector ?s)" unfolding selects_def by blast+
      from lock_accounts_ok [OF ok t small] obtain l' where "thread_lock_accounts l ws rs (selector ?s) = Some l'"
        "num_threads l' = num_threads l" "records l' (held_by (add_mset (selector ?s, ws, rs) M))" by blast
      moreover from this(1) have "thread_try_lock_accounts l ws rs allowed selector = Some (Inr (selector ?s), l')"
        using found(1) Some False by (simp add: thread_try_lock_accounts_def threads_empty Let_def del: threads_ops)
      ultimately show ?thesis using s False by auto
    qed
  qed
qed

lemma thread_run_records: "thread_run num l M \<Longrightarrow> records l (held_by M) \<and> num_threads l = num"
proof (induction rule: thread_run.induct)
  case (start l)
  then show ?case
    by (auto simp: ThreadAwareAccountLocks_new_def MAX_THREADS_def records_def entry_ok_def write_ok_def read_ok_def
        held_by_def split: if_splits)
next
  case (queue l M ws rs selector allowed t l')
  from queue.IH have "records l (held_by M)" by simp
  from try_lock_cases [OF this queue.hyps(2,3), of allowed] queue.hyps(4) queue.IH show ?case
    by (auto split: if_splits)
next
  case (finish l M t ws rs l')
  then show ?case using unlock_accounts_ok [of l M t ws rs] by auto
qed

text \<open>C29: Batches queued on different worker threads never conflict: in every run of lockings and
  unlockings of the thread-aware table, whatever threads the selector chooses, an account one thread
  writes is neither read nor written by a batch queued on another thread.\<close>

theorem queued_batches_do_not_conflict:
  assumes run: "thread_run num l M" and queued: "b \<in># M" "b' \<in># M" "fst b \<noteq> fst b'"
  shows "\<not> lock_conflict (batch_locks b) (batch_locks b')"
proof
  assume "lock_conflict (batch_locks b) (batch_locks b')"
  then obtain a w w' where a: "(a, w) \<in> set (batch_locks b)" "(a, w') \<in> set (batch_locks b')" "w \<or> w'"
    by (auto simp: lock_conflict_def)
  with queued have held: "0 < held_by M (fst b) (a, w)" "0 < held_by M (fst b') (a, w')" by (auto simp: held_by_pos)
  have "\<forall>t t'. 0 < held_by M t (a, True) \<longrightarrow> 0 < held_by M t' (a, True) \<or> 0 < held_by M t' (a, False) \<longrightarrow> t = t'"
    using thread_run_records [OF run] by (simp add: records_def entry_ok_def)
  with held a(3) queued(3) show False by (metis (full_types))
qed

text \<open>C30: Locking a batch in the thread-aware table never panics and picks its thread exactly:
  the candidates are the threads such that no batch queued on another thread conflicts; without a
  candidate the error tells of multiple conflicts, without an allowed candidate that the thread is not
  allowed, both leaving the table as it was, and otherwise the selector is given
  the allowed candidates and the batch is queued on the thread it selects.\<close>

theorem try_lock_accounts_exact:
  assumes run: "thread_run num l M" and small: "lock_total M + length ws + length rs < 2 ^ 32" and sel: "selects selector"
  shows "let candidates = {t. t < num \<and> can_take M ws rs t} in
    if candidates = {} then thread_try_lock_accounts l ws rs allowed selector = Some (Inl MultipleConflicts, l)
    else if candidates \<inter> threads allowed = {}
    then thread_try_lock_accounts l ws rs allowed selector = Some (Inl ThreadNotAllowed, l)
    else \<exists>s l'. threads s = candidates \<inter> threads allowed \<and>
      thread_try_lock_accounts l ws rs allowed selector = Some (Inr (selector s), l') \<and>
      thread_run num l' (add_mset (selector s, ws, rs) M)"
proof -
  from thread_run_records [OF run] have ok: "records l (held_by M)" "num_threads l = num" by simp_all
  from try_lock_cases [OF ok(1) small sel, of allowed] thread_run.queue [OF run small sel, of allowed] show ?thesis
    unfolding ok(2) Let_def by (auto split: if_splits)
qed

lemma entry_present:
  assumes "entry_ok entry w r"
  shows "entry \<noteq> None \<longleftrightarrow> (\<exists>t. 0 < w t \<or> 0 < r t)"
proof (cases entry)
  case (Some e)
  have ok: "write_ok (write_locks e) w" "read_ok (read_locks e) r" "write_locks e \<noteq> None \<or> read_locks e \<noteq> None"
    using assms Some by (simp_all add: entry_ok_def)
  have "\<exists>t. 0 < w t" if "write_locks e = Some writes" for writes using ok(1) that by (auto simp: write_ok_def)
  moreover have "\<exists>t. 0 < r t" if "read_locks e = Some reads" for reads using ok(2) that by (auto simp: read_ok_def)
  ultimately show ?thesis using ok(3) Some by blast
qed (use assms in \<open>simp add: entry_ok_def write_ok_def read_ok_def\<close>)

text \<open>C31: The table keeps its type: at every moment of a run an account has an entry exactly if a queued
  batch locks it, its read counts are an array of 64 counters whose non-zero ones are the bits of its thread set, its write
  count is positive, every thread in it is a worker thread, and unlocking a queued batch never panics. In
  particular nothing is left in the table once all batches are finished.\<close>

theorem thread_locks_well_formed:
  assumes run: "thread_run num l M"
  shows "dom (locks l) = {a. \<exists>b \<in># M. (a, True) \<in> set (batch_locks b) \<or> (a, False) \<in> set (batch_locks b)} \<and>
    (\<forall>a entry writes. locks l a = Some entry \<longrightarrow> write_locks entry = Some writes \<longrightarrow>
       thread_id writes < num \<and> 0 < lock_count writes) \<and>
    (\<forall>a entry reads. locks l a = Some entry \<longrightarrow> read_locks entry = Some reads \<longrightarrow>
       length (lock_counts reads) = MAX_THREADS \<and> threads (thread_set reads) \<subseteq> {..<num} \<and>
       threads (thread_set reads) = {t. t < MAX_THREADS \<and> lock_counts reads ! t \<noteq> 0}) \<and>
    (\<forall>(t, ws, rs) \<in># M. thread_unlock_accounts l ws rs t \<noteq> None)"
proof (intro conjI allI impI ballI)
  from thread_run_records [OF run] have ok: "records l (held_by M)" and num: "num_threads l = num" by simp_all
  then have e: "entry_ok (locks l a) (\<lambda>t. held_by M t (a, True)) (\<lambda>t. held_by M t (a, False))"
    and bound: "0 < held_by M t q \<Longrightarrow> t < num" for a t q unfolding records_def by blast+
  have "locks l a \<noteq> None \<longleftrightarrow> (\<exists>b \<in># M. (a, True) \<in> set (batch_locks b) \<or> (a, False) \<in> set (batch_locks b))" for a
    unfolding entry_present [OF e] held_by_pos by auto
  then show "dom (locks l) = {a. \<exists>b \<in># M. (a, True) \<in> set (batch_locks b) \<or> (a, False) \<in> set (batch_locks b)}"
    by (auto simp: dom_def)
  show "thread_id writes < num" "0 < lock_count writes" if "locks l a = Some entry" "write_locks entry = Some writes" for a entry writes
  proof -
    have "0 < held_by M (thread_id writes) (a, True)" "unat (lock_count writes) = held_by M (thread_id writes) (a, True)"
      using e [of a] that by (simp_all add: entry_ok_def write_ok_def)
    with bound show "thread_id writes < num" "0 < lock_count writes" by (auto simp: word_gt_0 unat_gt_0)
  qed
  show "length (lock_counts reads) = MAX_THREADS" "threads (thread_set reads) \<subseteq> {..<num}"
    "threads (thread_set reads) = {t. t < MAX_THREADS \<and> lock_counts reads ! t \<noteq> 0}"
    if "locks l a = Some entry" "read_locks entry = Some reads" for a entry reads
  proof -
    have reads: "threads (thread_set reads) = {t. 0 < held_by M t (a, False)}" "length (lock_counts reads) = 64"
      "\<forall>t < 64. unat (lock_counts reads ! t) = held_by M t (a, False)"
      using e [of a] that by (simp_all add: entry_ok_def read_ok_def)
    show "length (lock_counts reads) = MAX_THREADS" "threads (thread_set reads) \<subseteq> {..<num}"
      using reads(1,2) bound by (auto simp: MAX_THREADS_def)
    have "t \<in> threads (thread_set reads) \<longleftrightarrow> t < MAX_THREADS \<and> lock_counts reads ! t \<noteq> 0" for t
    proof (cases "t < 64")
      case True
      with reads show ?thesis by (auto simp: MAX_THREADS_def simp flip: unat_gt_0)
    qed (use threads_bound [of t "thread_set reads"] in \<open>auto simp: MAX_THREADS_def\<close>)
    then show "threads (thread_set reads) = {t. t < MAX_THREADS \<and> lock_counts reads ! t \<noteq> 0}" by blast
  qed
  show "case b of (t, ws, rs) \<Rightarrow> thread_unlock_accounts l ws rs t \<noteq> None" if "b \<in># M" for b
    using unlock_accounts_ok [OF ok, of "fst b" "fst (snd b)" "snd (snd b)"] that by (auto split: prod.split)
qed

section \<open>A run with two threads\<close>

lemma selects_lowest: "selects trailing_zeros"
  unfolding selects_def
proof (intro allI impI)
  fix s assume "threads s \<noteq> {}"
  then obtain t where "bit s t" by (auto simp: threads_def)
  moreover from this have "t < 64" using threads_bound [of t s] by (simp add: threads_def)
  ultimately obtain i where i: "find (bit s) [0..<64] = Some i" by (cases "find (bit s) [0..<64]") (auto simp: find_None_iff)
  then have "bit s i" by (auto simp: find_Some_iff)
  with i show "trailing_zeros s \<in> threads s" by (simp add: trailing_zeros_def threads_def)
qed

text \<open>Account 7 is written on thread 0 and account 8 is read on thread 1.\<close>

definition demo_selector :: "ThreadSet \<Rightarrow> ThreadId" where
  "demo_selector s = (if s = 1 then 0 else if s = 2 then 1 else trailing_zeros s)"

definition demo_locks :: ThreadAwareAccountLocks where
  "demo_locks = \<lparr>num_threads = 2, locks =
     [7 \<mapsto> \<lparr>write_locks = Some \<lparr>thread_id = 0, lock_count = 1\<rparr>, read_locks = None\<rparr>,
      8 \<mapsto> \<lparr>write_locks = None, read_locks = Some \<lparr>thread_set = 2, lock_counts = (replicate 64 0)[1 := 1]\<rparr>\<rparr>]\<rparr>"

lemma threads_small: "threads 1 = {0}" "threads 2 = {1}"
  using threads_ops(3) [of 0] threads_ops(3) [of 1] by (simp_all add: ts_only_def as_flag_def)

lemma selects_demo: "selects demo_selector"
  using selects_lowest by (auto simp: selects_def demo_selector_def threads_small)

lemma demo_run: "thread_run 2 demo_locks {#(1, [], [8]), (0, [7], [])#}"
proof -
  let ?l = "\<lparr>num_threads = 2, locks = Map.empty\<rparr>"
  let ?l1 = "\<lparr>num_threads = 2, locks = [7 \<mapsto> \<lparr>write_locks = Some \<lparr>thread_id = 0, lock_count = 1\<rparr>, read_locks = None\<rparr>]\<rparr>"
  note defs = thread_try_lock_accounts_def accounts_schedulable_threads_def schedulable_threads_def thread_lock_accounts_def
    write_lock_account_def read_lock_account_def entry_or_default_def ts_any_def ts_is_empty_def ts_none_def ts_only_def
    as_flag_def MAX_THREADS_def demo_selector_def
  have start: "thread_run 2 ?l {#}" by (rule thread_run.start) (simp add: ThreadAwareAccountLocks_new_def MAX_THREADS_def)
  have "thread_try_lock_accounts ?l [7] [] 1 demo_selector = Some (Inr 0, ?l1)" by (simp add: defs)
  from thread_run.queue [OF start _ selects_demo this] have first: "thread_run 2 ?l1 {#(0, [7], [])#}"
    by (simp add: lock_total_def)
  have "thread_try_lock_accounts ?l1 [] [8] 2 demo_selector = Some (Inr 1, demo_locks)" by (simp add: defs demo_locks_def)
  from thread_run.queue [OF first _ selects_demo this] show ?thesis by (simp add: lock_total_def batch_locks_def)
qed

theorem queued_batches_do_not_conflict_witness:
  "thread_run 2 demo_locks {#(1, [], [8]), (0, [7], [])#} \<and>
     \<not> lock_conflict (batch_locks (1, [], [8])) (batch_locks (0, [7], []))"
  using demo_run queued_batches_do_not_conflict [OF demo_run, of "(1, [], [8])" "(0, [7], [])"] by simp

text \<open>Reading account 7 is possible on thread 0 only, which is not allowed here.\<close>

theorem try_lock_accounts_exact_witness:
  "thread_try_lock_accounts demo_locks [] [7] 2 demo_selector = Some (Inl ThreadNotAllowed, demo_locks)"
proof -
  have candidates: "{t. t < 2 \<and> can_take {#(1, [], [8]), (0, [7], [])#} [] [7] t} = {0}"
    by (auto simp: can_take_def lock_conflict_def batch_locks_def less_2_cases_iff)
  have "lock_total {#(1, [], [8]), (0, [7], [])#} + length [] + length [7] < 2 ^ 32"
    by (simp add: lock_total_def batch_locks_def)
  from try_lock_accounts_exact [OF demo_run this selects_demo, of 2] show ?thesis
    unfolding candidates Let_def threads_small by simp
qed

theorem thread_locks_well_formed_witness:
  "dom (locks demo_locks) = {7, 8} \<and> thread_unlock_accounts demo_locks [7] [] 0 \<noteq> None"
  using thread_locks_well_formed [OF demo_run] by (auto simp: batch_locks_def)

end
