(* ===== verification/MerkleTree.thy ===== *)
theory MerkleTree
  imports Prelude
begin

text \<open>
  The Merkle tree over the transactions of an entry, \<^verbatim>\<open>merkle-tree/src/merkle_tree.rs\<close>, and
  the levels of such trees. The hash function of the hasher crate is an argument. An index out of range
  or a failed assertion is \<^term>\<open>None\<close>. The capacity computed for the vector of nodes is left out.
\<close>

section \<open>Bytes of a hash\<close>

type_synonym hasher = "u8 list list \<Rightarrow> Hash"

definition hash_bytes :: "Hash \<Rightarrow> u8 list" where
  "hash_bytes h = map (\<lambda>i. ucast (drop_bit (8 * (31 - i)) h)) [0..<32]"

lemma length_hash_bytes [simp]: "length (hash_bytes h) = 32"
  by (simp add: hash_bytes_def)

definition index_into :: "'a list \<Rightarrow> nat \<Rightarrow> 'a option" where
  "index_into xs i = (if i < length xs then Some (xs ! i) else None)"

lemma index_into_Some [simp]: "i < length xs \<Longrightarrow> index_into xs i = Some (xs ! i)"
  by (simp add: index_into_def)

section \<open>Operations\<close>

definition LEAF_PREFIX :: "u8 list" where "LEAF_PREFIX = [0]"
definition INTERMEDIATE_PREFIX :: "u8 list" where "INTERMEDIATE_PREFIX = [1]"

definition hash_leaf :: "hasher \<Rightarrow> u8 list \<Rightarrow> Hash" where
  "hash_leaf hashv d = hashv [LEAF_PREFIX, d]"

definition hash_intermediate :: "hasher \<Rightarrow> Hash \<Rightarrow> Hash \<Rightarrow> Hash" where
  "hash_intermediate hashv l r = hashv [INTERMEDIATE_PREFIX, hash_bytes l, hash_bytes r]"

record MerkleTree =
  leaf_count :: nat
  nodes :: "Hash list"

datatype ProofEntry = ProofEntry (target: Hash) (left_sibling: "Hash option") (right_sibling: "Hash option")

definition ProofEntry_new :: "Hash \<Rightarrow> Hash option \<Rightarrow> Hash option \<Rightarrow> ProofEntry option" where
  "ProofEntry_new t l r = (if (l = None) \<noteq> (r = None) then Some (ProofEntry t l r) else None)"

fun Proof_verify :: "hasher \<Rightarrow> ProofEntry list \<Rightarrow> Hash \<Rightarrow> bool" where
  "Proof_verify hashv [] candidate = True"
| "Proof_verify hashv (ProofEntry t l r # entries) candidate =
     (let lsib = (case l of Some h \<Rightarrow> h | None \<Rightarrow> candidate);
          rsib = (case r of Some h \<Rightarrow> h | None \<Rightarrow> candidate);
          hash = hash_intermediate hashv lsib rsib
      in if hash = t then Proof_verify hashv entries hash else False)"

definition next_level_len :: "nat \<Rightarrow> nat" where
  "next_level_len level_len = (if level_len = 1 then 0 else (level_len + 1) div 2)"

definition parent_hash :: "hasher \<Rightarrow> bool \<Rightarrow> Hash \<Rightarrow> Hash \<Rightarrow> Hash" where
  "parent_hash hashv sorted_hashes lsib rsib =
     (if sorted_hashes
      then if lsib \<le> rsib then hash_intermediate hashv lsib rsib else hash_intermediate hashv rsib lsib
      else hash_intermediate hashv lsib rsib)"

text \<open>The inner loop of \<open>new\<close>, over the nodes of a level.\<close>

fun push_level :: "hasher \<Rightarrow> bool \<Rightarrow> nat \<Rightarrow> nat \<Rightarrow> Hash list \<Rightarrow> nat list \<Rightarrow> Hash list option" where
  "push_level hashv sorted_hashes prev_level_start prev_level_len ns [] = Some ns"
| "push_level hashv sorted_hashes prev_level_start prev_level_len ns (i # is) = do {
     lsib \<leftarrow> index_into ns (prev_level_start + 2 * i);
     rsib \<leftarrow> index_into ns (prev_level_start + (if 2 * i + 1 < prev_level_len then 2 * i + 1 else 2 * i));
     push_level hashv sorted_hashes prev_level_start prev_level_len
       (ns @ [parent_hash hashv sorted_hashes lsib rsib]) is }"

lemma next_level_less: "0 < next_level_len n \<Longrightarrow> next_level_len n < n"
  by (auto simp: next_level_len_def split: if_splits)

function push_levels :: "hasher \<Rightarrow> bool \<Rightarrow> nat \<Rightarrow> nat \<Rightarrow> nat \<Rightarrow> nat \<Rightarrow> Hash list \<Rightarrow> Hash list option" where
  "push_levels hashv sorted_hashes level_len level_start prev_level_len prev_level_start ns =
     (if 0 < level_len
      then do {
        ns \<leftarrow> push_level hashv sorted_hashes prev_level_start prev_level_len ns [0..<level_len];
        push_levels hashv sorted_hashes (next_level_len level_len) (level_start + level_len) level_len level_start ns }
      else Some ns)"
  by pat_completeness auto
termination
proof (relation "measure (\<lambda>(_, _, level_len, _, _, _, _). level_len)")
  fix hashv sorted_hashes level_start prev_level_len prev_level_start ns x and level_len :: nat
  assume "0 < level_len"
  then show "((hashv, sorted_hashes, next_level_len level_len, level_start + level_len, level_len, level_start, x),
      hashv, sorted_hashes, level_len, level_start, prev_level_len, prev_level_start, ns)
      \<in> measure (\<lambda>(_, _, level_len, _, _, _, _). level_len)"
    using next_level_less [of level_len] by (cases "next_level_len level_len") auto
qed simp

declare push_levels.simps [simp del]

definition MerkleTree_new :: "hasher \<Rightarrow> u8 list list \<Rightarrow> bool \<Rightarrow> MerkleTree option" where
  "MerkleTree_new hashv items sorted_hashes = do {
     ns \<leftarrow> push_levels hashv sorted_hashes (next_level_len (length items)) (length items) (length items) 0
       (map (hash_leaf hashv) items);
     Some \<lparr>leaf_count = length items, nodes = ns\<rparr> }"

definition get_root :: "MerkleTree \<Rightarrow> Hash option" where
  "get_root t = (if nodes t = [] then None else Some (last (nodes t)))"

text \<open>The loop of \<open>find_path\<close>; \<open>sibs\<close> are the siblings seen on the level below.\<close>

function path_levels ::
    "Hash list \<Rightarrow> nat \<Rightarrow> nat \<Rightarrow> nat \<Rightarrow> Hash option \<times> Hash option \<Rightarrow> ProofEntry list \<Rightarrow> ProofEntry list option" where
  "path_levels ns level_len level_start node_index sibs path =
     (if 0 < level_len
      then if level_start + level_len \<le> length ns
        then (let level = take level_len (drop level_start ns); (lsib, rsib) = sibs in do {
          target \<leftarrow> index_into level node_index;
          path \<leftarrow> (if lsib \<noteq> None \<or> rsib \<noteq> None
                    then map_option (\<lambda>e. path @ [e]) (ProofEntry_new target lsib rsib) else Some path);
          sibs \<leftarrow> (if even node_index
                    then map_option (\<lambda>r. (None, Some r))
                           (index_into level (if node_index + 1 < length level then node_index + 1 else node_index))
                    else map_option (\<lambda>l. (Some l, None)) (index_into level (node_index - 1)));
          path_levels ns (next_level_len level_len) (level_start + level_len) (node_index div 2) sibs path })
        else None
      else Some path)"
  by pat_completeness auto
termination
proof (relation "measure (\<lambda>(_, level_len, _, _, _, _). level_len)", simp, goal_cases)
  case 1
  then show ?case using next_level_less by (metis (no_types, lifting) case_prod_conv gr0I in_measure)
qed

declare path_levels.simps [simp del]

definition find_path :: "MerkleTree \<Rightarrow> nat \<Rightarrow> ProofEntry list option option" where
  "find_path t index =
     (if index \<ge> leaf_count t then Some None
      else map_option Some (path_levels (nodes t) (leaf_count t) 0 index (None, None) []))"

section \<open>Levels\<close>

fun pair_up :: "('a \<Rightarrow> 'a \<Rightarrow> 'a) \<Rightarrow> 'a list \<Rightarrow> 'a list" where
  "pair_up join [] = []"
| "pair_up join [x] = [join x x]"
| "pair_up join (x # y # xs) = join x y # pair_up join xs"

lemma length_pair_up [simp]: "length (pair_up join xs) = (length xs + 1) div 2"
  by (induction join xs rule: pair_up.induct) auto

lemma nth_pair_up:
  assumes "2 * i < length xs"
  shows "pair_up join xs ! i = join (xs ! (2 * i)) (xs ! (if 2 * i + 1 < length xs then 2 * i + 1 else 2 * i))"
  using assms
proof (induction join xs arbitrary: i rule: pair_up.induct)
  case (3 join x y xs)
  show ?case
  proof (cases i)
    case (Suc j)
    with "3.prems" have "2 * j < length xs" by simp
    from "3.IH" [OF this] Suc show ?thesis by simp
  qed simp
qed simp_all

function merkle_nodes :: "('a \<Rightarrow> 'a \<Rightarrow> 'a) \<Rightarrow> 'a list \<Rightarrow> 'a list" where
  "merkle_nodes join xs = xs @ (if 1 < length xs then merkle_nodes join (pair_up join xs) else [])"
  by pat_completeness auto
termination by (relation "measure (\<lambda>(_, xs). length xs)") auto

declare merkle_nodes.simps [simp del]

lemma merkle_nodes_Nil [simp]: "merkle_nodes join [] = []"
  by (simp add: merkle_nodes.simps)

function merkle_root :: "('a \<Rightarrow> 'a \<Rightarrow> 'a) \<Rightarrow> 'a list \<Rightarrow> 'a" where
  "merkle_root join xs = (if 1 < length xs then merkle_root join (pair_up join xs) else hd xs)"
  by pat_completeness auto
termination by (relation "measure (\<lambda>(_, xs). length xs)") auto

declare merkle_root.simps [simp del]

lemma merkle_nodes_last: "xs \<noteq> [] \<Longrightarrow> merkle_nodes join xs \<noteq> [] \<and> last (merkle_nodes join xs) = merkle_root join xs"
proof (induction join xs rule: merkle_nodes.induct)
  case (1 join xs)
  show ?case
  proof (cases "1 < length xs")
    case True
    then have "pair_up join xs \<noteq> []" using length_pair_up [of join xs] by (cases "pair_up join xs") auto
    with "1.IH" [OF True] True show ?thesis by (subst (1 2) merkle_nodes.simps, subst merkle_root.simps) simp
  next
    case False
    with "1.prems" obtain x where "xs = [x]" by (cases xs) auto
    then show ?thesis by (simp add: merkle_nodes.simps merkle_root.simps)
  qed
qed

lemma pair_up_sibling:
  assumes "i < length xs"
  shows "pair_up join xs ! (i div 2) =
    (if even i then join (xs ! i) (xs ! (if i + 1 < length xs then i + 1 else i)) else join (xs ! (i - 1)) (xs ! i))"
proof (cases "even i")
  case True
  then obtain j where "i = 2 * j" by blast
  with assms nth_pair_up [of j xs join] show ?thesis by simp
next
  case False
  then obtain j where "i = 2 * j + 1" by (blast elim: oddE)
  with assms nth_pair_up [of j xs join] show ?thesis by simp
qed

section \<open>What the loops compute\<close>

lemma push_level_eq:
  assumes "j \<le> (length level + 1) div 2"
  shows "push_level hashv sorted_hashes (length pre) (length level)
      (pre @ level @ take j (pair_up (parent_hash hashv sorted_hashes) level)) [j..<(length level + 1) div 2] =
    Some (pre @ level @ pair_up (parent_hash hashv sorted_hashes) level)"
  using assms
proof (induction "(length level + 1) div 2 - j" arbitrary: j)
  case (Suc n)
  let ?J = "parent_hash hashv sorted_hashes" and ?m = "(length level + 1) div 2"
  let ?ns = "pre @ level @ take j (pair_up ?J level)"
  from Suc.hyps(2) have j: "j < ?m" by simp
  then have bound: "2 * j < length level" by linarith
  have nth: "index_into ?ns (length pre + k) = Some (level ! k)" if "k < length level" for k
    using that by (simp add: index_into_def nth_append)
  have "take (Suc j) (pair_up ?J level) = take j (pair_up ?J level) @ [pair_up ?J level ! j]"
    using j by (intro take_Suc_conv_app_nth) simp
  then have "push_level hashv sorted_hashes (length pre) (length level) ?ns [j..<?m] =
      push_level hashv sorted_hashes (length pre) (length level) (pre @ level @ take (Suc j) (pair_up ?J level)) [Suc j..<?m]"
    using bound j by (simp add: upt_conv_Cons nth_append nth_pair_up)
  with Suc.hyps(1) [of "Suc j"] Suc.hyps(2) show ?case by simp
qed simp

lemma push_levels_eq:
  "level \<noteq> [] \<Longrightarrow>
   push_levels hashv sorted_hashes (next_level_len (length level)) (length pre + length level) (length level) (length pre)
     (pre @ level) = Some (pre @ merkle_nodes (parent_hash hashv sorted_hashes) level)"
proof (induction "length level" arbitrary: level pre rule: less_induct)
  case less
  let ?J = "parent_hash hashv sorted_hashes"
  show ?case
  proof (cases "1 < length level")
    case True
    let ?next = "pair_up ?J level"
    have len: "next_level_len (length level) = length ?next" "length ?next < length level" "?next \<noteq> []" "0 < length ?next"
      using True by (auto simp: next_level_len_def simp flip: length_0_conv)
    from push_level_eq [of 0 level hashv sorted_hashes pre] len(1)
    have "push_level hashv sorted_hashes (length pre) (length level) (pre @ level) [0..<length ?next] = Some (pre @ level @ ?next)"
      by simp
    with less.hyps [OF len(2,3), of "pre @ level"] len(4) True show ?thesis
      unfolding len(1) by (subst push_levels.simps, subst merkle_nodes.simps) simp
  next
    case False
    with less.prems have "length level = 1" by (cases level) auto
    then show ?thesis by (simp add: next_level_len_def push_levels.simps merkle_nodes.simps)
  qed
qed

lemma MerkleTree_new_eq:
  "MerkleTree_new hashv items sorted_hashes = Some \<lparr>leaf_count = length items,
     nodes = merkle_nodes (parent_hash hashv sorted_hashes) (map (hash_leaf hashv) items)\<rparr>"
proof (cases "items = []")
  case True
  then show ?thesis by (simp add: MerkleTree_new_def next_level_len_def push_levels.simps merkle_nodes.simps)
next
  case False
  with push_levels_eq [of "map (hash_leaf hashv) items" hashv sorted_hashes "[]"] show ?thesis
    by (simp add: MerkleTree_new_def)
qed

text \<open>The siblings on a level, and the path up from a node.\<close>

definition siblings :: "Hash list \<Rightarrow> nat \<Rightarrow> Hash option \<times> Hash option" where
  "siblings level i =
     (if even i then (None, Some (level ! (if i + 1 < length level then i + 1 else i))) else (Some (level ! (i - 1)), None))"

function path_of :: "(Hash \<Rightarrow> Hash \<Rightarrow> Hash) \<Rightarrow> Hash list \<Rightarrow> nat \<Rightarrow> ProofEntry list" where
  "path_of join level i =
     (if 1 < length level
      then ProofEntry (pair_up join level ! (i div 2)) (fst (siblings level i)) (snd (siblings level i)) #
        path_of join (pair_up join level) (i div 2)
      else [])"
  by pat_completeness auto
termination by (relation "measure (\<lambda>(_, level, _). length level)") auto

declare path_of.simps [simp del]

definition entry_for :: "Hash \<Rightarrow> Hash option \<times> Hash option \<Rightarrow> ProofEntry list" where
  "entry_for t sibs = (if sibs = (None, None) then [] else [ProofEntry t (fst sibs) (snd sibs)])"

lemma siblings_one: "(fst (siblings level i) = None) \<noteq> (snd (siblings level i) = None)"
  by (simp add: siblings_def)

lemma path_levels_eq:
  assumes "i < length level" and "sibs = (None, None) \<or> (fst sibs = None) \<noteq> (snd sibs = None)"
  shows "path_levels (pre @ merkle_nodes join level) (length level) (length pre) i sibs path =
    Some (path @ entry_for (level ! i) sibs @ path_of join level i)"
  using assms
proof (induction "length level" arbitrary: level pre i sibs path rule: less_induct)
  case less
  let ?ns = "pre @ merkle_nodes join level"
  have len: "length level > 0" "length pre + length level \<le> length ?ns"
    using less.prems(1) by (auto simp: merkle_nodes.simps [of join level])
  have level: "take (length level) (drop (length pre) ?ns) = level" by (simp add: merkle_nodes.simps [of join level])
  obtain l r where sibs: "sibs = (l, r)" by fastforce
  have entry: "(if l \<noteq> None \<or> r \<noteq> None then map_option (\<lambda>e. path @ [e]) (ProofEntry_new (level ! i) l r) else Some path) =
      Some (path @ entry_for (level ! i) sibs)"
    using less.prems(2) by (auto simp: sibs entry_for_def ProofEntry_new_def)
  have next_sibs: "(if even i then map_option (\<lambda>r. (None, Some r)) (index_into level (if i + 1 < length level then i + 1 else i))
      else map_option (\<lambda>l. (Some l, None)) (index_into level (i - 1))) = Some (siblings level i)"
    using less.prems(1) by (simp add: siblings_def)
  have step: "path_levels ?ns (length level) (length pre) i sibs path =
      path_levels ?ns (next_level_len (length level)) (length pre + length level) (i div 2) (siblings level i)
        (path @ entry_for (level ! i) sibs)"
    using entry [unfolded sibs]
    by (subst path_levels.simps)
      (simp only: len less.prems(1) level sibs if_True Let_def prod.case index_into_Some next_sibs bind.simps)
  show ?case
  proof (cases "1 < length level")
    case True
    let ?next = "pair_up join level"
    have next_len: "length ?next < length level" "i div 2 < length ?next" "next_level_len (length level) = length ?next"
      using True less.prems(1) by (auto simp: next_level_len_def)
    have ns: "?ns = (pre @ level) @ merkle_nodes join ?next" using True by (subst merkle_nodes.simps) simp
    have "siblings level i \<noteq> (None, None)" by (simp add: siblings_def)
    with less.hyps [OF next_len(1,2), of "siblings level i" "pre @ level" "path @ entry_for (level ! i) sibs"]
    show ?thesis
      unfolding step unfolding next_len(3) ns
      using siblings_one [of level i] True by (simp add: path_of.simps [of join level] entry_for_def)
  next
    case False
    with len(1) have one: "length level = 1" by linarith
    then show ?thesis unfolding step by (simp add: next_level_len_def path_levels.simps path_of.simps)
  qed
qed

lemma verify_path:
  "i < length level \<Longrightarrow> Proof_verify hashv (path_of (hash_intermediate hashv) level i) (level ! i)"
proof (induction "length level" arbitrary: level i rule: less_induct)
  case less
  show ?case
  proof (cases "1 < length level")
    case True
    let ?J = "hash_intermediate hashv"
    have "length (pair_up ?J level) < length level" "i div 2 < length (pair_up ?J level)" using True less.prems by auto
    note rest = less.hyps [OF this]
    have "hash_intermediate hashv (case fst (siblings level i) of Some h \<Rightarrow> h | None \<Rightarrow> level ! i)
        (case snd (siblings level i) of Some h \<Rightarrow> h | None \<Rightarrow> level ! i) = pair_up ?J level ! (i div 2)"
      unfolding pair_up_sibling [OF less.prems] by (simp add: siblings_def)
    with rest True show ?thesis by (subst path_of.simps) simp
  qed (simp add: path_of.simps)
qed

lemma path_ends_at_root:
  "i < length level \<Longrightarrow> last (map target (ProofEntry (level ! i) None None # path_of join level i)) = merkle_root join level"
proof (induction "length level" arbitrary: level i rule: less_induct)
  case less
  show ?case
  proof (cases "1 < length level")
    case True
    have "length (pair_up join level) < length level" "i div 2 < length (pair_up join level)" using True less.prems by auto
    from less.hyps [OF this] True show ?thesis
      by (subst path_of.simps, subst merkle_root.simps) simp
  next
    case False
    with less.prems have "i = 0" "length level = 1" by auto
    then show ?thesis by (simp add: path_of.simps merkle_root.simps hd_conv_nth flip: length_0_conv)
  qed
qed


text \<open>A hasher for examples: the sum of the bytes, twice as much for the last part.\<close>

definition demo_hasher :: hasher where
  "demo_hasher parts = (\<Sum>b \<leftarrow> concat parts @ last parts. ucast b)"


text \<open>
  With sorted hashing a parent does not depend on the order of its children, but the verification of a
  path hashes them in order: a path through a pair of children in descending order is rejected.
\<close>

lemma sorted_path_rejected:
  assumes "hash_leaf hashv b < hash_leaf hashv a"
    and "hash_intermediate hashv (hash_leaf hashv a) (hash_leaf hashv b) \<noteq> hash_intermediate hashv (hash_leaf hashv b) (hash_leaf hashv a)"
  shows "\<exists>t path. MerkleTree_new hashv [a, b] True = Some t \<and> find_path t 0 = Some (Some path) \<and>
    \<not> Proof_verify hashv path (hash_leaf hashv a)"
proof -
  let ?J = "parent_hash hashv True" and ?leaves = "map (hash_leaf hashv) [a, b]"
  have path: "path_of ?J ?leaves 0 = [ProofEntry (?J (hash_leaf hashv a) (hash_leaf hashv b)) None (Some (hash_leaf hashv b))]"
    by (simp add: path_of.simps siblings_def)
  have "find_path \<lparr>leaf_count = 2, nodes = merkle_nodes ?J ?leaves\<rparr> 0 = Some (Some (path_of ?J ?leaves 0))"
    using path_levels_eq [of 0 ?leaves "(None, None)" "[]" ?J "[]"] by (simp add: find_path_def entry_for_def numeral_2_eq_2)
  moreover have "\<not> Proof_verify hashv (path_of ?J ?leaves 0) (hash_leaf hashv a)"
    unfolding path using assms by (simp add: parent_hash_def Let_def)
  ultimately show ?thesis using MerkleTree_new_eq [of hashv "[a, b]" True] by (auto simp: numeral_2_eq_2)
qed

end
