(* ===== verification/ShredMerkle.thy ===== *)
theory ShredMerkle
  imports MerkleTree
begin

text \<open>
  The Merkle tree over the shreds of an erasure batch, \<^verbatim>\<open>ledger/src/shred/merkle_tree.rs\<close>:
  construction, proofs and recovery of the root. Nodes are joined by the first 20 bytes of their hashes.
  The hasher is an argument; sizes and indices are those of vectors in memory. An iterator of
  results is modelled by collecting it up to its first error. The lemmas show that proofs lead to the
  root, for which arguments they exist, and that a wrong proof exhibits a collision of the hasher.
\<close>

unbundle bit_operations_syntax

section \<open>Operations\<close>

text \<open>The errors of shreds; the causes carried by errors of other crates are left out.\<close>

datatype ShredError = WincodeRead | WincodeWrite | Erasure | InvalidDataSize u16 usize | InvalidDeshredSet
  | InvalidErasureConfig | InvalidErasureShardIndex | InvalidMerkleProof | InvalidMerkleRoot
  | InvalidNumCodingShreds u16 | InvalidParentOffset Slot u16 | InvalidParentSlot Slot Slot | InvalidPayloadSize usize
  | InvalidProofSize u8 | InvalidRecoveredShred | InvalidShardSize usize | InvalidShredFlags u8 | InvalidShredIndex bool u32
  | InvalidShredType | InvalidShredVariant | InvalidPacketSize | Io | UnknownProofSize | EmptyIterator

type_synonym MerkleProofEntry = "u8 list"

definition SIZE_OF_MERKLE_PROOF_ENTRY :: nat where "SIZE_OF_MERKLE_PROOF_ENTRY = 20"

definition MERKLE_HASH_PREFIX_NODE :: "u8 list" where
  "MERKLE_HASH_PREFIX_NODE = 1 # map of_char ''SOLANA_MERKLE_SHREDS_NODE''"

record ShredMerkleTree =
  shred_nodes :: "Hash list"

definition join_nodes :: "hasher \<Rightarrow> u8 list \<Rightarrow> u8 list \<Rightarrow> Hash" where
  "join_nodes hashv node other =
     hashv [MERKLE_HASH_PREFIX_NODE, take SIZE_OF_MERKLE_PROOF_ENTRY node, take SIZE_OF_MERKLE_PROOF_ENTRY other]"

fun push_nodes :: "Hash list \<Rightarrow> (ShredError + Hash) list \<Rightarrow> ShredError + Hash list" where
  "push_nodes ns [] = Inr ns"
| "push_nodes ns (Inl e # shreds) = Inl e"
| "push_nodes ns (Inr h # shreds) = push_nodes (ns @ [h]) shreds"

text \<open>The inner loop of \<open>try_new\<close>, over every second index of a level.\<close>

fun push_parents :: "hasher \<Rightarrow> nat \<Rightarrow> Hash list \<Rightarrow> nat list \<Rightarrow> Hash list option" where
  "push_parents hashv stop ns [] = Some ns"
| "push_parents hashv stop ns (index # indices) = do {
     node \<leftarrow> index_into ns index;
     other \<leftarrow> index_into ns (min (index + 1) (stop - 1));
     push_parents hashv stop (ns @ [join_nodes hashv (hash_bytes node) (hash_bytes other)]) indices }"

definition step_by_two :: "nat \<Rightarrow> nat \<Rightarrow> nat list" where
  "step_by_two start stop = map (\<lambda>k. start + 2 * k) [0..<(stop - start + 1) div 2]"

function push_all_parents :: "hasher \<Rightarrow> Hash list \<Rightarrow> nat \<Rightarrow> Hash list option" where
  "push_all_parents hashv ns width = do {
     let offset = length ns - width;
     ns \<leftarrow> push_parents hashv (offset + width) ns (step_by_two offset (offset + width));
     if 2 < width then push_all_parents hashv ns ((width + 1) div 2) else Some ns }"
  by pat_completeness auto
termination by (relation "measure (\<lambda>(_, _, width). width)") auto

declare push_all_parents.simps [simp del]

definition try_new :: "hasher \<Rightarrow> (ShredError + Hash) list \<Rightarrow> (ShredError + ShredMerkleTree) option" where
  "try_new hashv shreds =
     (if length shreds = 0 then Some (Inl EmptyIterator)
      else (case push_nodes [] shreds of
              Inl e \<Rightarrow> Some (Inl e)
            | Inr ns \<Rightarrow> do {
                ns \<leftarrow> (if 1 < length shreds then push_all_parents hashv ns (length shreds) else Some ns);
                Some (Inr \<lparr>shred_nodes = ns\<rparr>) }))"

definition root :: "ShredMerkleTree \<Rightarrow> Hash option" where
  "root t = (if shred_nodes t = [] then None else Some (last (shred_nodes t)))"

function proof_entries :: "Hash list \<Rightarrow> nat \<Rightarrow> nat \<Rightarrow> nat \<Rightarrow> ShredError + MerkleProofEntry list" where
  "proof_entries ns offset width index =
     (if 1 < width
      then (case index_into ns (offset + min (index XOR 1) (width - 1)) of
              None \<Rightarrow> Inl InvalidMerkleProof
            | Some node \<Rightarrow>
                map_sum id (\<lambda>entries. take SIZE_OF_MERKLE_PROOF_ENTRY (hash_bytes node) # entries)
                  (proof_entries ns (offset + width) ((width + 1) div 2) (index div 2)))
      else if offset + 1 = length ns then Inr [] else Inl InvalidMerkleProof)"
  by pat_completeness auto
termination by (relation "measure (\<lambda>(_, _, width, _). width)") auto

declare proof_entries.simps [simp del]

definition make_merkle_proof :: "ShredMerkleTree \<Rightarrow> nat \<Rightarrow> nat \<Rightarrow> ShredError + MerkleProofEntry list" where
  "make_merkle_proof t index width =
     (let (width, offset) = (if index \<ge> width then (0, length (shred_nodes t)) else (width, 0))
      in proof_entries (shred_nodes t) offset width index)"

definition climb :: "hasher \<Rightarrow> nat \<times> Hash \<Rightarrow> MerkleProofEntry \<Rightarrow> nat \<times> Hash" where
  "climb hashv = (\<lambda>(index, node) other.
     (index div 2,
      if index mod 2 = 0 then join_nodes hashv (hash_bytes node) other else join_nodes hashv other (hash_bytes node)))"

definition get_merkle_root :: "hasher \<Rightarrow> nat \<Rightarrow> Hash \<Rightarrow> MerkleProofEntry list \<Rightarrow> ShredError + Hash" where
  "get_merkle_root hashv index node proof_items =
     (let (index, root) = foldl (climb hashv) (index, node) proof_items
      in if index = 0 then Inr root else Inl InvalidMerkleProof)"

function get_merkle_tree_size :: "nat \<Rightarrow> nat" where
  "get_merkle_tree_size num_shreds =
     num_shreds + (if 1 < num_shreds then get_merkle_tree_size ((num_shreds + 1) div 2) else 0)"
  by pat_completeness auto
termination by (relation "measure id") auto

declare get_merkle_tree_size.simps [simp del]

section \<open>Construction\<close>

abbreviation join :: "hasher \<Rightarrow> Hash \<Rightarrow> Hash \<Rightarrow> Hash" where
  "join hashv l r \<equiv> join_nodes hashv (hash_bytes l) (hash_bytes r)"

lemma push_nodes_ok: "push_nodes ns (map Inr leaves) = Inr (ns @ leaves)"
  by (induction leaves arbitrary: ns) auto

lemma push_nodes_error: "push_nodes ns (map Inr leaves @ Inl e # shreds) = Inl e"
  by (induction leaves arbitrary: ns) auto

lemma push_parents_eq:
  assumes "j \<le> (length level + 1) div 2"
  shows "push_parents hashv (length pre + length level) (pre @ level @ take j (pair_up (join hashv) level))
      (map (\<lambda>k. length pre + 2 * k) [j..<(length level + 1) div 2]) =
    Some (pre @ level @ pair_up (join hashv) level)"
  using assms
proof (induction "(length level + 1) div 2 - j" arbitrary: j)
  case (Suc n)
  let ?J = "join hashv" and ?m = "(length level + 1) div 2"
  let ?ns = "pre @ level @ take j (pair_up ?J level)"
  from Suc.hyps(2) have j: "j < ?m" by simp
  then have bound: "2 * j < length level" by linarith
  have nth: "index_into ?ns (length pre + k) = Some (level ! k)" if "k < length level" for k
    using that by (simp add: index_into_def nth_append)
  have other: "min (length pre + 2 * j + 1) (length pre + length level - 1) =
      length pre + (if 2 * j + 1 < length level then 2 * j + 1 else 2 * j)" using bound by auto
  have "take (Suc j) (pair_up ?J level) = take j (pair_up ?J level) @ [pair_up ?J level ! j]"
    using j by (intro take_Suc_conv_app_nth) simp
  then have "push_parents hashv (length pre + length level) ?ns (map (\<lambda>k. length pre + 2 * k) [j..<?m]) =
      push_parents hashv (length pre + length level) (pre @ level @ take (Suc j) (pair_up ?J level))
        (map (\<lambda>k. length pre + 2 * k) [Suc j..<?m])"
    using bound j nth [of "2 * j"] nth [of "if 2 * j + 1 < length level then 2 * j + 1 else 2 * j"] nth_pair_up [OF bound, of ?J]
    by (simp only: upt_conv_Cons list.map push_parents.simps other bind.simps) simp
  with Suc.hyps(1) [of "Suc j"] Suc.hyps(2) show ?case by simp
qed simp

lemma push_all_parents_eq:
  "1 < length level \<Longrightarrow> push_all_parents hashv (pre @ level) (length level) = Some (pre @ merkle_nodes (join hashv) level)"
proof (induction "length level" arbitrary: level pre rule: less_induct)
  case less
  let ?J = "join hashv"
  let ?next = "pair_up ?J level"
  have "step_by_two (length pre) (length pre + length level) = map (\<lambda>k. length pre + 2 * k) [0..<(length level + 1) div 2]"
    by (simp add: step_by_two_def)
  with push_parents_eq [of 0 level hashv pre] have
    parents: "push_parents hashv (length pre + length level) (pre @ level) (step_by_two (length pre) (length pre + length level)) =
      Some ((pre @ level) @ ?next)" by simp
  have nodes: "pre @ merkle_nodes ?J level = (pre @ level) @ merkle_nodes ?J ?next"
    using less.prems by (subst merkle_nodes.simps) simp
  show ?case
  proof (cases "2 < length level")
    case True
    then have "length ?next < length level" "1 < length ?next" by auto
    from less.hyps [OF this, of "pre @ level"] True show ?thesis
      unfolding nodes by (subst push_all_parents.simps) (simp add: parents [simplified])
  next
    case False
    with less.prems have two: "length level = 2" by simp
    then have "merkle_nodes ?J ?next = ?next" by (subst merkle_nodes.simps) simp
    with parents [unfolded two] two show ?thesis
      unfolding nodes by (subst push_all_parents.simps) (simp add: Let_def)
  qed
qed

lemma try_new_eq:
  assumes "leaves \<noteq> []"
  shows "try_new hashv (map Inr leaves) = Some (Inr \<lparr>shred_nodes = merkle_nodes (join hashv) leaves\<rparr>)"
proof (cases "1 < length leaves")
  case True
  with push_all_parents_eq [OF this, of hashv "[]"] assms show ?thesis by (simp add: try_new_def push_nodes_ok)
next
  case False
  then have "merkle_nodes (join hashv) leaves = leaves" by (subst merkle_nodes.simps) simp
  with False assms show ?thesis by (simp add: try_new_def push_nodes_ok)
qed

lemma length_merkle_nodes: "length (merkle_nodes f xs) = get_merkle_tree_size (length xs)"
proof (induction f xs rule: merkle_nodes.induct)
  case (1 f xs)
  then show ?case by (subst merkle_nodes.simps, subst get_merkle_tree_size.simps) simp
qed

lemma tree_size_mono: "m < n \<Longrightarrow> get_merkle_tree_size m < get_merkle_tree_size n"
proof (induction n arbitrary: m rule: less_induct)
  case (less n)
  have "get_merkle_tree_size ((m + 1) div 2) \<le> get_merkle_tree_size ((n + 1) div 2)" if "1 < m"
  proof (cases "(m + 1) div 2 = (n + 1) div 2")
    case False
    with less.prems have "(m + 1) div 2 < (n + 1) div 2" by linarith
    moreover have "(n + 1) div 2 < n" using less.prems that by linarith
    ultimately show ?thesis using less.IH [of "(n + 1) div 2" "(m + 1) div 2"] by simp
  qed simp
  with less.prems show ?case
    by (subst (1 2) get_merkle_tree_size.simps) auto
qed

lemma tree_size_inject: "get_merkle_tree_size m = get_merkle_tree_size n \<Longrightarrow> m = n"
  using tree_size_mono [of m n] tree_size_mono [of n m] by (cases m n rule: linorder_cases) auto

section \<open>Proofs\<close>

definition sibling :: "Hash list \<Rightarrow> nat \<Rightarrow> Hash" where
  "sibling level i = level ! min (i XOR 1) (length level - 1)"

abbreviation entry :: "Hash \<Rightarrow> MerkleProofEntry" where
  "entry h \<equiv> take SIZE_OF_MERKLE_PROOF_ENTRY (hash_bytes h)"

function proof_of :: "hasher \<Rightarrow> Hash list \<Rightarrow> nat \<Rightarrow> MerkleProofEntry list" where
  "proof_of hashv level i =
     (if 1 < length level then entry (sibling level i) # proof_of hashv (pair_up (join hashv) level) (i div 2) else [])"
  by pat_completeness auto
termination by (relation "measure (\<lambda>(_, level, _). length level)") auto

declare proof_of.simps [simp del]

lemma xor_one: "i XOR 1 = (if even i then i + 1 else i - 1)" for i :: nat
  using xor_Suc_0_eq [of i] by simp

lemma proof_entries_eq:
  "i < length level \<Longrightarrow>
   proof_entries (pre @ merkle_nodes (join hashv) level) (length pre) (length level) i = Inr (proof_of hashv level i)"
proof (induction "length level" arbitrary: level pre i rule: less_induct)
  case less
  let ?J = "join hashv"
  show ?case
  proof (cases "1 < length level")
    case True
    let ?next = "pair_up ?J level"
    have next_len: "length ?next < length level" "i div 2 < length ?next" using True less.prems by auto
    have ns: "pre @ merkle_nodes ?J level = (pre @ level) @ merkle_nodes ?J ?next"
      using True by (subst merkle_nodes.simps) simp
    have "min (i XOR 1) (length level - 1) < length level" using True by simp
    then have "index_into ((pre @ level) @ merkle_nodes ?J ?next) (length pre + min (i XOR 1) (length level - 1)) = Some (sibling level i)"
      by (simp add: index_into_def nth_append sibling_def)
    with less.hyps [OF next_len, of "pre @ level"] True show ?thesis
      unfolding ns by (subst proof_entries.simps, subst proof_of.simps) simp
  next
    case False
    with less.prems have "length level = 1" by linarith
    then show ?thesis by (simp add: proof_entries.simps proof_of.simps merkle_nodes.simps)
  qed
qed

lemma map_sum_id: "map_sum id f x = Inr y \<longleftrightarrow> (\<exists>z. x = Inr z \<and> y = f z)" "map_sum id f x = Inl e \<longleftrightarrow> x = Inl e"
  by (cases x; auto)+

lemma proof_entries_size:
  "proof_entries ns offset width i = Inr entries \<Longrightarrow> 0 < width \<Longrightarrow> offset + get_merkle_tree_size width = length ns"
proof (induction ns offset width i arbitrary: entries rule: proof_entries.induct)
  case (1 ns offset width i)
  show ?case
  proof (cases "1 < width")
    case True
    with "1.prems"(1) obtain node entries' where "index_into ns (offset + min (i XOR 1) (width - 1)) = Some node"
      "proof_entries ns (offset + width) ((width + 1) div 2) (i div 2) = Inr entries'"
      by (subst (asm) proof_entries.simps) (auto simp: map_sum_id split: option.splits)
    from "1.IH" [OF True this] True show ?thesis by (subst get_merkle_tree_size.simps) simp
  next
    case False
    with "1.prems" show ?thesis
      by (subst (asm) proof_entries.simps, subst get_merkle_tree_size.simps) (auto split: if_splits)
  qed
qed

lemma proof_entries_error: "proof_entries ns offset width i = Inl e \<Longrightarrow> e = InvalidMerkleProof"
proof (induction ns offset width i rule: proof_entries.induct)
  case (1 ns offset width i)
  from "1.prems" show ?case
    by (subst (asm) proof_entries.simps)
      (auto simp: map_sum_id split: option.splits if_splits intro: "1.IH")
qed

lemma make_proof_iff:
  assumes "leaves \<noteq> []"
  shows "make_merkle_proof \<lparr>shred_nodes = merkle_nodes (join hashv) leaves\<rparr> index width =
    (if width = length leaves \<and> index < width then Inr (proof_of hashv leaves index) else Inl InvalidMerkleProof)"
proof (cases "index < width")
  case True
  let ?ns = "merkle_nodes (join hashv) leaves"
  have made: "make_merkle_proof \<lparr>shred_nodes = ?ns\<rparr> index width = proof_entries ?ns 0 width index"
    using True by (simp add: make_merkle_proof_def)
  show ?thesis
  proof (cases "width = length leaves")
    case same: True
    with proof_entries_eq [of index leaves "[]" hashv] True made show ?thesis by simp
  next
    case False
    have "proof_entries ?ns 0 width index \<noteq> Inr entries" for entries
    proof
      assume "proof_entries ?ns 0 width index = Inr entries"
      from proof_entries_size [OF this] True have "get_merkle_tree_size width = get_merkle_tree_size (length leaves)"
        by (simp add: length_merkle_nodes)
      with tree_size_inject False show False by blast
    qed
    moreover have "e = InvalidMerkleProof" if "proof_entries ns offset w i = Inl e" for ns offset w i e
      using that by (rule proof_entries_error)
    ultimately show ?thesis using made False by (cases "proof_entries ?ns 0 width index") auto
  qed
qed (simp add: make_merkle_proof_def proof_entries.simps)

section \<open>Recovering the root\<close>

lemma join_entry: "join_nodes hashv (hash_bytes l) (entry r) = join hashv l r" "join_nodes hashv (entry l) (hash_bytes r) = join hashv l r"
  by (simp_all add: join_nodes_def)

lemma climb_proof: "i < length level \<Longrightarrow> foldl (climb hashv) (i, level ! i) (proof_of hashv level i) = (0, merkle_root (join hashv) level)"
proof (induction "length level" arbitrary: level i rule: less_induct)
  case less
  let ?J = "join hashv"
  show ?case
  proof (cases "1 < length level")
    case True
    let ?next = "pair_up ?J level"
    have "length ?next < length level" "i div 2 < length ?next" using True less.prems by auto
    note rest = less.hyps [OF this]
    have sib: "sibling level i = level ! (if even i then (if i + 1 < length level then i + 1 else i) else i - 1)"
      using less.prems unfolding sibling_def xor_one by (auto intro: arg_cong [where f = "nth level"])
    have "climb hashv (i, level ! i) (entry (sibling level i)) = (i div 2, ?next ! (i div 2))"
      unfolding pair_up_sibling [OF less.prems] sib by (auto simp: climb_def join_entry even_iff_mod_2_eq_zero)
    with rest True show ?thesis by (subst proof_of.simps, subst merkle_root.simps) simp
  next
    case False
    with less.prems have "i = 0" "length level = 1" by auto
    then show ?thesis by (simp add: proof_of.simps merkle_root.simps hd_conv_nth flip: length_0_conv)
  qed
qed

lemma length_proof: "level \<noteq> [] \<Longrightarrow> length level \<le> 2 ^ length (proof_of hashv level i) \<and>
    (1 < length level \<longrightarrow> 2 ^ length (proof_of hashv level i) < 2 * length level)"
proof (induction "length level" arbitrary: level i rule: less_induct)
  case less
  show ?case
  proof (cases "1 < length level")
    case True
    let ?next = "pair_up (join hashv) level"
    have next_len: "length ?next < length level" "?next \<noteq> []" using True by (auto simp flip: length_0_conv)
    have len: "length (proof_of hashv level i) = Suc (length (proof_of hashv ?next (i div 2)))"
      using True by (subst proof_of.simps) simp
    show ?thesis
    proof (cases "1 < length ?next")
      case more: True
      then obtain k where "length (proof_of hashv ?next (i div 2)) = Suc k" by (simp add: proof_of.simps [of hashv ?next])
      with less.hyps [OF next_len, of "i div 2"] more show ?thesis unfolding len by simp linarith
    next
      case False
      with True have "length level = 2" by auto
      with False show ?thesis unfolding len by (simp add: proof_of.simps [of hashv ?next])
    qed
  next
    case False
    with less.prems have "length level = 1" by (cases level) auto
    then show ?thesis by (simp add: proof_of.simps)
  qed
qed

text \<open>C33: A Merkle tree over a non-empty list of leaf hashes is built without a panic and has as many
  nodes as \<open>get_merkle_tree_size\<close> says. The proof made for a leaf leads from that leaf and its index back to
  the root of the tree, and its length is the logarithm of the number of leaves, rounded up.\<close>

theorem merkle_proof_roundtrip:
  assumes "index < length leaves"
  shows "\<exists>t entries. try_new hashv (map Inr leaves) = Some (Inr t) \<and>
    length (shred_nodes t) = get_merkle_tree_size (length leaves) \<and>
    make_merkle_proof t index (length leaves) = Inr entries \<and>
    map_option Inr (root t) = Some (get_merkle_root hashv index (leaves ! index) entries) \<and>
    length leaves \<le> 2 ^ length entries \<and> (1 < length leaves \<longrightarrow> 2 ^ length entries < 2 * length leaves)"
proof -
  have leaves: "leaves \<noteq> []" using assms by auto
  let ?t = "\<lparr>shred_nodes = merkle_nodes (join hashv) leaves\<rparr>"
  have "root ?t = Some (merkle_root (join hashv) leaves)"
    using merkle_nodes_last [OF leaves, of "join hashv"] by (simp add: root_def)
  moreover have "get_merkle_root hashv index (leaves ! index) (proof_of hashv leaves index) = Inr (merkle_root (join hashv) leaves)"
    using climb_proof [OF assms, of hashv] by (simp add: get_merkle_root_def)
  ultimately show ?thesis
    using try_new_eq [OF leaves, of hashv] make_proof_iff [OF leaves, of hashv index "length leaves"] assms
      length_proof [OF leaves, of hashv index]
    by (intro exI [of _ ?t] exI [of _ "proof_of hashv leaves index"]) (simp add: length_merkle_nodes)
qed

text \<open>C35: The errors of the Merkle tree are exact: no tree is made of no leaves; the first leaf in error
  decides the error of the tree; and a proof is refused exactly if the number of leaves is given wrong or the index is not that of a
  leaf.\<close>

theorem merkle_tree_errors:
  shows "try_new hashv [] = Some (Inl EmptyIterator) \<and>
    try_new hashv (map Inr leaves @ Inl e # shreds) = Some (Inl e) \<and>
    (leaves \<noteq> [] \<longrightarrow> (\<exists>t. try_new hashv (map Inr leaves) = Some (Inr t) \<and>
      (\<forall>index width. make_merkle_proof t index width = Inl InvalidMerkleProof \<longleftrightarrow> width \<noteq> length leaves \<or> index \<ge> width)))"
  using try_new_eq [of leaves hashv] make_proof_iff [of leaves hashv]
  by (auto simp: try_new_def push_nodes_error)

section \<open>Wrong proofs\<close>

text \<open>The pairs of entries hashed on the way from a leaf to the root.\<close>

fun hashed_pairs :: "hasher \<Rightarrow> nat \<Rightarrow> Hash \<Rightarrow> MerkleProofEntry list \<Rightarrow> (MerkleProofEntry \<times> MerkleProofEntry) list" where
  "hashed_pairs hashv index node [] = []"
| "hashed_pairs hashv index node (other # entries) =
     (if even index then (entry node, take SIZE_OF_MERKLE_PROOF_ENTRY other) else (take SIZE_OF_MERKLE_PROOF_ENTRY other, entry node)) #
     hashed_pairs hashv (index div 2) (snd (climb hashv (index, node) other)) entries"

definition collision :: "hasher \<Rightarrow> MerkleProofEntry \<times> MerkleProofEntry \<Rightarrow> MerkleProofEntry \<times> MerkleProofEntry \<Rightarrow> bool" where
  "collision hashv p q \<longleftrightarrow> p \<noteq> q \<and> entry (join_nodes hashv (fst p) (snd p)) = entry (join_nodes hashv (fst q) (snd q))"

lemma climb_hashes: "snd (climb hashv (index, node) other) =
    (let p = hd (hashed_pairs hashv index node (other # entries)) in join_nodes hashv (fst p) (snd p))"
  by (simp add: climb_def join_nodes_def Let_def even_iff_mod_2_eq_zero)

lemma wrong_proof_collides:
  assumes "length es = length es'" and "\<forall>e \<in> set es \<union> set es'. length e = SIZE_OF_MERKLE_PROOF_ENTRY"
    and "entry (snd (foldl (climb hashv) (index, node) es)) = entry (snd (foldl (climb hashv) (index, node') es'))"
  shows "entry node = entry node' \<and> es = es' \<or>
    (\<exists>k < length es. collision hashv (hashed_pairs hashv index node es ! k) (hashed_pairs hashv index node' es' ! k))"
  using assms
proof (induction es arbitrary: es' index node node')
  case (Cons e es)
  from Cons.prems(1) obtain e' rest where es': "es' = e' # rest" by (cases es') auto
  let ?n = "snd (climb hashv (index, node) e)" and ?n' = "snd (climb hashv (index, node') e')"
  have step: "climb hashv (index, node) e = (index div 2, ?n)" "climb hashv (index, node') e' = (index div 2, ?n')"
    by (simp_all add: climb_def)
  have "entry ?n = entry ?n' \<and> es = rest \<or>
      (\<exists>k < length es. collision hashv (hashed_pairs hashv (index div 2) ?n es ! k) (hashed_pairs hashv (index div 2) ?n' rest ! k))"
    using Cons.prems unfolding es' by (intro Cons.IH) (simp_all flip: step)
  then show ?case
  proof
    assume same: "entry ?n = entry ?n' \<and> es = rest"
    let ?p = "hashed_pairs hashv index node (e # es) ! 0" and ?q = "hashed_pairs hashv index node' (e' # es) ! 0"
    have hashes: "join_nodes hashv (fst ?p) (snd ?p) = ?n" "join_nodes hashv (fst ?q) (snd ?q) = ?n'"
      using climb_hashes [of hashv index node e es] climb_hashes [of hashv index node' e' es] by (simp_all add: Let_def)
    have full: "take SIZE_OF_MERKLE_PROOF_ENTRY e = e" "take SIZE_OF_MERKLE_PROOF_ENTRY e' = e'"
      using Cons.prems(2) by (simp_all add: es')
    show ?case
    proof (cases "?p = ?q")
      case True
      then have "entry node = entry node' \<and> e = e'" by (auto simp: full split: if_splits)
      with same show ?thesis by (simp add: es')
    next
      case False
      with same hashes have "collision hashv ?p ?q" by (simp add: collision_def)
      with same show ?thesis by (auto simp: es' intro!: exI [of _ 0])
    qed
  next
    assume "\<exists>k < length es. collision hashv (hashed_pairs hashv (index div 2) ?n es ! k) (hashed_pairs hashv (index div 2) ?n' rest ! k)"
    then show ?case unfolding es' by (auto intro!: exI [of _ "Suc _"])
  qed
qed simp

text \<open>C34: A proof of the right length that leads from some node at the index of a leaf to the root of the tree is either
  the proof the tree makes, for a node with the same first 20 bytes as the leaf, or it exhibits two different
  pairs of entries, one hashed on the way up with the wrong proof and one with the right one, on which the
  hasher collides in its first 20 bytes.\<close>

theorem merkle_proof_sound:
  assumes "index < length leaves" and "try_new hashv (map Inr leaves) = Some (Inr t)"
    and "make_merkle_proof t index (length leaves) = Inr entries" and "length entries' = length entries"
    and "\<forall>e \<in> set entries'. length e = SIZE_OF_MERKLE_PROOF_ENTRY" and "root t = Some r"
    and "get_merkle_root hashv index node entries' = Inr r"
  shows "entry node = entry (leaves ! index) \<and> entries' = entries \<or>
    (\<exists>k < length entries. collision hashv (hashed_pairs hashv index node entries' ! k)
       (hashed_pairs hashv index (leaves ! index) entries ! k))"
proof -
  have leaves: "leaves \<noteq> []" using assms(1) by auto
  have t: "t = \<lparr>shred_nodes = merkle_nodes (join hashv) leaves\<rparr>" using assms(2) try_new_eq [OF leaves, of hashv] by simp
  have entries: "entries = proof_of hashv leaves index"
    using assms(1,3) make_proof_iff [OF leaves, of hashv index "length leaves"] unfolding t by simp
  have "r = merkle_root (join hashv) leaves"
    using assms(6) merkle_nodes_last [OF leaves, of "join hashv"] by (simp add: t root_def)
  with assms(7) have "snd (foldl (climb hashv) (index, node) entries') = snd (foldl (climb hashv) (index, leaves ! index) entries)"
    using climb_proof [OF assms(1), of hashv] by (auto simp: entries get_merkle_root_def split: prod.splits if_splits)
  moreover have "\<forall>e \<in> set (proof_of hashv level i). length e = SIZE_OF_MERKLE_PROOF_ENTRY" for level i
    by (induction hashv level i rule: proof_of.induct) (subst proof_of.simps, auto simp: SIZE_OF_MERKLE_PROOF_ENTRY_def)
  ultimately show ?thesis
    using wrong_proof_collides [OF assms(4), of hashv index node "leaves ! index"] assms(4,5) by (auto simp: entries)
qed

section \<open>A tree of three leaves\<close>

theorem merkle_proof_roundtrip_witness:
  "\<exists>t entries. try_new demo_hasher (map Inr [1, 2, 3]) = Some (Inr t) \<and> make_merkle_proof t 2 3 = Inr entries \<and>
     map_option Inr (root t) = Some (get_merkle_root demo_hasher 2 3 entries)"
proof -
  have "2 < length [1, 2, 3 :: Hash]" by simp
  from merkle_proof_roundtrip [OF this, of demo_hasher] show ?thesis by (auto simp: numeral_3_eq_3)
qed

theorem merkle_tree_errors_witness:
  "\<exists>t. try_new demo_hasher (map Inr [1, 2, 3]) = Some (Inr t) \<and> make_merkle_proof t 2 4 = Inl InvalidMerkleProof"
  using merkle_tree_errors [of demo_hasher "[1, 2, 3]" Io "[]"] by auto

lemma demo_tree: "\<exists>t entries r. try_new demo_hasher (map Inr [1, 2, 3]) = Some (Inr t) \<and>
    make_merkle_proof t 2 (length [1, 2, 3 :: Hash]) = Inr entries \<and> root t = Some r \<and>
    get_merkle_root demo_hasher 2 ([1, 2, 3] ! 2) entries = Inr r \<and> (\<forall>e \<in> set entries. length e = SIZE_OF_MERKLE_PROOF_ENTRY)"
proof -
  let ?leaves = "[1, 2, 3] :: Hash list"
  let ?t = "\<lparr>shred_nodes = merkle_nodes (join demo_hasher) ?leaves\<rparr>"
  have "make_merkle_proof ?t 2 (length ?leaves) = Inr (proof_of demo_hasher ?leaves 2)"
    by (subst make_proof_iff) simp_all
  moreover have "foldl (climb demo_hasher) (2, ?leaves ! 2) (proof_of demo_hasher ?leaves 2) = (0, merkle_root (join demo_hasher) ?leaves)"
    by (rule climb_proof) simp
  moreover have "root ?t = Some (merkle_root (join demo_hasher) ?leaves)"
    using merkle_nodes_last [of ?leaves "join demo_hasher"] by (simp add: root_def)
  moreover have "\<forall>e \<in> set (proof_of demo_hasher ?leaves 2). length e = SIZE_OF_MERKLE_PROOF_ENTRY"
    by (simp add: proof_of.simps SIZE_OF_MERKLE_PROOF_ENTRY_def)
  ultimately show ?thesis
    using try_new_eq [of ?leaves demo_hasher] by (auto simp: get_merkle_root_def)
qed

theorem merkle_proof_sound_witness:
  "\<exists>t entries r. try_new demo_hasher (map Inr [1, 2, 3]) = Some (Inr t) \<and> root t = Some r \<and>
     get_merkle_root demo_hasher 2 3 entries = Inr r \<and>
     (entry 3 = entry ([1, 2, 3] ! 2) \<or>
      (\<exists>k < length entries. collision demo_hasher (hashed_pairs demo_hasher 2 3 entries ! k)
         (hashed_pairs demo_hasher 2 ([1, 2, 3] ! 2) entries ! k)))"
proof -
  from demo_tree obtain t entries r where t: "try_new demo_hasher (map Inr [1, 2, 3]) = Some (Inr t)"
    "make_merkle_proof t 2 (length [1, 2, 3 :: Hash]) = Inr entries" "root t = Some r"
    "get_merkle_root demo_hasher 2 ([1, 2, 3] ! 2) entries = Inr r" "\<forall>e \<in> set entries. length e = SIZE_OF_MERKLE_PROOF_ENTRY"
    by blast
  have "2 < length [1, 2, 3 :: Hash]" by simp
  from merkle_proof_sound [OF this t(1,2) refl t(5,3,4)] t(1,3,4) show ?thesis by auto
qed

end
