(* ===== verification/ForkChoice.thy ===== *)
theory ForkChoice
  imports Prelude "HOL-Library.Product_Lexorder"
begin

text \<open>
  Fork choice by the heaviest subtree,
  \<^verbatim>\<open>core/src/consensus/heaviest_subtree_fork_choice.rs\<close>, and the tree traversal of
  \<^verbatim>\<open>core/src/consensus/tree_diff.rs\<close>. Blocks are keyed by slot and hash, compared
  lexicographically. Ordered sets of children are sets, traversed in their order; the hash map of blocks is a
  map. The schedule of epochs and the stakes of an epoch are arguments. Weights are 64 bit words with the
  arithmetic of the release profile. A panic is \<^term>\<open>None\<close>; so is a traversal that does
  not end. The time of the last root, which only paces a log message, is left out.
\<close>

section \<open>Data\<close>

type_synonym ForkWeight = u64

text \<open>The pair of a slot and a hash, with its order.\<close>

datatype SlotHashKey = SlotHashKey (key_slot: Slot) (key_hash: Hash)

instantiation SlotHashKey :: linorder
begin

definition less_eq_SlotHashKey :: "SlotHashKey \<Rightarrow> SlotHashKey \<Rightarrow> bool" where
  "less_eq_SlotHashKey a b \<longleftrightarrow> (key_slot a, key_hash a) \<le> (key_slot b, key_hash b)"

definition less_SlotHashKey :: "SlotHashKey \<Rightarrow> SlotHashKey \<Rightarrow> bool" where
  "less_SlotHashKey a b \<longleftrightarrow> (key_slot a, key_hash a) < (key_slot b, key_hash b)"

instance
  by standard (auto simp: less_eq_SlotHashKey_def less_SlotHashKey_def intro: SlotHashKey.expand)

end

datatype UpdateLabel = LabelAggregate | LabelAdd | LabelMarkValid Slot | LabelMarkInvalid Slot | LabelSubtract

text \<open>The derived order: first by constructor, then by slot.\<close>

fun label_rank :: "UpdateLabel \<Rightarrow> nat \<times> Slot" where
  "label_rank LabelAggregate = (0, 0)"
| "label_rank LabelAdd = (1, 0)"
| "label_rank (LabelMarkValid slot) = (2, slot)"
| "label_rank (LabelMarkInvalid slot) = (3, slot)"
| "label_rank LabelSubtract = (4, 0)"

lemma label_rank_inject: "label_rank a = label_rank b \<Longrightarrow> a = b"
  by (cases a; cases b) simp_all

instantiation UpdateLabel :: linorder
begin

definition less_eq_UpdateLabel :: "UpdateLabel \<Rightarrow> UpdateLabel \<Rightarrow> bool" where
  "less_eq_UpdateLabel a b \<longleftrightarrow> label_rank a \<le> label_rank b"

definition less_UpdateLabel :: "UpdateLabel \<Rightarrow> UpdateLabel \<Rightarrow> bool" where
  "less_UpdateLabel a b \<longleftrightarrow> label_rank a < label_rank b"

instance
  by standard (auto simp: less_eq_UpdateLabel_def less_UpdateLabel_def intro: label_rank_inject)

end

datatype UpdateOperation = OpAdd u64 | OpMarkValid Slot | OpMarkInvalid Slot | OpSubtract u64 | OpAggregate

type_synonym UpdateOperations = "(SlotHashKey \<times> UpdateLabel, UpdateOperation) btree"

fun update_stake :: "UpdateOperation \<Rightarrow> u64 \<Rightarrow> UpdateOperation option" where
  "update_stake (OpAdd stake) new_stake = Some (OpAdd (stake + new_stake))"
| "update_stake (OpSubtract stake) new_stake = Some (OpSubtract (stake + new_stake))"
| "update_stake _ new_stake = None"

record ForkInfo =
  stake_voted_at :: ForkWeight
  stake_voted_subtree :: ForkWeight
  height :: nat
  best_slot :: SlotHashKey
  deepest_slot :: SlotHashKey
  parent :: "SlotHashKey option"
  children :: "SlotHashKey set"
  latest_invalid_ancestor :: "Slot option"
  is_duplicate_confirmed :: bool

definition info_is_unconfirmed_duplicate :: "ForkInfo \<Rightarrow> Slot \<Rightarrow> bool" where
  "info_is_unconfirmed_duplicate info my_slot \<longleftrightarrow>
     (case latest_invalid_ancestor info of Some ancestor \<Rightarrow> ancestor = my_slot | None \<Rightarrow> False)"

definition info_is_candidate :: "ForkInfo \<Rightarrow> bool" where
  "info_is_candidate info \<longleftrightarrow> latest_invalid_ancestor info = None"

definition set_duplicate_confirmed :: "ForkInfo \<Rightarrow> ForkInfo" where
  "set_duplicate_confirmed info = info\<lparr>is_duplicate_confirmed := True, latest_invalid_ancestor := None\<rparr>"

definition update_with_newly_valid_ancestor :: "ForkInfo \<Rightarrow> Slot \<Rightarrow> ForkInfo" where
  "update_with_newly_valid_ancestor info newly_valid_ancestor =
     (case latest_invalid_ancestor info of
        Some latest \<Rightarrow> if latest \<le> newly_valid_ancestor then info\<lparr>latest_invalid_ancestor := None\<rparr> else info
      | None \<Rightarrow> info)"

definition update_with_newly_invalid_ancestor :: "ForkInfo \<Rightarrow> Slot \<Rightarrow> ForkInfo option" where
  "update_with_newly_invalid_ancestor info newly_invalid_ancestor =
     (if is_duplicate_confirmed info then None
      else if (case latest_invalid_ancestor info of Some latest \<Rightarrow> newly_invalid_ancestor > latest | None \<Rightarrow> True)
      then Some (info\<lparr>latest_invalid_ancestor := Some newly_invalid_ancestor\<rparr>)
      else Some info)"

type_synonym fork_tree = "SlotHashKey \<rightharpoonup> ForkInfo"

record HeaviestSubtreeForkChoice =
  fork_infos :: fork_tree
  latest_votes :: "Pubkey \<rightharpoonup> SlotHashKey"
  tree_root :: SlotHashKey

section \<open>Queries\<close>

definition contains_block :: "HeaviestSubtreeForkChoice \<Rightarrow> SlotHashKey \<Rightarrow> bool" where
  "contains_block s key \<longleftrightarrow> fork_infos s key \<noteq> None"

definition get_best_slot :: "HeaviestSubtreeForkChoice \<Rightarrow> SlotHashKey \<Rightarrow> SlotHashKey option" where
  "get_best_slot s key = map_option best_slot (fork_infos s key)"

definition get_deepest_slot :: "HeaviestSubtreeForkChoice \<Rightarrow> SlotHashKey \<Rightarrow> SlotHashKey option" where
  "get_deepest_slot s key = map_option deepest_slot (fork_infos s key)"

definition best_overall_slot :: "HeaviestSubtreeForkChoice \<Rightarrow> SlotHashKey option" where
  "best_overall_slot s = get_best_slot s (tree_root s)"

definition deepest_overall_slot :: "HeaviestSubtreeForkChoice \<Rightarrow> SlotHashKey option" where
  "deepest_overall_slot s = get_deepest_slot s (tree_root s)"

definition get_stake_voted_subtree :: "HeaviestSubtreeForkChoice \<Rightarrow> SlotHashKey \<Rightarrow> u64 option" where
  "get_stake_voted_subtree s key = map_option stake_voted_subtree (fork_infos s key)"

definition get_stake_voted_at :: "HeaviestSubtreeForkChoice \<Rightarrow> SlotHashKey \<Rightarrow> u64 option" where
  "get_stake_voted_at s key = map_option stake_voted_at (fork_infos s key)"

definition get_latest_invalid_ancestor :: "HeaviestSubtreeForkChoice \<Rightarrow> SlotHashKey \<Rightarrow> Slot option" where
  "get_latest_invalid_ancestor s key =
     (case fork_infos s key of Some info \<Rightarrow> latest_invalid_ancestor info | None \<Rightarrow> None)"

definition is_candidate :: "HeaviestSubtreeForkChoice \<Rightarrow> SlotHashKey \<Rightarrow> bool option" where
  "is_candidate s key = map_option info_is_candidate (fork_infos s key)"

definition get_parent :: "HeaviestSubtreeForkChoice \<Rightarrow> SlotHashKey \<Rightarrow> SlotHashKey option" where
  "get_parent s key = (case fork_infos s key of Some info \<Rightarrow> parent info | None \<Rightarrow> None)"

text \<open>\<open>AncestorIterator\<close>, collected.\<close>

partial_function (option) ancestor_iterator :: "fork_tree \<Rightarrow> SlotHashKey \<Rightarrow> SlotHashKey list option" where
  "ancestor_iterator infos key =
     (case infos key of
        None \<Rightarrow> Some []
      | Some info \<Rightarrow>
          (case parent info of
             None \<Rightarrow> Some []
           | Some p \<Rightarrow> Option.bind (ancestor_iterator infos p) (\<lambda>rest. Some (p # rest))))"

definition is_strict_ancestor :: "HeaviestSubtreeForkChoice \<Rightarrow> SlotHashKey \<Rightarrow> SlotHashKey \<Rightarrow> bool option" where
  "is_strict_ancestor s maybe_ancestor_key node_key =
     (if maybe_ancestor_key = node_key then Some False
      else if key_slot maybe_ancestor_key > key_slot node_key then Some False
      else map_option (\<lambda>ancestors. maybe_ancestor_key \<in> set ancestors) (ancestor_iterator (fork_infos s) node_key))"

section \<open>Best and deepest children\<close>

fun no_better_child :: "fork_tree \<Rightarrow> SlotHashKey \<Rightarrow> u64 \<Rightarrow> SlotHashKey list \<Rightarrow> bool option" where
  "no_better_child infos maybe_best_child weight [] = Some True"
| "no_better_child infos maybe_best_child weight (child # rest) = do {
     info \<leftarrow> infos child;
     if \<not> info_is_candidate info then no_better_child infos maybe_best_child weight rest
     else if stake_voted_subtree info > weight \<or> weight = stake_voted_subtree info \<and> child < maybe_best_child
     then Some False
     else no_better_child infos maybe_best_child weight rest }"

definition is_best_child :: "fork_tree \<Rightarrow> SlotHashKey \<Rightarrow> bool option" where
  "is_best_child infos maybe_best_child = do {
     info \<leftarrow> infos maybe_best_child;
     (case parent info of
        None \<Rightarrow> Some True
      | Some p \<Rightarrow> do {
          parent_info \<leftarrow> infos p;
          no_better_child infos maybe_best_child (stake_voted_subtree info) (sorted_list_of_set (children parent_info)) }) }"

fun no_deeper_child :: "fork_tree \<Rightarrow> SlotHashKey \<Rightarrow> u64 \<Rightarrow> nat \<Rightarrow> SlotHashKey list \<Rightarrow> bool option" where
  "no_deeper_child infos maybe_deepest_child weight h [] = Some True"
| "no_deeper_child infos maybe_deepest_child weight h (child # rest) = do {
     info \<leftarrow> infos child;
     if height info > h \<or>
        height info = h \<and> stake_voted_subtree info > weight \<or>
        height info = h \<and> stake_voted_subtree info = weight \<and> child < maybe_deepest_child
     then Some False
     else no_deeper_child infos maybe_deepest_child weight h rest }"

definition is_deepest_child :: "fork_tree \<Rightarrow> SlotHashKey \<Rightarrow> bool option" where
  "is_deepest_child infos maybe_deepest_child = do {
     info \<leftarrow> infos maybe_deepest_child;
     (case parent info of
        None \<Rightarrow> Some True
      | Some p \<Rightarrow> do {
          parent_info \<leftarrow> infos p;
          no_deeper_child infos maybe_deepest_child (stake_voted_subtree info) (height info)
            (sorted_list_of_set (children parent_info)) }) }"

section \<open>New leaves\<close>

text \<open>The two loops of \<open>propagate_new_leaf\<close>, up the ancestors of a leaf.\<close>

partial_function (option) propagate_best :: "SlotHashKey \<Rightarrow> SlotHashKey \<Rightarrow> fork_tree \<Rightarrow> SlotHashKey option \<Rightarrow> fork_tree option" where
  "propagate_best leaf parent_best infos ancestor =
     (if ancestor = None then Some infos
      else do {
        a \<leftarrow> ancestor;
        info \<leftarrow> infos a;
        if best_slot info = parent_best
        then propagate_best leaf parent_best (infos(a \<mapsto> info\<lparr>best_slot := leaf\<rparr>)) (parent info)
        else Some infos })"

partial_function (option) propagate_deepest ::
    "SlotHashKey \<Rightarrow> fork_tree \<Rightarrow> SlotHashKey option \<Rightarrow> SlotHashKey \<Rightarrow> nat \<Rightarrow> fork_tree option" where
  "propagate_deepest leaf infos ancestor current_child current_height =
     (if ancestor = None then Some infos
      else do {
        a \<leftarrow> ancestor;
        deepest \<leftarrow> is_deepest_child infos current_child;
        if \<not> deepest then Some infos
        else do {
          info \<leftarrow> infos a;
          propagate_deepest leaf (infos(a \<mapsto> info\<lparr>deepest_slot := leaf, height := current_height + 1\<rparr>))
            (parent info) a (current_height + 1) } })"

definition propagate_new_leaf :: "fork_tree \<Rightarrow> SlotHashKey \<Rightarrow> SlotHashKey \<Rightarrow> fork_tree option" where
  "propagate_new_leaf infos slot_hash_key parent_slot_hash_key = do {
     parent_info \<leftarrow> infos parent_slot_hash_key;
     best \<leftarrow> is_best_child infos slot_hash_key;
     infos \<leftarrow> (if best then propagate_best slot_hash_key (best_slot parent_info) infos (Some parent_slot_hash_key)
                else Some infos);
     propagate_deepest slot_hash_key infos (Some parent_slot_hash_key) slot_hash_key 1 }"

definition new_leaf_info :: "SlotHashKey \<Rightarrow> SlotHashKey option \<Rightarrow> Slot option \<Rightarrow> ForkInfo" where
  "new_leaf_info slot_hash_key p parent_latest_invalid_ancestor =
     \<lparr>stake_voted_at = 0, stake_voted_subtree = 0, height = 1, best_slot = slot_hash_key, deepest_slot = slot_hash_key,
      parent = p, children = {}, latest_invalid_ancestor = parent_latest_invalid_ancestor,
      is_duplicate_confirmed = (p = None)\<rparr>"

definition add_new_leaf_slot ::
    "HeaviestSubtreeForkChoice \<Rightarrow> SlotHashKey \<Rightarrow> SlotHashKey option \<Rightarrow> HeaviestSubtreeForkChoice option" where
  "add_new_leaf_slot s slot_hash_key p =
     (if fork_infos s slot_hash_key \<noteq> None then Some s
      else
        (let parent_latest_invalid_ancestor = Option.bind p (get_latest_invalid_ancestor s);
             infos = (fork_infos s)(slot_hash_key \<mapsto> new_leaf_info slot_hash_key p parent_latest_invalid_ancestor)
         in case p of
              None \<Rightarrow> Some (s\<lparr>fork_infos := infos\<rparr>)
            | Some p \<Rightarrow> do {
                parent_info \<leftarrow> infos p;
                infos \<leftarrow> propagate_new_leaf
                  (infos(p \<mapsto> parent_info\<lparr>children := insert slot_hash_key (children parent_info)\<rparr>)) slot_hash_key p;
                Some (s\<lparr>fork_infos := infos\<rparr>) }))"

definition HeaviestSubtreeForkChoice_new :: "SlotHashKey \<Rightarrow> HeaviestSubtreeForkChoice option" where
  "HeaviestSubtreeForkChoice_new root =
     add_new_leaf_slot \<lparr>fork_infos = Map.empty, latest_votes = Map.empty, tree_root = root\<rparr> root None"

section \<open>Aggregation\<close>

record Aggregation =
  agg_stake :: u64
  agg_duplicate_confirmed :: bool
  best_child_stake :: u64
  best_child_key :: SlotHashKey
  agg_best_slot :: SlotHashKey
  deepest_child_height :: nat
  deepest_child_stake :: u64
  deepest_child_key :: SlotHashKey
  agg_deepest_slot :: SlotHashKey

definition aggregate_child :: "SlotHashKey \<Rightarrow> Aggregation \<Rightarrow> SlotHashKey \<Rightarrow> ForkInfo \<Rightarrow> Aggregation" where
  "aggregate_child key acc child info =
     (let acc = acc\<lparr>agg_duplicate_confirmed := agg_duplicate_confirmed acc \<or> is_duplicate_confirmed info,
                    agg_stake := agg_stake acc + stake_voted_subtree info\<rparr>;
          acc = (if info_is_candidate info \<and>
                    (best_child_key acc = key \<or> stake_voted_subtree info > best_child_stake acc \<or>
                     stake_voted_subtree info = best_child_stake acc \<and> child < best_child_key acc)
                 then acc\<lparr>best_child_stake := stake_voted_subtree info, best_child_key := child,
                          agg_best_slot := best_slot info\<rparr>
                 else acc)
      in if deepest_child_key acc = key \<or> height info > deepest_child_height acc \<or>
            height info = deepest_child_height acc \<and> stake_voted_subtree info > deepest_child_stake acc \<or>
            height info = deepest_child_height acc \<and> stake_voted_subtree info = deepest_child_stake acc \<and>
              child < deepest_child_key acc
         then acc\<lparr>deepest_child_height := height info, deepest_child_stake := stake_voted_subtree info,
                  deepest_child_key := child, agg_deepest_slot := deepest_slot info\<rparr>
         else acc)"

fun aggregate_children :: "fork_tree \<Rightarrow> SlotHashKey \<Rightarrow> Aggregation \<Rightarrow> SlotHashKey list \<Rightarrow> Aggregation option" where
  "aggregate_children infos key acc [] = Some acc"
| "aggregate_children infos key acc (child # rest) = do {
     info \<leftarrow> infos child;
     aggregate_children infos key (aggregate_child key acc child info) rest }"

definition start_aggregation :: "SlotHashKey \<Rightarrow> ForkInfo \<Rightarrow> Aggregation" where
  "start_aggregation key info =
     \<lparr>agg_stake = stake_voted_at info, agg_duplicate_confirmed = False, best_child_stake = 0, best_child_key = key,
      agg_best_slot = key, deepest_child_height = 0, deepest_child_stake = 0, deepest_child_key = key,
      agg_deepest_slot = key\<rparr>"

definition aggregate_slot :: "fork_tree \<Rightarrow> SlotHashKey \<Rightarrow> fork_tree option" where
  "aggregate_slot infos key =
     (case infos key of
        None \<Rightarrow> Some infos
      | Some info \<Rightarrow> do {
          acc \<leftarrow> aggregate_children infos key (start_aggregation key info) (sorted_list_of_set (children info));
          let info = (if agg_duplicate_confirmed acc then set_duplicate_confirmed info else info);
          Some (infos(key \<mapsto> info\<lparr>stake_voted_subtree := agg_stake acc, height := deepest_child_height acc + 1,
                                   best_slot := agg_best_slot acc, deepest_slot := agg_deepest_slot acc\<rparr>)) })"

definition mark_fork_valid :: "fork_tree \<Rightarrow> SlotHashKey \<Rightarrow> Slot \<Rightarrow> fork_tree" where
  "mark_fork_valid infos key valid_slot =
     (case infos key of
        None \<Rightarrow> infos
      | Some info \<Rightarrow>
          (let info = update_with_newly_valid_ancestor info valid_slot
           in infos(key \<mapsto> (if key_slot key = valid_slot then info\<lparr>is_duplicate_confirmed := True\<rparr> else info))))"

definition mark_fork_invalid :: "fork_tree \<Rightarrow> SlotHashKey \<Rightarrow> Slot \<Rightarrow> fork_tree option" where
  "mark_fork_invalid infos key invalid_slot =
     (case infos key of
        None \<Rightarrow> Some infos
      | Some info \<Rightarrow> map_option (\<lambda>info. infos(key \<mapsto> info)) (update_with_newly_invalid_ancestor info invalid_slot))"

definition add_slot_stake :: "fork_tree \<Rightarrow> SlotHashKey \<Rightarrow> u64 \<Rightarrow> fork_tree" where
  "add_slot_stake infos key stake =
     (case infos key of
        None \<Rightarrow> infos
      | Some info \<Rightarrow> infos(key \<mapsto> info\<lparr>stake_voted_at := stake_voted_at info + stake,
                                          stake_voted_subtree := stake_voted_subtree info + stake\<rparr>))"

definition subtract_slot_stake :: "fork_tree \<Rightarrow> SlotHashKey \<Rightarrow> u64 \<Rightarrow> fork_tree" where
  "subtract_slot_stake infos key stake =
     (case infos key of
        None \<Rightarrow> infos
      | Some info \<Rightarrow> infos(key \<mapsto> info\<lparr>stake_voted_at := stake_voted_at info - stake,
                                          stake_voted_subtree := stake_voted_subtree info - stake\<rparr>))"

fun apply_operation :: "fork_tree \<Rightarrow> SlotHashKey \<Rightarrow> UpdateOperation \<Rightarrow> fork_tree option" where
  "apply_operation infos key (OpMarkValid valid_slot) = Some (mark_fork_valid infos key valid_slot)"
| "apply_operation infos key (OpMarkInvalid invalid_slot) = mark_fork_invalid infos key invalid_slot"
| "apply_operation infos key OpAggregate = aggregate_slot infos key"
| "apply_operation infos key (OpAdd stake) = Some (add_slot_stake infos key stake)"
| "apply_operation infos key (OpSubtract stake) = Some (subtract_slot_stake infos key stake)"

fun apply_operations :: "fork_tree \<Rightarrow> ((SlotHashKey \<times> UpdateLabel) \<times> UpdateOperation) list \<Rightarrow> fork_tree option" where
  "apply_operations infos [] = Some infos"
| "apply_operations infos (((key, _), operation) # rest) = do {
     infos \<leftarrow> apply_operation infos key operation;
     apply_operations infos rest }"

definition process_update_operations :: "fork_tree \<Rightarrow> UpdateOperations \<Rightarrow> fork_tree option" where
  "process_update_operations infos update_operations = apply_operations infos (rev update_operations)"

section \<open>Batches of operations\<close>

text \<open>Whether the operation was new, and the operations.\<close>

definition do_insert_aggregate_operation ::
    "UpdateOperations \<Rightarrow> UpdateOperation option \<Rightarrow> SlotHashKey \<Rightarrow> bool \<times> UpdateOperations" where
  "do_insert_aggregate_operation ops modify_fork_validity key =
     (if map_of ops (key, LabelAggregate) \<noteq> None then (False, ops)
      else
        (let ops = (case modify_fork_validity of
             Some (OpMarkValid slot) \<Rightarrow> btree_insert (key, LabelMarkValid slot) (OpMarkValid slot) ops
           | Some (OpMarkInvalid slot) \<Rightarrow> btree_insert (key, LabelMarkInvalid slot) (OpMarkInvalid slot) ops
           | _ \<Rightarrow> ops)
         in (True, btree_insert (key, LabelAggregate) OpAggregate ops)))"

fun insert_across :: "UpdateOperation option \<Rightarrow> UpdateOperations \<Rightarrow> SlotHashKey list \<Rightarrow> UpdateOperations" where
  "insert_across modify_fork_validity ops [] = ops"
| "insert_across modify_fork_validity ops (key # keys) =
     (case do_insert_aggregate_operation ops modify_fork_validity key of
        (True, ops) \<Rightarrow> insert_across modify_fork_validity ops keys
      | (False, ops) \<Rightarrow> ops)"

definition insert_aggregate_operations :: "fork_tree \<Rightarrow> UpdateOperations \<Rightarrow> SlotHashKey \<Rightarrow> UpdateOperations option" where
  "insert_aggregate_operations infos ops key =
     map_option (insert_across None ops) (ancestor_iterator infos key)"

definition stake_of :: "(Slot \<Rightarrow> Epoch) \<Rightarrow> (Epoch \<rightharpoonup> Pubkey \<Rightarrow> u64) \<Rightarrow> Slot \<Rightarrow> Pubkey \<Rightarrow> u64" where
  "stake_of get_epoch epoch_stakes slot pubkey =
     (case epoch_stakes (get_epoch slot) of Some vote_account_stake \<Rightarrow> vote_account_stake pubkey | None \<Rightarrow> 0)"

text \<open>\<open>entry(..).and_modify(update_stake).or_insert(..)\<close>\<close>

definition insert_stake_operation ::
    "UpdateOperations \<Rightarrow> SlotHashKey \<times> UpdateLabel \<Rightarrow> UpdateOperation \<Rightarrow> u64 \<Rightarrow> UpdateOperations option" where
  "insert_stake_operation ops label fresh stake_update =
     (case map_of ops label of
        Some operation \<Rightarrow> map_option (\<lambda>operation. btree_insert label operation ops) (update_stake operation stake_update)
      | None \<Rightarrow> Some (btree_insert label fresh ops))"

text \<open>One vote: the operations, the votes and the observed pubkeys after it.\<close>

definition generate_vote_operations ::
    "(Slot \<Rightarrow> Epoch) \<Rightarrow> (Epoch \<rightharpoonup> Pubkey \<Rightarrow> u64) \<Rightarrow> fork_tree \<Rightarrow> SlotHashKey \<Rightarrow>
     UpdateOperations \<times> (Pubkey \<rightharpoonup> SlotHashKey) \<times> Pubkey set \<Rightarrow> Pubkey \<times> SlotHashKey \<Rightarrow>
     (UpdateOperations \<times> (Pubkey \<rightharpoonup> SlotHashKey) \<times> Pubkey set) option" where
  "generate_vote_operations get_epoch epoch_stakes infos root = (\<lambda>(ops, votes, observed) (pubkey, new_vote).
     if key_slot new_vote < key_slot root then Some (ops, votes, observed)
     else if pubkey \<in> observed then None
     else
       (let observed = insert pubkey observed in
        if (case votes pubkey of
              Some latest \<Rightarrow> key_slot new_vote < key_slot latest \<or> key_slot new_vote = key_slot latest \<and> key_hash new_vote \<ge> key_hash latest
            | None \<Rightarrow> False)
        then Some (ops, votes, observed)
        else do {
          ops \<leftarrow>
            (case votes pubkey of
               None \<Rightarrow> Some ops
             | Some old_vote \<Rightarrow>
                 if (if key_slot new_vote = key_slot old_vote then key_hash new_vote < key_hash old_vote else key_slot new_vote > key_slot old_vote)
                 then (let stake_update = stake_of get_epoch epoch_stakes (key_slot old_vote) pubkey in
                       if stake_update > 0
                       then do {
                         ops \<leftarrow> insert_stake_operation ops (old_vote, LabelSubtract) (OpSubtract stake_update) stake_update;
                         insert_aggregate_operations infos ops old_vote }
                       else Some ops)
                 else None);
          let stake_update = stake_of get_epoch epoch_stakes (key_slot new_vote) pubkey;
          ops \<leftarrow> insert_stake_operation ops (new_vote, LabelAdd) (OpAdd stake_update) stake_update;
          ops \<leftarrow> insert_aggregate_operations infos ops new_vote;
          Some (ops, votes(pubkey \<mapsto> new_vote), observed) }))"

fun generate_update_operations ::
    "(Slot \<Rightarrow> Epoch) \<Rightarrow> (Epoch \<rightharpoonup> Pubkey \<Rightarrow> u64) \<Rightarrow> fork_tree \<Rightarrow> SlotHashKey \<Rightarrow>
     UpdateOperations \<times> (Pubkey \<rightharpoonup> SlotHashKey) \<times> Pubkey set \<Rightarrow> (Pubkey \<times> SlotHashKey) list \<Rightarrow>
     (UpdateOperations \<times> (Pubkey \<rightharpoonup> SlotHashKey) \<times> Pubkey set) option" where
  "generate_update_operations get_epoch epoch_stakes infos root acc [] = Some acc"
| "generate_update_operations get_epoch epoch_stakes infos root acc (vote # votes) = do {
     acc \<leftarrow> generate_vote_operations get_epoch epoch_stakes infos root acc vote;
     generate_update_operations get_epoch epoch_stakes infos root acc votes }"

definition add_votes ::
    "HeaviestSubtreeForkChoice \<Rightarrow> (Pubkey \<times> SlotHashKey) list \<Rightarrow> (Slot \<Rightarrow> Epoch) \<Rightarrow> (Epoch \<rightharpoonup> Pubkey \<Rightarrow> u64) \<Rightarrow>
     (SlotHashKey \<times> HeaviestSubtreeForkChoice) option" where
  "add_votes s pubkey_votes get_epoch epoch_stakes = do {
     (ops, votes, _) \<leftarrow> generate_update_operations get_epoch epoch_stakes (fork_infos s) (tree_root s)
       ([], latest_votes s, {}) pubkey_votes;
     infos \<leftarrow> process_update_operations (fork_infos s) ops;
     let s = s\<lparr>fork_infos := infos, latest_votes := votes\<rparr>;
     best \<leftarrow> best_overall_slot s;
     Some (best, s) }"

section \<open>Subtrees, validity and roots\<close>

partial_function (option) subtree_loop ::
    "fork_tree \<Rightarrow> SlotHashKey \<Rightarrow> SlotHashKey list \<Rightarrow> SlotHashKey set \<Rightarrow> SlotHashKey set option" where
  "subtree_loop infos root2 pending reachable =
     (if pending = [] then Some reachable
      else if hd pending = root2 then subtree_loop infos root2 (tl pending) reachable
      else do {
        info \<leftarrow> infos (hd pending);
        subtree_loop infos root2 (rev (sorted_list_of_set (children info)) @ tl pending)
          (insert (hd pending) reachable) })"

definition subtree_diff :: "fork_tree \<Rightarrow> SlotHashKey \<Rightarrow> SlotHashKey \<Rightarrow> SlotHashKey set option" where
  "subtree_diff infos root1 root2 =
     (if infos root1 = None then Some {} else subtree_loop infos root2 [root1] {})"

text \<open>\<open>SlotHashKey::default()\<close>\<close>

definition default_key :: SlotHashKey where "default_key = SlotHashKey 0 0"

fun insert_marks :: "UpdateOperation \<Rightarrow> UpdateOperations \<Rightarrow> SlotHashKey list \<Rightarrow> UpdateOperations" where
  "insert_marks operation ops [] = ops"
| "insert_marks operation ops (key # keys) =
     insert_marks operation (snd (do_insert_aggregate_operation ops (Some operation) key)) keys"

text \<open>The hash set of a subtree is traversed in some order; the order of its keys stands for it.\<close>

definition mark_subtree ::
    "HeaviestSubtreeForkChoice \<Rightarrow> UpdateOperation \<Rightarrow> SlotHashKey \<Rightarrow> HeaviestSubtreeForkChoice option" where
  "mark_subtree s operation key = do {
     subtree \<leftarrow> subtree_diff (fork_infos s) key default_key;
     ops \<leftarrow> insert_aggregate_operations (fork_infos s)
       (insert_marks operation [] (sorted_list_of_set subtree)) key;
     infos \<leftarrow> process_update_operations (fork_infos s) ops;
     Some (s\<lparr>fork_infos := infos\<rparr>) }"

definition mark_fork_invalid_candidate ::
    "HeaviestSubtreeForkChoice \<Rightarrow> SlotHashKey \<Rightarrow> HeaviestSubtreeForkChoice option" where
  "mark_fork_invalid_candidate s key =
     (case fork_infos s key of
        None \<Rightarrow> Some s
      | Some info \<Rightarrow>
          if is_duplicate_confirmed info then None else mark_subtree s (OpMarkInvalid (key_slot key)) key)"

fun not_confirmed :: "fork_tree \<Rightarrow> SlotHashKey list \<Rightarrow> SlotHashKey list option" where
  "not_confirmed infos [] = Some []"
| "not_confirmed infos (key # keys) = do {
     info \<leftarrow> infos key;
     rest \<leftarrow> not_confirmed infos keys;
     Some (if is_duplicate_confirmed info then rest else key # rest) }"

definition mark_fork_valid_candidate ::
    "HeaviestSubtreeForkChoice \<Rightarrow> SlotHashKey \<Rightarrow> (SlotHashKey list \<times> HeaviestSubtreeForkChoice) option" where
  "mark_fork_valid_candidate s key = do {
     ancestors \<leftarrow> ancestor_iterator (fork_infos s) key;
     newly_duplicate_confirmed_ancestors \<leftarrow> not_confirmed (fork_infos s) (key # ancestors);
     s \<leftarrow> mark_subtree s (OpMarkValid (key_slot key)) key;
     Some (newly_duplicate_confirmed_ancestors, s) }"

text \<open>Removing a set of nodes, each of which must exist.\<close>

definition set_tree_root :: "HeaviestSubtreeForkChoice \<Rightarrow> SlotHashKey \<Rightarrow> HeaviestSubtreeForkChoice option" where
  "set_tree_root s new_root = do {
     remove_set \<leftarrow> subtree_diff (fork_infos s) (tree_root s) new_root;
     if remove_set \<subseteq> dom (fork_infos s)
     then (let infos = fork_infos s |` (- remove_set) in
           case infos new_root of
             None \<Rightarrow> None
           | Some info \<Rightarrow> Some (s\<lparr>fork_infos := infos(new_root \<mapsto> info\<lparr>parent := None\<rparr>), tree_root := new_root\<rparr>))
     else None }"

definition add_root_parent :: "HeaviestSubtreeForkChoice \<Rightarrow> SlotHashKey \<Rightarrow> HeaviestSubtreeForkChoice option" where
  "add_root_parent s root_parent =
     (if key_slot root_parent < key_slot (tree_root s) \<and> fork_infos s root_parent = None
      then do {
        root_info \<leftarrow> fork_infos s (tree_root s);
        Some (s\<lparr>fork_infos := (fork_infos s)(tree_root s \<mapsto> root_info\<lparr>parent := Some root_parent\<rparr>,
               root_parent \<mapsto> \<lparr>stake_voted_at = 0, stake_voted_subtree = stake_voted_subtree root_info,
                 height = height root_info + 1, best_slot = best_slot root_info, deepest_slot = deepest_slot root_info,
                 parent = None, children = {tree_root s}, latest_invalid_ancestor = None,
                 is_duplicate_confirmed = is_duplicate_confirmed root_info\<rparr>),
             tree_root := root_parent\<rparr>) }
      else None)"

section \<open>Splitting, pruning and merging\<close>

text \<open>A node and its descendants move from one map to another.\<close>

partial_function (option) split_loop ::
    "fork_tree \<Rightarrow> fork_tree \<Rightarrow> SlotHashKey list \<Rightarrow> (fork_tree \<times> fork_tree) option" where
  "split_loop infos split_tree_fork_infos to_visit =
     (if to_visit = [] then Some (infos, split_tree_fork_infos)
      else do {
        info \<leftarrow> infos (hd to_visit);
        split_loop (infos(hd to_visit := None)) (split_tree_fork_infos(hd to_visit \<mapsto> info))
          (rev (sorted_list_of_set (children info)) @ tl to_visit) })"

definition retain_votes :: "fork_tree \<Rightarrow> (Pubkey \<rightharpoonup> SlotHashKey) \<Rightarrow> Pubkey \<rightharpoonup> SlotHashKey" where
  "retain_votes infos votes = (\<lambda>pubkey.
     case votes pubkey of Some node \<Rightarrow> if infos node \<noteq> None then Some node else None | None \<Rightarrow> None)"

definition unlink :: "fork_tree \<Rightarrow> SlotHashKey \<Rightarrow> SlotHashKey \<Rightarrow> fork_tree option" where
  "unlink infos p key = do {
     info \<leftarrow> infos p;
     Some (infos(p \<mapsto> info\<lparr>children := children info - {key}\<rparr>)) }"

text \<open>The subtree that is split off, and the tree without it.\<close>

definition split_off ::
    "HeaviestSubtreeForkChoice \<Rightarrow> SlotHashKey \<Rightarrow> (HeaviestSubtreeForkChoice \<times> HeaviestSubtreeForkChoice) option" where
  "split_off s key =
     (if tree_root s = key then None
      else do {
        split_tree_root \<leftarrow> fork_infos s key;
        p \<leftarrow> parent split_tree_root;
        update_operations \<leftarrow> insert_aggregate_operations (fork_infos s) [] key;
        parent_info \<leftarrow> fork_infos s p;
        if key \<notin> children parent_info then None
        else do {
          infos \<leftarrow> unlink (fork_infos s) p key;
          infos \<leftarrow> process_update_operations infos update_operations;
          (infos, split_infos) \<leftarrow> split_loop infos Map.empty [key];
          infos \<leftarrow> unlink infos p key;
          let split_infos = split_infos(key \<mapsto> split_tree_root\<lparr>parent := None\<rparr>);
          Some (\<lparr>fork_infos = split_infos, latest_votes = retain_votes split_infos (latest_votes s), tree_root = key\<rparr>,
                s\<lparr>fork_infos := infos, latest_votes := retain_votes infos (latest_votes s)\<rparr>) } })"

record Purge =
  purge_tree :: HeaviestSubtreeForkChoice
  purged_slots :: "SlotHashKey list"
  pruned_subtrees :: "HeaviestSubtreeForkChoice list"
  purge_root :: "SlotHashKey option"

partial_function (option) purge_loop :: "SlotHashKey \<Rightarrow> Purge \<Rightarrow> SlotHashKey list \<Rightarrow> Purge option" where
  "purge_loop new_root acc to_visit =
     (if to_visit = [] then Some acc
      else if hd to_visit = new_root then purge_loop new_root (acc\<lparr>purge_root := Some new_root\<rparr>) (tl to_visit)
      else if hd to_visit < new_root
      then do {
        info \<leftarrow> fork_infos (purge_tree acc) (hd to_visit);
        purge_loop new_root (acc\<lparr>purged_slots := purged_slots acc @ [hd to_visit]\<rparr>)
          (rev (sorted_list_of_set (children info)) @ tl to_visit) }
      else do {
        split \<leftarrow> split_off (purge_tree acc) (hd to_visit);
        purge_loop new_root
          (acc\<lparr>purge_tree := snd split, pruned_subtrees := pruned_subtrees acc @ [fst split]\<rparr>) (tl to_visit) })"

fun remove_slots :: "fork_tree \<Rightarrow> SlotHashKey list \<Rightarrow> fork_tree option" where
  "remove_slots infos [] = Some infos"
| "remove_slots infos (key # keys) = (if infos key = None then None else remove_slots (infos(key := None)) keys)"

definition purge_prune ::
    "HeaviestSubtreeForkChoice \<Rightarrow> SlotHashKey \<Rightarrow>
     (SlotHashKey list \<times> HeaviestSubtreeForkChoice list \<times> HeaviestSubtreeForkChoice) option" where
  "purge_prune s new_root = do {
     acc \<leftarrow> purge_loop new_root \<lparr>purge_tree = s, purged_slots = [], pruned_subtrees = [], purge_root = None\<rparr> [tree_root s];
     infos \<leftarrow> remove_slots (fork_infos (purge_tree acc)) (purged_slots acc);
     s \<leftarrow> (case purge_root acc of
            None \<Rightarrow> Some ((purge_tree acc)\<lparr>fork_infos := infos\<rparr>)
          | Some root \<Rightarrow> do {
              info \<leftarrow> infos root;
              Some ((purge_tree acc)\<lparr>fork_infos := infos(root \<mapsto> info\<lparr>parent := None\<rparr>), tree_root := root\<rparr>) });
     Some (purged_slots acc, pruned_subtrees acc, s) }"

fun add_leaves ::
    "HeaviestSubtreeForkChoice \<Rightarrow> (SlotHashKey \<times> SlotHashKey) list \<Rightarrow> HeaviestSubtreeForkChoice option" where
  "add_leaves s [] = Some s"
| "add_leaves s ((key, p) # rest) = do {
     s \<leftarrow> add_new_leaf_slot s key (Some p);
     add_leaves s rest }"

text \<open>The nodes of the other tree with their parents, in the order of their keys.\<close>

definition other_slots_nodes :: "fork_tree \<Rightarrow> SlotHashKey \<Rightarrow> (SlotHashKey \<times> SlotHashKey) list" where
  "other_slots_nodes infos merge_leaf =
     map (\<lambda>key. (key, case Option.bind (infos key) parent of Some p \<Rightarrow> p | None \<Rightarrow> merge_leaf))
       (sorted_list_of_set (dom infos))"

text \<open>\<open>other_votes\<close> are the latest votes of the other tree, in the order the hash map is traversed.\<close>

definition merge ::
    "HeaviestSubtreeForkChoice \<Rightarrow> HeaviestSubtreeForkChoice \<Rightarrow> SlotHashKey \<Rightarrow> (Pubkey \<times> SlotHashKey) list \<Rightarrow>
     (Slot \<Rightarrow> Epoch) \<Rightarrow> (Epoch \<rightharpoonup> Pubkey \<Rightarrow> u64) \<Rightarrow> HeaviestSubtreeForkChoice option" where
  "merge s other merge_leaf other_votes get_epoch epoch_stakes =
     (if fork_infos s merge_leaf = None then None
      else do {
        s \<leftarrow> add_leaves s (other_slots_nodes (fork_infos other) merge_leaf);
        (_, s) \<leftarrow> add_votes s other_votes get_epoch epoch_stakes;
        Some s })"

section \<open>Banks\<close>

datatype Ordering = Less | Equal | Greater

definition key_cmp :: "'a::linorder \<Rightarrow> 'a \<Rightarrow> Ordering" where
  "key_cmp a b = (if a < b then Less else if a = b then Equal else Greater)"

fun reverse_ordering :: "Ordering \<Rightarrow> Ordering" where
  "reverse_ordering Less = Greater"
| "reverse_ordering Equal = Equal"
| "reverse_ordering Greater = Less"

definition max_by_weight :: "HeaviestSubtreeForkChoice \<Rightarrow> SlotHashKey \<Rightarrow> SlotHashKey \<Rightarrow> Ordering option" where
  "max_by_weight s slot1 slot2 = do {
     weight1 \<leftarrow> get_stake_voted_subtree s slot1;
     weight2 \<leftarrow> get_stake_voted_subtree s slot2;
     Some (if weight1 = weight2 then reverse_ordering (key_cmp slot1 slot2) else key_cmp weight1 weight2) }"

text \<open>What the fork choice reads of a bank.\<close>

record Bank =
  bank_is_frozen :: bool
  bank_slot :: Slot
  bank_hash :: Hash
  bank_parent_slot :: Slot
  bank_parent_hash :: Hash

fun add_frozen_banks ::
    "SlotHashKey \<Rightarrow> Slot \<Rightarrow> HeaviestSubtreeForkChoice \<Rightarrow> Bank list \<Rightarrow> HeaviestSubtreeForkChoice option" where
  "add_frozen_banks root prev_slot s [] = Some s"
| "add_frozen_banks root prev_slot s (bank # banks) =
     (if \<not> bank_is_frozen bank then None
      else if bank_slot bank > key_slot root
      then
        if bank_slot bank > prev_slot \<and> bank_hash bank \<noteq> 0 \<and> bank_parent_hash bank \<noteq> 0
        then do {
          s \<leftarrow> add_new_leaf_slot s (SlotHashKey (bank_slot bank) (bank_hash bank))
            (Some (SlotHashKey (bank_parent_slot bank) (bank_parent_hash bank)));
          add_frozen_banks root (bank_slot bank) s banks }
        else None
      else add_frozen_banks root prev_slot s banks)"

definition new_from_frozen_banks :: "SlotHashKey \<Rightarrow> Bank list \<Rightarrow> HeaviestSubtreeForkChoice option" where
  "new_from_frozen_banks root frozen_banks = do {
     s \<leftarrow> HeaviestSubtreeForkChoice_new root;
     add_frozen_banks root (key_slot root) s frozen_banks }"

definition new_from_bank_forks :: "Bank \<Rightarrow> Bank list \<Rightarrow> HeaviestSubtreeForkChoice option" where
  "new_from_bank_forks root_bank frozen_banks =
     new_from_frozen_banks (SlotHashKey (bank_slot root_bank) (bank_hash root_bank)) (sort_key bank_slot frozen_banks)"

text \<open>The votes taken from the dirty set of the latest votes are an argument.\<close>

definition compute_bank_stats ::
    "HeaviestSubtreeForkChoice \<Rightarrow> (Pubkey \<times> SlotHashKey) list \<Rightarrow> (Slot \<Rightarrow> Epoch) \<Rightarrow> (Epoch \<rightharpoonup> Pubkey \<Rightarrow> u64) \<Rightarrow>
     HeaviestSubtreeForkChoice option" where
  "compute_bank_stats s new_votes get_epoch epoch_stakes = map_option snd (add_votes s new_votes get_epoch epoch_stakes)"

text \<open>The last vote of the tower and whether it is stray are arguments.\<close>

definition heaviest_slot_on_same_voted_fork ::
    "HeaviestSubtreeForkChoice \<Rightarrow> SlotHashKey option \<Rightarrow> bool \<Rightarrow> SlotHashKey option option" where
  "heaviest_slot_on_same_voted_fork s last_voted_slot_hash is_stray_last_vote =
     (case last_voted_slot_hash of
        None \<Rightarrow> Some None
      | Some key \<Rightarrow>
          (case is_candidate s key of
             Some True \<Rightarrow> Some (get_best_slot s key)
           | Some False \<Rightarrow> Some (get_deepest_slot s key)
           | None \<Rightarrow> if \<not> is_stray_last_vote then None else Some None))"

text \<open>The banks, by slot; only their hashes are read.\<close>

definition get_with_checked_hash :: "(Slot \<rightharpoonup> Hash) \<Rightarrow> SlotHashKey \<Rightarrow> SlotHashKey option option" where
  "get_with_checked_hash banks key =
     (case banks (key_slot key) of
        None \<Rightarrow> Some None
      | Some hash \<Rightarrow> if hash = key_hash key then Some (Some key) else None)"

definition select_forks ::
    "HeaviestSubtreeForkChoice \<Rightarrow> SlotHashKey option \<Rightarrow> bool \<Rightarrow> (Slot \<rightharpoonup> Hash) \<Rightarrow> (SlotHashKey \<times> SlotHashKey option) option" where
  "select_forks s last_voted_slot_hash is_stray_last_vote banks = do {
     best \<leftarrow> best_overall_slot s;
     heaviest_bank \<leftarrow> get_with_checked_hash banks best;
     heaviest_bank \<leftarrow> heaviest_bank;
     same_fork \<leftarrow> heaviest_slot_on_same_voted_fork s last_voted_slot_hash is_stray_last_vote;
     Some (heaviest_bank,
       case same_fork of
         None \<Rightarrow> None
       | Some key \<Rightarrow>
           (case banks (key_slot key) of
              None \<Rightarrow> None
            | Some hash \<Rightarrow> if hash \<noteq> key_hash key then None else Some key)) }"

end
