(* ===== verification/ForkChoiceTree.thy ===== *)
theory ForkChoiceTree
  imports ForkChoice
begin

text \<open>
  The tree of the fork choice. \<open>well_linked\<close> says that parents and children agree, that slots grow
  from parent to child and that the root is the only block without a parent; \<open>summed\<close>,
  \<open>deepest_ok\<close> and \<open>best_ok\<close> say what the aggregated fields of one block are in terms of its
  children. \<open>aggregate_slot\<close> establishes the three, and a batch of operations, processed from the
  greatest key to the smallest, computes every block from the final state of its children.
\<close>

section \<open>Views\<close>

abbreviation info_of :: "fork_tree \<Rightarrow> SlotHashKey \<Rightarrow> ForkInfo" where
  "info_of infos k \<equiv> the (infos k)"

definition kids :: "fork_tree \<Rightarrow> SlotHashKey \<Rightarrow> SlotHashKey set" where
  "kids infos k = (case infos k of Some info \<Rightarrow> children info | None \<Rightarrow> {})"

definition up :: "fork_tree \<Rightarrow> SlotHashKey \<Rightarrow> SlotHashKey option" where
  "up infos k = (case infos k of Some info \<Rightarrow> parent info | None \<Rightarrow> None)"

definition well_linked :: "fork_tree \<Rightarrow> SlotHashKey \<Rightarrow> bool" where
  "well_linked infos root \<longleftrightarrow>
     finite (dom infos) \<and> default_key \<notin> dom infos \<and> root \<in> dom infos \<and>
     (\<forall>k c. c \<in> kids infos k \<longleftrightarrow> up infos c = Some k) \<and>
     (\<forall>k p. up infos k = Some p \<longrightarrow> p \<in> dom infos \<and> key_slot p < key_slot k) \<and>
     (\<forall>k \<in> dom infos. up infos k = None \<longleftrightarrow> k = root)"

definition same_shape :: "fork_tree \<Rightarrow> fork_tree \<Rightarrow> bool" where
  "same_shape infos infos' \<longleftrightarrow> dom infos' = dom infos \<and> kids infos' = kids infos \<and> up infos' = up infos"

lemma well_linked_same_shape: "same_shape infos infos' \<Longrightarrow> well_linked infos' root = well_linked infos root"
  by (simp add: well_linked_def same_shape_def)

lemma same_shape_refl [simp]: "same_shape infos infos"
  by (simp add: same_shape_def)

lemma same_shape_trans: "same_shape a b \<Longrightarrow> same_shape b c \<Longrightarrow> same_shape a c"
  by (simp add: same_shape_def)

lemma same_shape_update:
  assumes "infos k = Some info" and "parent info' = parent info" and "children info' = children info"
  shows "same_shape infos (infos(k \<mapsto> info'))"
  using assms by (auto simp: same_shape_def kids_def up_def fun_eq_iff)

lemma kids_Some: "infos k = Some info \<Longrightarrow> kids infos k = children info"
  by (simp add: kids_def)

lemma up_Some: "infos k = Some info \<Longrightarrow> up infos k = parent info"
  by (simp add: up_def)

lemma key_less: "key_slot a < key_slot b \<Longrightarrow> a < b"
  by (simp add: less_SlotHashKey_def)

lemma up_in_dom: "up infos k = Some p \<Longrightarrow> k \<in> dom infos"
  by (auto simp: up_def split: option.splits)

lemma linked:
  assumes "well_linked infos root"
  shows linked_finite: "finite (dom infos)"
    and linked_default: "default_key \<notin> dom infos"
    and linked_root: "root \<in> dom infos"
    and linked_kids: "c \<in> kids infos k \<longleftrightarrow> up infos c = Some k"
    and linked_up: "up infos k = Some p \<Longrightarrow> p \<in> dom infos \<and> key_slot p < key_slot k"
    and linked_top: "k \<in> dom infos \<Longrightarrow> up infos k = None \<longleftrightarrow> k = root"
  using assms by (simp_all add: well_linked_def)

lemma kid_in_dom: "well_linked infos root \<Longrightarrow> c \<in> kids infos k \<Longrightarrow> c \<in> dom infos \<and> k < c \<and> key_slot k < key_slot c"
  using linked_kids linked_up up_in_dom key_less by metis

lemma finite_kids: "well_linked infos root \<Longrightarrow> finite (kids infos k)"
  using kid_in_dom linked_finite by (meson finite_subset subsetI)

lemma tree_induct [consumes 2, case_names node]:
  assumes "well_linked infos root" and "k \<in> dom infos"
    and step: "\<And>k. k \<in> dom infos \<Longrightarrow> (\<And>c. c \<in> kids infos k \<Longrightarrow> P c) \<Longrightarrow> P k"
  shows "P k"
  using assms(2)
proof (induction "2 ^ 64 - unat (key_slot k)" arbitrary: k rule: less_induct)
  case less
  have smaller: "2 ^ 64 - unat (key_slot c) < 2 ^ 64 - unat (key_slot k)" if "c \<in> kids infos k" for c
  proof -
    have "unat (key_slot k) < unat (key_slot c)"
      using kid_in_dom [OF assms(1) that] by (simp add: word_less_nat_alt)
    with unat_lt_len [of "key_slot c"] show ?thesis by simp
  qed
  show ?case using less.prems smaller kid_in_dom [OF assms(1)] by (blast intro: step less.hyps)
qed

lemma up_induct [consumes 1, case_names node]:
  assumes "well_linked infos root"
    and step: "\<And>k. (\<And>p. up infos k = Some p \<Longrightarrow> P p) \<Longrightarrow> P k"
  shows "P k"
proof (induction "unat (key_slot k)" arbitrary: k rule: less_induct)
  case less
  then show ?case using linked_up [OF assms(1)] by (metis step word_less_nat_alt)
qed

section \<open>Ancestors and descendants\<close>

definition descends :: "fork_tree \<Rightarrow> SlotHashKey \<Rightarrow> SlotHashKey \<Rightarrow> bool" where
  "descends infos = (\<lambda>k c. c \<in> kids infos k)\<^sup>*\<^sup>*"

lemma descends_shape: "same_shape infos infos' \<Longrightarrow> descends infos' = descends infos"
  by (simp add: descends_def same_shape_def)

lemma descends_refl [simp]: "descends infos k k"
  by (simp add: descends_def)

lemma descends_kid: "c \<in> kids infos k \<Longrightarrow> descends infos c x \<Longrightarrow> descends infos k x"
  unfolding descends_def by (rule converse_rtranclp_into_rtranclp)

lemma descends_trans: "descends infos k x \<Longrightarrow> descends infos x y \<Longrightarrow> descends infos k y"
  unfolding descends_def by (rule rtranclp_trans)

lemma descends_cases: "descends infos k x \<longleftrightarrow> x = k \<or> (\<exists>c \<in> kids infos k. descends infos c x)"
proof
  assume "descends infos k x"
  then show "x = k \<or> (\<exists>c \<in> kids infos k. descends infos c x)"
    unfolding descends_def by (cases rule: converse_rtranclpE) auto
qed (auto intro: descends_kid)

lemma descends_up:
  assumes "well_linked infos root"
  shows "descends infos k x \<longleftrightarrow> x = k \<or> (\<exists>p. up infos x = Some p \<and> descends infos k p)"
proof
  assume "descends infos k x"
  then show "x = k \<or> (\<exists>p. up infos x = Some p \<and> descends infos k p)"
    unfolding descends_def by (cases rule: rtranclp.cases) (auto simp: linked_kids [OF assms])
next
  assume "x = k \<or> (\<exists>p. up infos x = Some p \<and> descends infos k p)"
  then show "descends infos k x"
    unfolding descends_def by (auto simp: linked_kids [OF assms] intro: rtranclp.rtrancl_into_rtrancl)
qed

lemma descends_le:
  assumes "well_linked infos root" and "descends infos k x"
  shows "k = x \<or> key_slot k < key_slot x"
  using assms(2) unfolding descends_def
proof (induction rule: rtranclp_induct)
  case (step y z)
  with kid_in_dom [OF assms(1)] show ?case by force
qed simp

lemma descends_dom: "well_linked infos root \<Longrightarrow> descends infos k x \<Longrightarrow> k \<in> dom infos \<Longrightarrow> x \<in> dom infos"
  using descends_up [of infos root k x] up_in_dom by auto

lemma descends_linear:
  assumes "well_linked infos root" and "descends infos a x" and "descends infos b x"
  shows "descends infos a b \<or> descends infos b a"
  using assms(1,2,3)
proof (induction x rule: up_induct)
  case (node x)
  show ?case
  proof (cases "a = x \<or> b = x")
    case False
    with node.prems descends_up [OF assms(1)] obtain p
      where "up infos x = Some p" "descends infos a p" "descends infos b p" by (metis option.inject)
    with node.IH show ?thesis by blast
  qed (use node.prems in auto)
qed

lemma kids_disjoint:
  assumes "well_linked infos root" and "c \<in> kids infos k" and "d \<in> kids infos k"
    and "descends infos c x" and "descends infos d x"
  shows "c = d"
proof -
  have no: "\<not> descends infos c d" if "c \<noteq> d" "c \<in> kids infos k" "d \<in> kids infos k" for c d
  proof
    assume "descends infos c d"
    with that descends_up [OF assms(1), of c d] linked_kids [OF assms(1), of d k]
    have "descends infos c k" by simp
    with that kid_in_dom [OF assms(1), of c k] descends_le [OF assms(1), of c k] show False by auto
  qed
  from descends_linear [OF assms(1,4,5)] no [of c d] no [of d c] assms(2,3) show ?thesis by auto
qed

lemma kid_not_up: "well_linked infos root \<Longrightarrow> c \<in> kids infos k \<Longrightarrow> \<not> descends infos c k"
  using descends_le [of infos root c k] kid_in_dom [of infos root c k] by auto

lemma root_descends:
  assumes "well_linked infos root" and "k \<in> dom infos"
  shows "descends infos root k"
  using assms
proof (induction k rule: up_induct)
  case (node k)
  show ?case
  proof (cases "up infos k")
    case None
    with node.prems linked_top [OF assms(1)] show ?thesis by simp
  next
    case (Some p)
    with linked_up [OF assms(1)] have "descends infos root p" by (blast intro: node.IH)
    with Some descends_up [OF assms(1)] show ?thesis by blast
  qed
qed

lemma ancestor_iterator_ok:
  assumes "well_linked infos root"
  shows "\<exists>as. ancestor_iterator infos k = Some as \<and>
    (case up infos k of None \<Rightarrow> as = [] | Some p \<Rightarrow> \<exists>bs. ancestor_iterator infos p = Some bs \<and> as = p # bs)"
  using assms
proof (induction k rule: up_induct)
  case (node k)
  show ?case
  proof (cases "up infos k")
    case None
    then have "ancestor_iterator infos k = Some []"
      by (subst ancestor_iterator.simps) (auto simp: up_def split: option.splits)
    with None show ?thesis by simp
  next
    case (Some p)
    then obtain info where info: "infos k = Some info" "parent info = Some p"
      by (auto simp: up_def split: option.splits)
    from node Some obtain bs where bs: "ancestor_iterator infos p = Some bs" by blast
    have "ancestor_iterator infos k = Some (p # bs)"
      by (subst ancestor_iterator.simps) (simp add: info bs)
    with Some bs show ?thesis by simp
  qed
qed

lemma ancestor_iterator_set:
  assumes "well_linked infos root" and "ancestor_iterator infos k = Some as"
  shows "x \<in> set as \<longleftrightarrow> x \<noteq> k \<and> descends infos x k"
  using assms(1,2)
proof (induction k arbitrary: as rule: up_induct)
  case (node k)
  show ?case
  proof (cases "up infos k")
    case None
    with ancestor_iterator_ok [OF assms(1), of k] node.prems have "as = []" by simp
    with None descends_up [OF assms(1), of x k] show ?thesis by auto
  next
    case (Some p)
    with ancestor_iterator_ok [OF assms(1), of k] node.prems
    obtain bs where bs: "ancestor_iterator infos p = Some bs" "as = p # bs" by auto
    have "x \<in> set as \<longleftrightarrow> x = p \<or> x \<noteq> p \<and> descends infos x p"
      using node.IH [OF Some bs(1)] bs(2) by simp
    moreover have "\<not> descends infos k p"
      using kid_not_up [OF assms(1), of k p] Some linked_kids [OF assms(1)] by simp
    ultimately show ?thesis
      using Some descends_up [OF assms(1), of x k] by auto
  qed
qed

lemma is_strict_ancestor_eq:
  assumes "well_linked (fork_infos s) root"
  shows "is_strict_ancestor s a k = Some (a \<noteq> k \<and> descends (fork_infos s) a k)"
proof -
  obtain as where as: "ancestor_iterator (fork_infos s) k = Some as" using ancestor_iterator_ok [OF assms] by blast
  show ?thesis
    using ancestor_iterator_set [OF assms as, of a] descends_le [OF assms, of a k]
    by (auto simp: is_strict_ancestor_def as)
qed

section \<open>What the aggregated fields are\<close>

definition candidates :: "fork_tree \<Rightarrow> SlotHashKey set \<Rightarrow> SlotHashKey set" where
  "candidates infos ks = {c \<in> ks. info_is_candidate (info_of infos c)}"

definition heavier :: "fork_tree \<Rightarrow> SlotHashKey \<Rightarrow> SlotHashKey \<Rightarrow> bool" where
  "heavier infos d c \<longleftrightarrow>
     stake_voted_subtree (info_of infos d) > stake_voted_subtree (info_of infos c) \<or>
     stake_voted_subtree (info_of infos d) = stake_voted_subtree (info_of infos c) \<and> d < c"

definition deeper :: "fork_tree \<Rightarrow> SlotHashKey \<Rightarrow> SlotHashKey \<Rightarrow> bool" where
  "deeper infos d c \<longleftrightarrow>
     height (info_of infos d) > height (info_of infos c) \<or>
     height (info_of infos d) = height (info_of infos c) \<and> heavier infos d c"

definition heaviest :: "fork_tree \<Rightarrow> SlotHashKey set \<Rightarrow> SlotHashKey \<Rightarrow> bool" where
  "heaviest infos ks c \<longleftrightarrow> c \<in> candidates infos ks \<and> (\<forall>d \<in> candidates infos ks. \<not> heavier infos d c)"

definition deepest :: "fork_tree \<Rightarrow> SlotHashKey set \<Rightarrow> SlotHashKey \<Rightarrow> bool" where
  "deepest infos ks c \<longleftrightarrow> c \<in> ks \<and> (\<forall>d \<in> ks. \<not> deeper infos d c)"

definition summed :: "fork_tree \<Rightarrow> SlotHashKey \<Rightarrow> bool" where
  "summed infos k \<longleftrightarrow>
     stake_voted_subtree (info_of infos k) =
       stake_voted_at (info_of infos k) + (\<Sum>c \<in> kids infos k. stake_voted_subtree (info_of infos c))"

definition best_ok :: "fork_tree \<Rightarrow> SlotHashKey \<Rightarrow> bool" where
  "best_ok infos k \<longleftrightarrow>
     (if candidates infos (kids infos k) = {} then best_slot (info_of infos k) = k
      else \<exists>c. heaviest infos (kids infos k) c \<and> best_slot (info_of infos k) = best_slot (info_of infos c))"

definition deepest_ok :: "fork_tree \<Rightarrow> SlotHashKey \<Rightarrow> bool" where
  "deepest_ok infos k \<longleftrightarrow>
     (if kids infos k = {} then height (info_of infos k) = 1 \<and> deepest_slot (info_of infos k) = k
      else \<exists>c. deepest infos (kids infos k) c \<and> height (info_of infos k) = height (info_of infos c) + 1 \<and>
             deepest_slot (info_of infos k) = deepest_slot (info_of infos c))"

lemma heavier_trans: "heavier infos a b \<Longrightarrow> heavier infos b c \<Longrightarrow> heavier infos a c"
  by (auto simp: heavier_def)

lemma heavier_total: "a = b \<or> heavier infos a b \<or> heavier infos b a"
  by (auto simp: heavier_def)

lemma heavier_irrefl [simp]: "\<not> heavier infos a a"
  by (simp add: heavier_def)

lemma deeper_trans: "deeper infos a b \<Longrightarrow> deeper infos b c \<Longrightarrow> deeper infos a c"
  using heavier_trans by (auto simp: deeper_def)

lemma deeper_total: "a = b \<or> deeper infos a b \<or> deeper infos b a"
  using heavier_total [of a b infos] by (auto simp: deeper_def)

lemma deeper_irrefl [simp]: "\<not> deeper infos a a"
  by (simp add: deeper_def)

lemma heaviest_unique: "heaviest infos ks c \<Longrightarrow> heaviest infos ks d \<Longrightarrow> c = d"
  using heavier_total [of c d infos] by (auto simp: heaviest_def)

lemma deepest_unique: "deepest infos ks c \<Longrightarrow> deepest infos ks d \<Longrightarrow> c = d"
  using deeper_total [of c d infos] by (auto simp: deepest_def)

lemma heaviest_insert:
  assumes "heaviest infos ks b" and "c \<notin> ks"
  shows "heaviest infos (insert c ks) (if info_is_candidate (info_of infos c) \<and> heavier infos c b then c else b)"
proof (cases "info_is_candidate (info_of infos c)")
  case True
  then have "candidates infos (insert c ks) = insert c (candidates infos ks)" by (auto simp: candidates_def)
  with True assms show ?thesis
    using heavier_trans [of infos _ c b] heavier_trans [of infos c b c]
    by (auto simp: heaviest_def)
next
  case False
  then have "candidates infos (insert c ks) = candidates infos ks" by (auto simp: candidates_def)
  with False assms show ?thesis by (simp add: heaviest_def)
qed

lemma deepest_insert:
  assumes "deepest infos ks b" and "c \<notin> ks"
  shows "deepest infos (insert c ks) (if deeper infos c b then c else b)"
  using assms deeper_trans [of infos _ c b] deeper_trans [of infos c b c]
  by (auto simp: deepest_def)

section \<open>Aggregation of one block\<close>

definition sum_acc :: "fork_tree \<Rightarrow> ForkInfo \<Rightarrow> SlotHashKey set \<Rightarrow> Aggregation \<Rightarrow> bool" where
  "sum_acc infos info ks acc \<longleftrightarrow>
     agg_stake acc = stake_voted_at info + (\<Sum>c \<in> ks. stake_voted_subtree (info_of infos c)) \<and>
     agg_duplicate_confirmed acc = (\<exists>c \<in> ks. is_duplicate_confirmed (info_of infos c))"

definition best_acc :: "fork_tree \<Rightarrow> SlotHashKey \<Rightarrow> SlotHashKey set \<Rightarrow> Aggregation \<Rightarrow> bool" where
  "best_acc infos key ks acc \<longleftrightarrow>
     (if candidates infos ks = {} then best_child_key acc = key \<and> agg_best_slot acc = key
      else heaviest infos ks (best_child_key acc) \<and>
           best_child_stake acc = stake_voted_subtree (info_of infos (best_child_key acc)) \<and>
           agg_best_slot acc = best_slot (info_of infos (best_child_key acc)))"

definition deep_acc :: "fork_tree \<Rightarrow> SlotHashKey \<Rightarrow> SlotHashKey set \<Rightarrow> Aggregation \<Rightarrow> bool" where
  "deep_acc infos key ks acc \<longleftrightarrow>
     (if ks = {} then deepest_child_key acc = key \<and> agg_deepest_slot acc = key \<and> deepest_child_height acc = 0
      else deepest infos ks (deepest_child_key acc) \<and>
           deepest_child_height acc = height (info_of infos (deepest_child_key acc)) \<and>
           deepest_child_stake acc = stake_voted_subtree (info_of infos (deepest_child_key acc)) \<and>
           agg_deepest_slot acc = deepest_slot (info_of infos (deepest_child_key acc)))"

lemma sum_acc_step:
  assumes "sum_acc infos info ks acc" and "infos c = Some ci" and "finite ks" and "c \<notin> ks"
  shows "sum_acc infos info (insert c ks) (aggregate_child key acc c ci)"
  using assms by (auto simp: sum_acc_def aggregate_child_def Let_def)

lemma best_acc_step:
  assumes "best_acc infos key ks acc" and ci: "infos c = Some ci" and "c \<notin> ks" and "key \<notin> ks"
  shows "best_acc infos key (insert c ks) (aggregate_child key acc c ci)"
proof (cases "candidates infos ks = {}")
  case True
  then have "candidates infos (insert c ks) = (if info_is_candidate ci then {c} else {})"
    using ci by (auto simp: candidates_def)
  with True assms show ?thesis by (auto simp: best_acc_def aggregate_child_def Let_def heaviest_def)
next
  case False
  with assms(1) have b: "heaviest infos ks (best_child_key acc)"
      "best_child_stake acc = stake_voted_subtree (info_of infos (best_child_key acc))"
      "agg_best_slot acc = best_slot (info_of infos (best_child_key acc))" by (simp_all add: best_acc_def)
  from b(1) assms(4) have key: "best_child_key acc \<noteq> key" by (auto simp: heaviest_def candidates_def)
  have some: "candidates infos (insert c ks) \<noteq> {}" using False by (auto simp: candidates_def)
  have heavier: "heavier infos c (best_child_key acc) \<longleftrightarrow>
      stake_voted_subtree ci > best_child_stake acc \<or>
      stake_voted_subtree ci = best_child_stake acc \<and> c < best_child_key acc"
    using ci b(2) by (simp add: heavier_def)
  show ?thesis
    using heaviest_insert [OF b(1) assms(3)] some ci b(2,3) key
    by (auto simp: best_acc_def aggregate_child_def Let_def heavier split: if_splits)
qed

lemma deep_acc_step:
  assumes "deep_acc infos key ks acc" and ci: "infos c = Some ci" and "c \<notin> ks" and "key \<notin> ks"
  shows "deep_acc infos key (insert c ks) (aggregate_child key acc c ci)"
proof (cases "ks = {}")
  case True
  with assms show ?thesis by (auto simp: deep_acc_def aggregate_child_def Let_def deepest_def)
next
  case False
  with assms(1) have b: "deepest infos ks (deepest_child_key acc)"
      "deepest_child_height acc = height (info_of infos (deepest_child_key acc))"
      "deepest_child_stake acc = stake_voted_subtree (info_of infos (deepest_child_key acc))"
      "agg_deepest_slot acc = deepest_slot (info_of infos (deepest_child_key acc))" by (simp_all add: deep_acc_def)
  from b(1) assms(4) have key: "deepest_child_key acc \<noteq> key" by (auto simp: deepest_def)
  have deeper: "deeper infos c (deepest_child_key acc) \<longleftrightarrow>
      height ci > deepest_child_height acc \<or>
      height ci = deepest_child_height acc \<and> stake_voted_subtree ci > deepest_child_stake acc \<or>
      height ci = deepest_child_height acc \<and> stake_voted_subtree ci = deepest_child_stake acc \<and>
        c < deepest_child_key acc"
    using ci b(2,3) by (auto simp: deeper_def heavier_def)
  show ?thesis
    using deepest_insert [OF b(1) assms(3)] ci b(2-4) key
    by (auto simp: deep_acc_def aggregate_child_def Let_def deeper split: if_splits)
qed

lemma aggregate_children_ok:
  assumes "set cs \<subseteq> dom infos" and "distinct cs" and "key \<notin> set cs \<union> ks" and "set cs \<inter> ks = {}" and "finite ks"
    and "sum_acc infos info ks acc" and "best_acc infos key ks acc" and "deep_acc infos key ks acc"
  shows "\<exists>acc'. aggregate_children infos key acc cs = Some acc' \<and> sum_acc infos info (set cs \<union> ks) acc' \<and>
           best_acc infos key (set cs \<union> ks) acc' \<and> deep_acc infos key (set cs \<union> ks) acc'"
  using assms
proof (induction cs arbitrary: acc ks)
  case (Cons c cs)
  then obtain ci where ci: "infos c = Some ci" by auto
  have "\<exists>acc'. aggregate_children infos key (aggregate_child key acc c ci) cs = Some acc' \<and>
      sum_acc infos info (set cs \<union> insert c ks) acc' \<and> best_acc infos key (set cs \<union> insert c ks) acc' \<and>
      deep_acc infos key (set cs \<union> insert c ks) acc'"
    using Cons.prems ci
    by (intro Cons.IH) (auto intro: sum_acc_step best_acc_step deep_acc_step)
  with ci show ?case by simp
qed auto

text \<open>The information an operation leaves at its block.\<close>

fun op_info :: "fork_tree \<Rightarrow> SlotHashKey \<Rightarrow> UpdateOperation \<Rightarrow> ForkInfo \<Rightarrow> ForkInfo option" where
  "op_info infos key (OpMarkValid slot) info =
     (let info = update_with_newly_valid_ancestor info slot
      in Some (if key_slot key = slot then info\<lparr>is_duplicate_confirmed := True\<rparr> else info))"
| "op_info infos key (OpMarkInvalid slot) info = update_with_newly_invalid_ancestor info slot"
| "op_info infos key OpAggregate info =
     map_option (\<lambda>acc.
       (if agg_duplicate_confirmed acc then set_duplicate_confirmed info else info)
         \<lparr>stake_voted_subtree := agg_stake acc, height := deepest_child_height acc + 1,
          best_slot := agg_best_slot acc, deepest_slot := agg_deepest_slot acc\<rparr>)
       (aggregate_children infos key (start_aggregation key info) (sorted_list_of_set (children info)))"
| "op_info infos key (OpAdd stake) info =
     Some (info\<lparr>stake_voted_at := stake_voted_at info + stake,
                stake_voted_subtree := stake_voted_subtree info + stake\<rparr>)"
| "op_info infos key (OpSubtract stake) info =
     Some (info\<lparr>stake_voted_at := stake_voted_at info - stake,
                stake_voted_subtree := stake_voted_subtree info - stake\<rparr>)"

lemma apply_operation_Some:
  "infos key = Some info \<Longrightarrow>
     apply_operation infos key operation = map_option (\<lambda>info. infos(key \<mapsto> info)) (op_info infos key operation info)"
  by (cases operation)
    (auto simp: mark_fork_valid_def mark_fork_invalid_def aggregate_slot_def add_slot_stake_def
      subtract_slot_stake_def Let_def map_option_case split: option.splits)

lemma apply_operation_None: "infos key = None \<Longrightarrow> apply_operation infos key operation = Some infos"
  by (cases operation)
    (auto simp: mark_fork_valid_def mark_fork_invalid_def aggregate_slot_def add_slot_stake_def
      subtract_slot_stake_def)

lemma op_info_links:
  assumes "op_info infos key operation info = Some info'"
  shows "parent info' = parent info" and "children info' = children info"
  using assms
  by (cases operation; auto simp: update_with_newly_valid_ancestor_def update_with_newly_invalid_ancestor_def
      set_duplicate_confirmed_def Let_def split: option.splits if_splits)+

lemma aggregate_children_cong:
  "(\<And>c. c \<in> set cs \<Longrightarrow> infos c = infos' c) \<Longrightarrow>
     aggregate_children infos key acc cs = aggregate_children infos' key acc cs"
proof (induction cs arbitrary: acc)
  case (Cons c cs)
  then show ?case by (cases "infos' c") auto
qed simp

lemma op_info_cong:
  assumes "\<And>c. c \<in> children info \<Longrightarrow> infos c = infos' c" and "finite (children info)"
  shows "op_info infos key operation info = op_info infos' key operation info"
  using assms
  by (cases operation) (auto intro!: arg_cong [where f = "map_option _"] aggregate_children_cong)

lemma op_info_aggregate:
  assumes "finite (children info)" and "children info \<subseteq> dom infos" and "key \<notin> children info"
  obtains acc where "op_info infos key OpAggregate info = Some
      ((if agg_duplicate_confirmed acc then set_duplicate_confirmed info else info)
         \<lparr>stake_voted_subtree := agg_stake acc, height := deepest_child_height acc + 1,
          best_slot := agg_best_slot acc, deepest_slot := agg_deepest_slot acc\<rparr>)"
    and "sum_acc infos info (children info) acc" and "best_acc infos key (children info) acc"
    and "deep_acc infos key (children info) acc"
proof -
  have "\<exists>acc'. aggregate_children infos key (start_aggregation key info) (sorted_list_of_set (children info)) = Some acc' \<and>
      sum_acc infos info (set (sorted_list_of_set (children info)) \<union> {}) acc' \<and>
      best_acc infos key (set (sorted_list_of_set (children info)) \<union> {}) acc' \<and>
      deep_acc infos key (set (sorted_list_of_set (children info)) \<union> {}) acc'"
    using assms
    by (intro aggregate_children_ok)
      (auto simp: sum_acc_def best_acc_def deep_acc_def candidates_def start_aggregation_def)
  with assms(1) obtain acc where
      "aggregate_children infos key (start_aggregation key info) (sorted_list_of_set (children info)) = Some acc"
      "sum_acc infos info (children info) acc" "best_acc infos key (children info) acc"
      "deep_acc infos key (children info) acc" by auto
  then show ?thesis by (intro that [of acc]) simp_all
qed

end
