(* ===== verification/ForkChoiceBatch.thy ===== *)
theory ForkChoiceBatch
  imports ForkChoiceTree
begin

text \<open>
  Batches of update operations. Processed from the greatest key to the smallest, a batch computes every block from
  the final state of its children (\<open>apply_operations_final\<close>) and panics only when a confirmed block
  is marked invalid. A batch of votes aggregates all ancestors of the blocks whose stake it
  changes (\<open>ops_ok\<close>) and moves every stake from the previous to the new latest vote
  (\<open>votes_moved\<close>).
\<close>

section \<open>Processing a batch\<close>

fun op_infos :: "fork_tree \<Rightarrow> SlotHashKey \<Rightarrow> ForkInfo \<Rightarrow> UpdateOperation list \<Rightarrow> ForkInfo option" where
  "op_infos infos k info [] = Some info"
| "op_infos infos k info (operation # rest) =
     Option.bind (op_info infos k operation info) (\<lambda>info. op_infos infos k info rest)"

definition ops_at :: "SlotHashKey \<Rightarrow> ((SlotHashKey \<times> UpdateLabel) \<times> UpdateOperation) list \<Rightarrow> UpdateOperation list" where
  "ops_at k l = map snd (filter (\<lambda>e. fst (fst e) = k) l)"

definition descending :: "((SlotHashKey \<times> UpdateLabel) \<times> UpdateOperation) list \<Rightarrow> bool" where
  "descending l \<longleftrightarrow> sorted_wrt (\<lambda>a b. fst b < fst a) l"

lemma descending_rev: "btree_ok ops \<Longrightarrow> descending (rev ops)"
  by (simp add: descending_def btree_ok_def sorted_wrt_rev sorted_wrt_map)

lemma ops_at_above:
  assumes "descending (e # l)" and "fst (fst e) < k"
  shows "ops_at k l = []"
proof -
  have "fst (fst x) \<noteq> k" if "x \<in> set l" for x
    using assms that by (auto simp: descending_def less_prod_def)
  then show ?thesis by (simp add: ops_at_def filter_empty_conv)
qed

lemma apply_operations_final:
  assumes "descending l" and "well_linked infos root" and "apply_operations infos l = Some infos'"
  shows "same_shape infos infos' \<and>
    (\<forall>k. infos' k = (case infos k of None \<Rightarrow> None | Some info \<Rightarrow> op_infos infos' k info (ops_at k l)))"
  using assms
proof (induction l arbitrary: infos)
  case Nil
  then show ?case by (auto simp: ops_at_def split: option.splits)
next
  case (Cons e l)
  obtain k lab operation where e: "e = ((k, lab), operation)" by (metis surj_pair)
  have l: "descending l" using Cons.prems(1) by (simp add: descending_def)
  have others: "ops_at j (e # l) = (if j = k then operation # ops_at k l else ops_at j l)" for j
    by (simp add: ops_at_def e)
  show ?case
  proof (cases "infos k")
    case None
    with Cons.prems(3) e have "apply_operations infos l = Some infos'" by (simp add: apply_operation_None)
    note IH = Cons.IH [OF l Cons.prems(2) this]
    have "infos' j = (case infos j of None \<Rightarrow> None | Some info \<Rightarrow> op_infos infos' j info (ops_at j (e # l)))" for j
      using IH [THEN conjunct2, rule_format, of j] None unfolding others by (cases "j = k") simp_all
    with IH show ?thesis by blast
  next
    case (Some info)
    with Cons.prems(3) e obtain i1 where i1: "op_info infos k operation info = Some i1"
      and rest: "apply_operations (infos(k \<mapsto> i1)) l = Some infos'"
      by (auto simp: apply_operation_Some bind_eq_Some_conv)
    have shape: "same_shape infos (infos(k \<mapsto> i1))"
      using op_info_links [OF i1] by (intro same_shape_update [of infos, OF Some]) simp_all
    have IH: "same_shape (infos(k \<mapsto> i1)) infos'"
      "\<And>j. infos' j = (case (infos(k \<mapsto> i1)) j of None \<Rightarrow> None | Some info \<Rightarrow> op_infos infos' j info (ops_at j l))"
      using Cons.IH [OF l _ rest] Cons.prems(2) well_linked_same_shape [OF shape] by blast+
    have kid: "infos c = infos' c" if "c \<in> children info" for c
    proof -
      have "k < c" using kid_in_dom [OF Cons.prems(2)] that kids_Some [of infos, OF Some] by blast
      with ops_at_above [OF Cons.prems(1)] e have "ops_at c l = []" by simp
      with IH(2) [of c] \<open>k < c\<close> show ?thesis by (cases "infos c") auto
    qed
    have "op_info infos' k operation info = Some i1"
      using op_info_cong [of info infos infos' k operation] kid finite_kids [OF Cons.prems(2), of k] i1 kids_Some [of infos, OF Some]
      by simp
    then have "infos' j = (case infos j of None \<Rightarrow> None | Some info \<Rightarrow> op_infos infos' j info (ops_at j (e # l)))" for j
      using IH(2) [of j] Some unfolding others by (cases "j = k") auto
    with same_shape_trans [OF shape IH(1)] show ?thesis by blast
  qed
qed

fun entry_ok :: "fork_tree \<Rightarrow> SlotHashKey \<Rightarrow> UpdateLabel \<Rightarrow> UpdateOperation \<Rightarrow> bool" where
  "entry_ok infos k lab OpAggregate \<longleftrightarrow> lab = LabelAggregate"
| "entry_ok infos k lab (OpMarkValid slot) \<longleftrightarrow> lab = LabelMarkValid slot"
| "entry_ok infos k lab (OpMarkInvalid slot) \<longleftrightarrow>
     lab = LabelMarkInvalid slot \<and> (\<forall>info. infos k = Some info \<longrightarrow> \<not> is_duplicate_confirmed info)"
| "entry_ok infos k lab _ \<longleftrightarrow> True"

definition no_conflict :: "fork_tree \<Rightarrow> ((SlotHashKey \<times> UpdateLabel) \<times> UpdateOperation) list \<Rightarrow> bool" where
  "no_conflict infos l \<longleftrightarrow> (\<forall>e \<in> set l. entry_ok infos (fst (fst e)) (snd (fst e)) (snd e))"

lemma op_info_total:
  assumes "well_linked infos root" and "infos k = Some info"
    and "\<And>slot. operation = OpMarkInvalid slot \<Longrightarrow> \<not> is_duplicate_confirmed info"
  shows "\<exists>info'. op_info infos k operation info = Some info'"
proof (cases operation)
  case OpAggregate
  have "finite (children info)" "children info \<subseteq> dom infos" "k \<notin> children info"
    using finite_kids [OF assms(1), of k] kid_in_dom [OF assms(1), of _ k] kids_Some [of infos, OF assms(2)] by auto
  then show ?thesis unfolding OpAggregate by (rule op_info_aggregate) (rule exI)
qed (use assms(3) in \<open>auto simp: update_with_newly_invalid_ancestor_def Let_def\<close>)

lemma op_info_confirmed:
  assumes "op_info infos k operation info = Some info'" and "operation \<noteq> OpAggregate" and "\<And>slot. operation \<noteq> OpMarkValid slot"
  shows "is_duplicate_confirmed info' = is_duplicate_confirmed info"
  using assms by (cases operation) (auto simp: update_with_newly_invalid_ancestor_def split: if_splits)

lemma apply_operations_total:
  assumes "descending l" and "well_linked infos root" and "no_conflict infos l"
  shows "\<exists>infos'. apply_operations infos l = Some infos'"
  using assms
proof (induction l arbitrary: infos)
  case (Cons e l)
  obtain k lab operation where e: "e = ((k, lab), operation)" by (metis surj_pair)
  have l: "descending l" using Cons.prems(1) by (simp add: descending_def)
  from Cons.prems(3) e have here: "entry_ok infos k lab operation" and rest: "no_conflict infos l"
    by (simp_all add: no_conflict_def)
  show ?case
  proof (cases "infos k")
    case None
    with Cons.IH [OF l Cons.prems(2) rest] e show ?thesis by (simp add: apply_operation_None)
  next
    case (Some info)
    have "\<exists>i1. op_info infos k operation info = Some i1"
      using here Some by (intro op_info_total [OF Cons.prems(2)]) auto
    then obtain i1 where i1: "op_info infos k operation info = Some i1" by blast
    have shape: "same_shape infos (infos(k \<mapsto> i1))"
      using op_info_links [OF i1] by (intro same_shape_update [of infos, OF Some]) simp_all
    have later: "entry_ok (infos(k \<mapsto> i1)) k' lab' operation'" if mem: "((k', lab'), operation') \<in> set l" for k' lab' operation'
    proof -
      have old: "entry_ok infos k' lab' operation'" using rest mem by (force simp: no_conflict_def)
      have "\<not> is_duplicate_confirmed i1" if inv: "operation' = OpMarkInvalid slot" "k' = k" for slot
      proof -
        have "lab' < lab" using Cons.prems(1) mem e inv(2) by (force simp: descending_def less_prod_def)
        with inv old have "LabelMarkInvalid slot < lab" by simp
        then have "lab \<noteq> LabelAggregate" "\<And>s. lab \<noteq> LabelMarkValid s" by (auto simp: less_UpdateLabel_def)
        with here have "operation \<noteq> OpAggregate" "\<And>s. operation \<noteq> OpMarkValid s" by auto
        with op_info_confirmed [OF i1] old inv Some show ?thesis by simp
      qed
      with old show ?thesis by (cases operation') auto
    qed
    then have "no_conflict (infos(k \<mapsto> i1)) l" by (auto simp: no_conflict_def)
    with Cons.IH [OF l, of "infos(k \<mapsto> i1)"] Cons.prems(2) well_linked_same_shape [OF shape]
    obtain infos' where "apply_operations (infos(k \<mapsto> i1)) l = Some infos'" by blast
    with Some i1 e show ?thesis by (simp add: apply_operation_Some)
  qed
qed simp

lemma ops_at_labels:
  assumes "btree_ok ops" and labels: "\<And>k l. (k, l) \<in> fst ` set ops \<Longrightarrow> l \<in> set ls" and "sorted_wrt (<) ls"
  shows "ops_at k (rev ops) = rev (List.map_filter (\<lambda>l. map_of ops (k, l)) ls)"
proof -
  let ?pick = "\<lambda>ls. List.map_filter (\<lambda>l. map_option (Pair (k, l)) (map_of ops (k, l))) ls"
  have keys: "fst ` set (?pick ls) \<subseteq> Pair k ` set ls" for ls
    by (induction ls) (auto simp: map_filter_simps split: option.splits)
  have ok: "btree_ok (?pick ls)"
    using assms(3)
  proof (induction ls)
    case (Cons l ls)
    then show ?case using keys [of ls] by (auto simp: map_filter_simps split: option.splits)
  qed (simp add: map_filter_simps)
  have look: "map_of (?pick ls) (k', l) = (if k' = k \<and> l \<in> set ls then map_of ops (k, l) else None)" for k' l ls
    by (induction ls) (auto simp: map_filter_simps split: option.splits)
  have "map_of (filter (\<lambda>e. fst (fst e) = k) ops) (k', l) = map_of (?pick ls) (k', l)" for k' l
    unfolding look map_of_filter_distinct [OF btree_distinct [OF assms(1)]]
    using labels [of k' l] map_of_eq_None_iff [of ops "(k', l)"] by (auto split: option.splits)
  then have "filter (\<lambda>e. fst (fst e) = k) ops = ?pick ls"
    by (intro btree_ext [OF btree_ok_filter [OF assms(1)] ok]) (simp add: fun_eq_iff)
  moreover have "map snd (?pick ls) = List.map_filter (\<lambda>l. map_of ops (k, l)) ls" for ls
    by (induction ls) (auto simp: map_filter_simps split: option.splits)
  ultimately show ?thesis by (simp add: ops_at_def rev_map [symmetric] rev_filter [symmetric])
qed

section \<open>Aggregated and untouched blocks\<close>

lemma aggregated:
  assumes "well_linked infos root" and "infos k = Some info" and "op_info infos k OpAggregate start = Some info"
  shows "summed infos k" and "best_ok infos k" and "deepest_ok infos k"
    and "stake_voted_at info = stake_voted_at start"
    and "(is_duplicate_confirmed info, latest_invalid_ancestor info) =
      (if \<exists>c \<in> kids infos k. is_duplicate_confirmed (info_of infos c) then (True, None)
       else (is_duplicate_confirmed start, latest_invalid_ancestor start))"
proof -
  have kids: "kids infos k = children start"
    using op_info_links(2) [OF assms(3)] kids_Some [of infos, OF assms(2)] by simp
  have fin: "finite (children start)" "children start \<subseteq> dom infos" "k \<notin> children start"
    using finite_kids [OF assms(1), of k] kid_in_dom [OF assms(1), of _ k] kids by auto
  obtain acc where "op_info infos k OpAggregate start = Some
      ((if agg_duplicate_confirmed acc then set_duplicate_confirmed start else start)
         \<lparr>stake_voted_subtree := agg_stake acc, height := deepest_child_height acc + 1,
          best_slot := agg_best_slot acc, deepest_slot := agg_deepest_slot acc\<rparr>)"
    and acc: "sum_acc infos start (children start) acc" "best_acc infos k (children start) acc"
      "deep_acc infos k (children start) acc"
    by (rule op_info_aggregate [OF fin])
  with assms(3) have info: "info = (if agg_duplicate_confirmed acc then set_duplicate_confirmed start else start)
         \<lparr>stake_voted_subtree := agg_stake acc, height := deepest_child_height acc + 1,
          best_slot := agg_best_slot acc, deepest_slot := agg_deepest_slot acc\<rparr>"
    by (simp del: op_info.simps)
  show at: "stake_voted_at info = stake_voted_at start" by (simp add: info set_duplicate_confirmed_def)
  show "summed infos k" using acc(1) at assms(2) by (simp add: summed_def sum_acc_def kids info)
  show "best_ok infos k"
    using acc(2) assms(2) unfolding best_ok_def best_acc_def kids by (auto simp: info split: if_splits)
  show "deepest_ok infos k"
    using acc(3) assms(2) unfolding deepest_ok_def deep_acc_def kids by (auto simp: info split: if_splits)
  show "(is_duplicate_confirmed info, latest_invalid_ancestor info) =
      (if \<exists>c \<in> kids infos k. is_duplicate_confirmed (info_of infos c) then (True, None)
       else (is_duplicate_confirmed start, latest_invalid_ancestor start))"
    using acc(1) by (simp add: info sum_acc_def kids set_duplicate_confirmed_def)
qed

definition same_kids :: "fork_tree \<Rightarrow> fork_tree \<Rightarrow> SlotHashKey \<Rightarrow> bool" where
  "same_kids infos infos' k \<longleftrightarrow> kids infos' k = kids infos k \<and> (\<forall>c \<in> kids infos k. infos' c = infos c)"

lemma candidates_kept: "(\<And>c. c \<in> ks \<Longrightarrow> infos' c = infos c) \<Longrightarrow> candidates infos' ks = candidates infos ks"
  by (auto simp: candidates_def)

lemma heaviest_kept:
  assumes "\<And>c. c \<in> ks \<Longrightarrow> infos' c = infos c"
  shows "heaviest infos' ks c = heaviest infos ks c"
proof -
  have "candidates infos' ks = candidates infos ks" using assms by (rule candidates_kept)
  moreover have "heavier infos' d c = heavier infos d c" if "d \<in> candidates infos ks" "c \<in> candidates infos ks" for d
    using that assms by (simp add: candidates_def heavier_def)
  ultimately show ?thesis unfolding heaviest_def by auto
qed

lemma deepest_kept:
  assumes "\<And>c. c \<in> ks \<Longrightarrow> infos' c = infos c"
  shows "deepest infos' ks c = deepest infos ks c"
proof -
  have "deeper infos' d c = deeper infos d c" if "d \<in> ks" "c \<in> ks" for d
    using that assms by (simp add: deeper_def heavier_def)
  then show ?thesis unfolding deepest_def by auto
qed

lemma best_ok_kept:
  assumes "same_kids infos infos' k" and "best_slot (info_of infos' k) = best_slot (info_of infos k)" and "best_ok infos k"
  shows "best_ok infos' k"
proof -
  have kids: "kids infos' k = kids infos k" "\<And>c. c \<in> kids infos k \<Longrightarrow> infos' c = infos c"
    using assms(1) by (simp_all add: same_kids_def)
  have "best_slot (info_of infos' c) = best_slot (info_of infos c)" if "heaviest infos (kids infos k) c" for c
    using that kids(2) [of c] by (simp add: heaviest_def candidates_def)
  moreover have "candidates infos' (kids infos k) = candidates infos (kids infos k)"
    using kids(2) by (rule candidates_kept)
  moreover have "heaviest infos' (kids infos k) c = heaviest infos (kids infos k) c" for c
    using kids(2) by (rule heaviest_kept)
  ultimately show ?thesis using assms(2,3) unfolding best_ok_def kids(1) by (auto split: if_splits)
qed

lemma deepest_ok_kept:
  assumes "same_kids infos infos' k" and "deepest_slot (info_of infos' k) = deepest_slot (info_of infos k)"
    and "height (info_of infos' k) = height (info_of infos k)" and "deepest_ok infos k"
  shows "deepest_ok infos' k"
proof -
  have kids: "kids infos' k = kids infos k" "\<And>c. c \<in> kids infos k \<Longrightarrow> infos' c = infos c"
    using assms(1) by (simp_all add: same_kids_def)
  have "deepest_slot (info_of infos' c) = deepest_slot (info_of infos c)" "height (info_of infos' c) = height (info_of infos c)"
    if "deepest infos (kids infos k) c" for c
    using that kids(2) [of c] by (simp_all add: deepest_def)
  moreover have "deepest infos' (kids infos k) c = deepest infos (kids infos k) c" for c
    using kids(2) by (rule deepest_kept)
  ultimately show ?thesis using assms(2-4) unfolding deepest_ok_def kids(1) by (auto split: if_splits)
qed

lemma summed_kept:
  assumes "same_kids infos infos' k" and "summed infos k"
    and "stake_voted_subtree (info_of infos' k) - stake_voted_at (info_of infos' k) =
      stake_voted_subtree (info_of infos k) - stake_voted_at (info_of infos k)"
  shows "summed infos' k"
proof -
  have "(\<Sum>c \<in> kids infos k. stake_voted_subtree (info_of infos' c)) = (\<Sum>c \<in> kids infos k. stake_voted_subtree (info_of infos c))"
    using assms(1) by (simp add: same_kids_def)
  with assms show ?thesis by (simp add: summed_def same_kids_def algebra_simps)
qed

section \<open>Inserting aggregations\<close>

definition has_agg :: "UpdateOperations \<Rightarrow> SlotHashKey \<Rightarrow> bool" where
  "has_agg ops k \<longleftrightarrow> map_of ops (k, LabelAggregate) = Some OpAggregate"

definition agg_plain :: "UpdateOperations \<Rightarrow> bool" where
  "agg_plain ops \<longleftrightarrow> (\<forall>k operation. map_of ops (k, LabelAggregate) = Some operation \<longrightarrow> operation = OpAggregate)"

lemma has_agg_iff: "agg_plain ops \<Longrightarrow> has_agg ops k \<longleftrightarrow> map_of ops (k, LabelAggregate) \<noteq> None"
  by (auto simp: has_agg_def agg_plain_def)

definition with_aggs :: "UpdateOperations \<Rightarrow> SlotHashKey set \<Rightarrow> SlotHashKey \<times> UpdateLabel \<Rightarrow> UpdateOperation option" where
  "with_aggs ops ks e = (if snd e = LabelAggregate \<and> fst e \<in> ks then Some OpAggregate else map_of ops e)"

text \<open>
  A traversal of ancestors that stops at the first aggregation it meets inserts all of them, when the ancestors of
  an aggregation met on the way are aggregated as well.
\<close>

lemma insert_across_spec:
  assumes "well_linked infos root" and "ancestor_iterator infos k = Some as" and "btree_ok ops" and "agg_plain ops"
    and "\<And>a b. a \<in> set as \<Longrightarrow> has_agg ops a \<Longrightarrow> descends infos b a \<Longrightarrow> has_agg ops b"
  shows "btree_ok (insert_across None ops as) \<and> map_of (insert_across None ops as) = with_aggs ops (set as)"
  using assms(1,2,3,4,5)
proof (induction k arbitrary: as ops rule: up_induct)
  case (node k)
  show ?case
  proof (cases "up infos k")
    case None
    with ancestor_iterator_ok [OF assms(1), of k] node.prems have "as = []" by simp
    with node.prems show ?thesis by (simp add: with_aggs_def fun_eq_iff)
  next
    case (Some p)
    with ancestor_iterator_ok [OF assms(1), of k] node.prems
    obtain bs where bs: "ancestor_iterator infos p = Some bs" and as: "as = p # bs" by auto
    note anc = ancestor_iterator_set [OF assms(1) bs]
    show ?thesis
    proof (cases "has_agg ops p")
      case True
      have "has_agg ops a" if "a \<in> set as" for a
        using node.prems(4) [of p a] True that anc [of a] as by auto
      then have "with_aggs ops (set as) = map_of ops" by (auto simp: with_aggs_def has_agg_def fun_eq_iff)
      with True node.prems as show ?thesis by (simp add: do_insert_aggregate_operation_def has_agg_def)
    next
      case False
      let ?ops = "btree_insert (p, LabelAggregate) OpAggregate ops"
      have look: "map_of ?ops = (map_of ops)((p, LabelAggregate) \<mapsto> OpAggregate)"
        using node.prems(2) by (rule btree_lookup_insert)
      have agg: "has_agg ?ops a \<longleftrightarrow> a = p \<or> has_agg ops a" for a by (auto simp: has_agg_def look)
      have "agg_plain ?ops" using node.prems(3) by (simp add: agg_plain_def look)
      moreover have "has_agg ?ops b" if "a \<in> set bs" "has_agg ?ops a" "descends infos b a" for a b
        using that node.prems(4) [of a b] anc [of a] as by (auto simp: agg)
      ultimately have IH: "btree_ok (insert_across None ?ops bs) \<and> map_of (insert_across None ?ops bs) = with_aggs ?ops (set bs)"
        using node.prems(2) by (intro node.IH [OF Some bs] btree_ok_insert) auto
      have "with_aggs ?ops (set bs) = with_aggs ops (set as)"
        by (auto simp: with_aggs_def look as fun_eq_iff)
      with IH False has_agg_iff [OF node.prems(3), of p] as show ?thesis
        by (simp add: do_insert_aggregate_operation_def)
    qed
  qed
qed

section \<open>Votes\<close>

fun vote_entry :: "(SlotHashKey \<times> UpdateLabel) \<times> UpdateOperation \<Rightarrow> bool" where
  "vote_entry ((_, LabelAggregate), OpAggregate) = True"
| "vote_entry ((_, LabelAdd), OpAdd _) = True"
| "vote_entry ((_, LabelSubtract), OpSubtract _) = True"
| "vote_entry _ = False"

definition ops_ok :: "fork_tree \<Rightarrow> UpdateOperations \<Rightarrow> bool" where
  "ops_ok infos ops \<longleftrightarrow> btree_ok ops \<and> (\<forall>e \<in> set ops. vote_entry e) \<and>
     (\<forall>k lab p. map_of ops (k, lab) \<noteq> None \<longrightarrow> up infos k = Some p \<longrightarrow> has_agg ops p)"

definition added :: "UpdateOperations \<Rightarrow> SlotHashKey \<Rightarrow> u64" where
  "added ops k = (case map_of ops (k, LabelAdd) of Some (OpAdd stake) \<Rightarrow> stake | _ \<Rightarrow> 0)"

definition removed :: "UpdateOperations \<Rightarrow> SlotHashKey \<Rightarrow> u64" where
  "removed ops k = (case map_of ops (k, LabelSubtract) of Some (OpSubtract stake) \<Rightarrow> stake | _ \<Rightarrow> 0)"

lemma vote_entries:
  assumes "\<forall>e \<in> set ops. vote_entry e"
  shows "map_of ops (k, LabelAggregate) \<in> {None, Some OpAggregate}"
    and "map_of ops (k, LabelAdd) \<in> insert None (range (Some \<circ> OpAdd))"
    and "map_of ops (k, LabelSubtract) \<in> insert None (range (Some \<circ> OpSubtract))"
    and "(k, lab) \<in> fst ` set ops \<Longrightarrow> lab \<in> set [LabelAggregate, LabelAdd, LabelSubtract]"
proof -
  have "vote_entry ((k, lab), operation)" if "map_of ops (k, lab) = Some operation" for lab operation
    using map_of_SomeD [OF that] assms by blast
  note entry = this [THEN vote_entry.elims(2)]
  show "map_of ops (k, LabelAggregate) \<in> {None, Some OpAggregate}"
    by (cases "map_of ops (k, LabelAggregate)") (auto elim: entry)
  show "map_of ops (k, LabelAdd) \<in> insert None (range (Some \<circ> OpAdd))"
    by (cases "map_of ops (k, LabelAdd)") (auto elim: entry)
  show "map_of ops (k, LabelSubtract) \<in> insert None (range (Some \<circ> OpSubtract))"
    by (cases "map_of ops (k, LabelSubtract)") (auto elim: entry)
  show "(k, lab) \<in> fst ` set ops \<Longrightarrow> lab \<in> set [LabelAggregate, LabelAdd, LabelSubtract]"
    using assms by (force elim: vote_entry.elims)
qed

lemma agg_plain_votes:
  assumes "\<forall>e \<in> set ops. vote_entry e"
  shows "agg_plain ops"
  unfolding agg_plain_def
proof (intro allI impI)
  fix k operation
  assume "map_of ops (k, LabelAggregate) = Some operation"
  with vote_entries(1) [OF assms, of k] show "operation = OpAggregate" by simp
qed

lemma ops_ok_up:
  assumes "ops_ok infos ops" and "well_linked infos root" and "has_agg ops a" and "descends infos b a"
  shows "has_agg ops b"
  using assms(2,3,4)
proof (induction a rule: up_induct)
  case (node a)
  show ?case
  proof (cases "b = a")
    case False
    with node.prems descends_up [OF assms(2), of b a] obtain p where p: "up infos a = Some p" "descends infos b p" by auto
    with assms(1) node.prems have "has_agg ops p" by (auto simp: ops_ok_def has_agg_def)
    with p show ?thesis by (blast intro: node.IH)
  qed (use node.prems in simp)
qed

lemma set_map_of: "btree_ok ops \<Longrightarrow> e \<in> set ops \<longleftrightarrow> map_of ops (fst e) = Some (snd e)"
  using map_of_eq_Some_iff [OF btree_distinct, of ops "fst e" "snd e"] by simp

lemma stake_then_aggregate:
  assumes linked: "well_linked infos root" and ok: "ops_ok infos ops"
    and kind: "(lab, operation) \<in> {(LabelAdd, OpAdd amount), (LabelSubtract, OpSubtract amount)}"
  shows "\<exists>ops'. insert_aggregate_operations infos (btree_insert (k, lab) operation ops) k = Some ops' \<and>
    ops_ok infos ops' \<and>
    (\<forall>e. snd e \<noteq> LabelAggregate \<longrightarrow> map_of ops' e = ((map_of ops)((k, lab) \<mapsto> operation)) e)"
proof -
  let ?ops = "btree_insert (k, lab) operation ops"
  have tree: "btree_ok ops" and entries: "\<forall>e \<in> set ops. vote_entry e"
    and closed: "\<And>k lab p. map_of ops (k, lab) \<noteq> None \<Longrightarrow> up infos k = Some p \<Longrightarrow> has_agg ops p"
    using ok by (auto simp: ops_ok_def)
  have look: "map_of ?ops = (map_of ops)((k, lab) \<mapsto> operation)" by (rule btree_lookup_insert [OF tree])
  have agg: "has_agg ?ops = has_agg ops" using kind by (auto simp: has_agg_def look fun_eq_iff)
  have plain: "agg_plain ?ops" using agg_plain_votes [OF entries] kind by (auto simp: agg_plain_def look)
  obtain as where as: "ancestor_iterator infos k = Some as" using ancestor_iterator_ok [OF linked] by blast
  let ?ops' = "insert_across None ?ops as"
  have spec: "btree_ok ?ops'" "map_of ?ops' = with_aggs ?ops (set as)"
    using insert_across_spec [OF linked as btree_ok_insert [OF tree] plain] ops_ok_up [OF ok linked]
    unfolding agg by blast+
  have "vote_entry e" if "e \<in> set ?ops'" for e
    using that entries kind set_map_of [OF tree, of e]
    unfolding set_map_of [OF spec(1)] spec(2) with_aggs_def look
    by (cases e) (auto split: if_splits)
  moreover have "has_agg ?ops' p" if "map_of ?ops' (j, l) \<noteq> None" "up infos j = Some p" for j l p
  proof -
    have pj: "descends infos p j" "\<not> descends infos j p"
      using that(2) descends_up [OF linked, of p j] kid_not_up [OF linked, of j p] linked_kids [OF linked, of j p] by auto
    have "p \<in> set as" if "descends infos j k"
      unfolding ancestor_iterator_set [OF linked as] using that pj descends_trans by auto
    then have "p \<in> set as \<or> map_of ops (j, l) \<noteq> None"
      using that(1) ancestor_iterator_set [OF linked as, of j] unfolding spec(2) with_aggs_def look
      by (auto split: if_splits)
    with closed [OF _ that(2)] show ?thesis unfolding has_agg_def spec(2) with_aggs_def look
      using kind by (auto simp: has_agg_def)
  qed
  ultimately have "ops_ok infos ?ops'" using spec(1) by (simp add: ops_ok_def)
  moreover have "insert_aggregate_operations infos ?ops k = Some ?ops'"
    by (simp add: insert_aggregate_operations_def as)
  ultimately show ?thesis using spec(2) look by (auto simp: with_aggs_def)
qed

text \<open>The stake whose latest vote is for a block.\<close>

definition voted :: "(Slot \<Rightarrow> Pubkey \<Rightarrow> u64) \<Rightarrow> (Pubkey \<rightharpoonup> SlotHashKey) \<Rightarrow> SlotHashKey \<Rightarrow> u64" where
  "voted stake votes k = (\<Sum>pubkey \<in> {pubkey. votes pubkey = Some k}. stake (key_slot k) pubkey)"

definition votes_moved ::
    "(Slot \<Rightarrow> Pubkey \<Rightarrow> u64) \<Rightarrow> (Pubkey \<rightharpoonup> SlotHashKey) \<Rightarrow> UpdateOperations \<Rightarrow> (Pubkey \<rightharpoonup> SlotHashKey) \<Rightarrow> bool" where
  "votes_moved stake votes0 ops votes \<longleftrightarrow>
     finite (dom votes) \<and> (\<forall>k. voted stake votes k = voted stake votes0 k + added ops k - removed ops k)"

lemma voted_update:
  assumes "finite (dom votes)"
  shows "voted stake (votes(pubkey \<mapsto> new)) k =
    voted stake votes k - (if votes pubkey = Some k then stake (key_slot k) pubkey else 0) +
    (if new = k then stake (key_slot k) pubkey else 0)"
proof -
  have fin: "finite {p. votes p = Some k}" using assms by (rule finite_subset [rotated]) auto
  let ?rest = "{p. votes p = Some k} - {pubkey}"
  have "voted stake votes k = sum (stake (key_slot k)) ?rest + (if votes pubkey = Some k then stake (key_slot k) pubkey else 0)"
    using fin by (simp add: voted_def sum_diff1)
  moreover have "voted stake (votes(pubkey \<mapsto> new)) k = sum (stake (key_slot k)) ?rest + (if new = k then stake (key_slot k) pubkey else 0)"
  proof (cases "new = k")
    case True
    then have "{p. (votes(pubkey \<mapsto> new)) p = Some k} = insert pubkey ?rest" by auto
    with fin True show ?thesis by (simp add: voted_def sum.insert_remove add.commute)
  next
    case False
    then have "{p. (votes(pubkey \<mapsto> new)) p = Some k} = ?rest" by auto
    with False show ?thesis by (simp add: voted_def)
  qed
  ultimately show ?thesis by simp
qed

lemma add_stake_operation:
  assumes "well_linked infos root" and "ops_ok infos ops"
  shows "\<exists>ops'. Option.bind (insert_stake_operation ops (k, LabelAdd) (OpAdd stake) stake)
      (\<lambda>ops. insert_aggregate_operations infos ops k) = Some ops' \<and> ops_ok infos ops' \<and>
    added ops' = (added ops)(k := added ops k + stake) \<and> removed ops' = removed ops"
proof -
  have "insert_stake_operation ops (k, LabelAdd) (OpAdd stake) stake =
      Some (btree_insert (k, LabelAdd) (OpAdd (added ops k + stake)) ops)"
    using vote_entries(2) [of ops k] assms(2)
    by (auto simp: insert_stake_operation_def added_def ops_ok_def)
  with stake_then_aggregate [OF assms, of LabelAdd _ "added ops k + stake" k]
  show ?thesis by (fastforce simp: added_def removed_def fun_eq_iff)
qed

lemma subtract_stake_operation:
  assumes "well_linked infos root" and "ops_ok infos ops"
  shows "\<exists>ops'. Option.bind (insert_stake_operation ops (k, LabelSubtract) (OpSubtract stake) stake)
      (\<lambda>ops. insert_aggregate_operations infos ops k) = Some ops' \<and> ops_ok infos ops' \<and>
    added ops' = added ops \<and> removed ops' = (removed ops)(k := removed ops k + stake)"
proof -
  have "insert_stake_operation ops (k, LabelSubtract) (OpSubtract stake) stake =
      Some (btree_insert (k, LabelSubtract) (OpSubtract (removed ops k + stake)) ops)"
    using vote_entries(3) [of ops k] assms(2)
    by (auto simp: insert_stake_operation_def removed_def ops_ok_def)
  with stake_then_aggregate [OF assms, of LabelSubtract _ "removed ops k + stake" k]
  show ?thesis by (fastforce simp: added_def removed_def fun_eq_iff)
qed

text \<open>What a vote makes of the latest votes.\<close>

definition supersedes :: "SlotHashKey \<Rightarrow> SlotHashKey \<Rightarrow> bool" where
  "supersedes new old \<longleftrightarrow>
     key_slot new > key_slot old \<or> key_slot new = key_slot old \<and> key_hash new < key_hash old"

definition record_vote :: "SlotHashKey \<Rightarrow> (Pubkey \<rightharpoonup> SlotHashKey) \<Rightarrow> Pubkey \<times> SlotHashKey \<Rightarrow> Pubkey \<rightharpoonup> SlotHashKey" where
  "record_vote root votes = (\<lambda>(pubkey, new).
     if key_slot new \<ge> key_slot root \<and> (case votes pubkey of Some old \<Rightarrow> supersedes new old | None \<Rightarrow> True)
     then votes(pubkey \<mapsto> new) else votes)"

lemma generate_vote_operations_ok:
  assumes linked: "well_linked infos r" and ok: "ops_ok infos ops"
    and moved: "votes_moved (stake_of get_epoch epoch_stakes) votes0 ops votes"
    and fresh: "key_slot new < key_slot root \<or> pubkey \<notin> observed"
  shows "\<exists>ops' observed'. generate_vote_operations get_epoch epoch_stakes infos root (ops, votes, observed) (pubkey, new) =
      Some (ops', record_vote root votes (pubkey, new), observed') \<and> ops_ok infos ops' \<and>
    votes_moved (stake_of get_epoch epoch_stakes) votes0 ops' (record_vote root votes (pubkey, new)) \<and>
    observed' = (if key_slot new < key_slot root then observed else insert pubkey observed)"
proof (cases "record_vote root votes (pubkey, new) = votes \<and> \<not> (key_slot new \<ge> key_slot root \<and>
    (case votes pubkey of Some old \<Rightarrow> supersedes new old | None \<Rightarrow> True))")
  case True
  with fresh ok moved show ?thesis
    by (auto simp: generate_vote_operations_def record_vote_def supersedes_def Let_def not_less split: option.splits)
next
  case False
  then have recent: "key_slot new \<ge> key_slot root" and
    newer: "\<And>old. votes pubkey = Some old \<Longrightarrow> supersedes new old" and
    recorded: "record_vote root votes (pubkey, new) = votes(pubkey \<mapsto> new)"
    by (auto simp: record_vote_def split: if_splits option.splits)
  let ?stake = "\<lambda>k. stake_of get_epoch epoch_stakes (key_slot k) pubkey"
  obtain ops1 where ops1: "(case votes pubkey of None \<Rightarrow> Some ops | Some old \<Rightarrow>
        if ?stake old > 0
        then Option.bind (insert_stake_operation ops (old, LabelSubtract) (OpSubtract (?stake old)) (?stake old))
          (\<lambda>ops. insert_aggregate_operations infos ops old)
        else Some ops) = Some ops1" "ops_ok infos ops1" "added ops1 = added ops"
      "\<And>k. removed ops1 k = removed ops k + (if votes pubkey = Some k then ?stake k else 0)"
  proof (cases "\<exists>old. votes pubkey = Some old \<and> ?stake old > 0")
    case True
    then obtain old where old: "votes pubkey = Some old" "?stake old > 0" by blast
    from subtract_stake_operation [OF linked ok, of old "?stake old"] that old show ?thesis by auto
  next
    case False
    with ok show ?thesis by (intro that [of ops]) (auto simp: word_gt_0 split: option.splits)
  qed
  from add_stake_operation [OF linked ops1(2), of new "?stake new"]
  obtain ops2 where ops2: "Option.bind (insert_stake_operation ops1 (new, LabelAdd) (OpAdd (?stake new)) (?stake new))
      (\<lambda>ops. insert_aggregate_operations infos ops new) = Some ops2" "ops_ok infos ops2"
    "added ops2 = (added ops1)(new := added ops1 new + ?stake new)" "removed ops2 = removed ops1" by blast
  have gen: "generate_vote_operations get_epoch epoch_stakes infos root (ops, votes, observed) (pubkey, new) =
      Some (ops2, votes(pubkey \<mapsto> new), insert pubkey observed)"
    using recent newer fresh ops1(1) ops2(1)
    by (cases "votes pubkey") (auto simp: generate_vote_operations_def supersedes_def Let_def not_less not_le bind_eq_Some_conv)
  have "votes_moved (stake_of get_epoch epoch_stakes) votes0 ops2 (votes(pubkey \<mapsto> new))"
    using moved voted_update [of votes "stake_of get_epoch epoch_stakes" pubkey new]
    unfolding votes_moved_def ops2(3,4) ops1(3,4) by (auto simp: ops1(4))
  with gen ops2(2) recorded recent show ?thesis by auto
qed

fun record_votes :: "SlotHashKey \<Rightarrow> (Pubkey \<rightharpoonup> SlotHashKey) \<Rightarrow> (Pubkey \<times> SlotHashKey) list \<Rightarrow> Pubkey \<rightharpoonup> SlotHashKey" where
  "record_votes root votes [] = votes"
| "record_votes root votes (vote # rest) = record_votes root (record_vote root votes vote) rest"

text \<open>The validators with a vote at or above the root.\<close>

definition voters :: "SlotHashKey \<Rightarrow> (Pubkey \<times> SlotHashKey) list \<Rightarrow> Pubkey list" where
  "voters root pubkey_votes = map fst (filter (\<lambda>(_, new). key_slot new \<ge> key_slot root) pubkey_votes)"

lemma voters_simps [simp]:
  "voters root [] = []"
  "voters root ((pubkey, new) # rest) =
     (if key_slot new < key_slot root then voters root rest else pubkey # voters root rest)"
  by (auto simp: voters_def)

lemma generate_update_operations_ok:
  assumes linked: "well_linked infos r" and ok: "ops_ok infos ops"
    and moved: "votes_moved (stake_of get_epoch epoch_stakes) votes0 ops votes"
    and fresh: "distinct (voters root pubkey_votes)" "set (voters root pubkey_votes) \<inter> observed = {}"
  shows "\<exists>ops' observed'. generate_update_operations get_epoch epoch_stakes infos root (ops, votes, observed) pubkey_votes =
      Some (ops', record_votes root votes pubkey_votes, observed') \<and> ops_ok infos ops' \<and>
    votes_moved (stake_of get_epoch epoch_stakes) votes0 ops' (record_votes root votes pubkey_votes)"
  using ok moved fresh
proof (induction pubkey_votes arbitrary: ops votes observed)
  case (Cons vote rest)
  obtain pubkey new where vote: "vote = (pubkey, new)" by fastforce
  have "key_slot new < key_slot root \<or> pubkey \<notin> observed" using Cons.prems(4) vote by (auto split: if_splits)
  from generate_vote_operations_ok [OF linked Cons.prems(1,2) this]
  obtain ops1 observed1 where step: "generate_vote_operations get_epoch epoch_stakes infos root (ops, votes, observed) vote =
      Some (ops1, record_vote root votes vote, observed1)" "ops_ok infos ops1"
    "votes_moved (stake_of get_epoch epoch_stakes) votes0 ops1 (record_vote root votes vote)"
    "observed1 = (if key_slot new < key_slot root then observed else insert pubkey observed)"
    unfolding vote by auto
  have "distinct (voters root rest)" "set (voters root rest) \<inter> observed1 = {}"
    using Cons.prems(3,4) vote unfolding step(4) by (auto split: if_splits)
  from Cons.IH [OF step(2,3) this] step(1) show ?case by simp
qed auto

lemma generate_update_operations_voters:
  assumes "generate_update_operations get_epoch epoch_stakes infos root (ops, votes, observed) pubkey_votes = Some acc"
  shows "distinct (voters root pubkey_votes) \<and> set (voters root pubkey_votes) \<inter> observed = {}"
  using assms
proof (induction pubkey_votes arbitrary: ops votes observed)
  case (Cons vote rest)
  obtain pubkey new where vote: "vote = (pubkey, new)" by fastforce
  from Cons.prems obtain ops1 votes1 observed1
    where step: "generate_vote_operations get_epoch epoch_stakes infos root (ops, votes, observed) (pubkey, new) = Some (ops1, votes1, observed1)"
      and rest: "generate_update_operations get_epoch epoch_stakes infos root (ops1, votes1, observed1) rest = Some acc"
    unfolding vote by (auto simp: bind_eq_Some_conv)
  have "key_slot new < key_slot root \<and> observed1 = observed \<or>
      \<not> key_slot new < key_slot root \<and> pubkey \<notin> observed \<and> observed1 = insert pubkey observed"
    using step by (auto simp: generate_vote_operations_def Let_def bind_eq_Some_conv split: if_splits)
  with Cons.IH [OF rest] show ?case unfolding vote by auto
qed simp

end
