(* ===== verification/ForkChoiceUpdates.thy ===== *)
theory ForkChoiceUpdates
  imports ForkChoiceBatch
begin

text \<open>
  The invariant of the fork choice and the operations that work by batches: votes, and marking a fork valid or
  invalid. The invariant has the links of the tree, the aggregated fields of every block, the marks
  along the forks and the stakes of the latest votes.
\<close>

section \<open>The invariant\<close>

definition fields_ok :: "fork_tree \<Rightarrow> bool" where
  "fields_ok infos \<longleftrightarrow> (\<forall>k \<in> dom infos. summed infos k \<and> deepest_ok infos k \<and>
     (info_is_candidate (info_of infos k) \<longrightarrow> best_ok infos k) \<and> descends infos k (best_slot (info_of infos k)))"

text \<open>The fields of one block.\<close>

definition node_ok :: "fork_tree \<Rightarrow> SlotHashKey \<Rightarrow> bool" where
  "node_ok infos k \<longleftrightarrow> summed infos k \<and> deepest_ok infos k \<and>
     (info_is_candidate (info_of infos k) \<longrightarrow> best_ok infos k) \<and> descends infos k (best_slot (info_of infos k))"

lemma fields_ok_node: "fields_ok infos \<Longrightarrow> k \<in> dom infos \<Longrightarrow> node_ok infos k"
  by (simp add: fields_ok_def node_ok_def)

lemma fields_okI: "(\<And>k. k \<in> dom infos \<Longrightarrow> node_ok infos k) \<Longrightarrow> fields_ok infos"
  by (simp add: fields_ok_def node_ok_def)

definition invalid_le :: "Slot option \<Rightarrow> Slot option \<Rightarrow> bool" where
  "invalid_le a b \<longleftrightarrow> (\<forall>x. a = Some x \<longrightarrow> (\<exists>y. b = Some y \<and> x \<le> y))"

definition marks_ok :: "fork_tree \<Rightarrow> bool" where
  "marks_ok infos \<longleftrightarrow>
     (\<forall>k \<in> dom infos. (\<forall>x. latest_invalid_ancestor (info_of infos k) = Some x \<longrightarrow> x \<le> key_slot k) \<and>
        (is_duplicate_confirmed (info_of infos k) \<longrightarrow> info_is_candidate (info_of infos k))) \<and>
     (\<forall>k p. up infos k = Some p \<longrightarrow>
        invalid_le (latest_invalid_ancestor (info_of infos p)) (latest_invalid_ancestor (info_of infos k)) \<and>
        (is_duplicate_confirmed (info_of infos k) \<longrightarrow> is_duplicate_confirmed (info_of infos p)))"

definition stakes_ok :: "(Slot \<Rightarrow> Pubkey \<Rightarrow> u64) \<Rightarrow> fork_tree \<Rightarrow> (Pubkey \<rightharpoonup> SlotHashKey) \<Rightarrow> bool" where
  "stakes_ok stake infos votes \<longleftrightarrow> finite (dom votes) \<and>
     (\<forall>k \<in> dom infos. stake_voted_at (info_of infos k) = voted stake votes k)"

definition fork_choice_ok :: "(Slot \<Rightarrow> Pubkey \<Rightarrow> u64) \<Rightarrow> HeaviestSubtreeForkChoice \<Rightarrow> bool" where
  "fork_choice_ok stake s \<longleftrightarrow> well_linked (fork_infos s) (tree_root s) \<and> fields_ok (fork_infos s) \<and>
     marks_ok (fork_infos s) \<and> stakes_ok stake (fork_infos s) (latest_votes s)"

lemma invalid_le_refl [simp]: "invalid_le a a"
  by (simp add: invalid_le_def)

lemma invalid_le_None [simp]: "invalid_le None a"
  by (simp add: invalid_le_def)

lemma confirmed_up:
  assumes "well_linked infos root" and "marks_ok infos" and "descends infos a x" and "is_duplicate_confirmed (info_of infos x)"
  shows "is_duplicate_confirmed (info_of infos a)"
  using assms(1,3,4)
proof (induction x rule: up_induct)
  case (node x)
  then show ?case using descends_up [OF assms(1), of a x] assms(2) by (auto simp: marks_ok_def)
qed

text \<open>A batch leaves every block aggregated, or with its fields and its children.\<close>

definition settled :: "fork_tree \<Rightarrow> fork_tree \<Rightarrow> SlotHashKey \<Rightarrow> bool" where
  "settled infos infos' k \<longleftrightarrow>
     (\<exists>start. op_info infos' k OpAggregate start = infos' k) \<or>
     same_kids infos infos' k \<and>
     best_slot (info_of infos' k) = best_slot (info_of infos k) \<and>
     deepest_slot (info_of infos' k) = deepest_slot (info_of infos k) \<and>
     height (info_of infos' k) = height (info_of infos k) \<and>
     (info_is_candidate (info_of infos' k) \<longrightarrow> info_is_candidate (info_of infos k)) \<and>
     stake_voted_subtree (info_of infos' k) - stake_voted_at (info_of infos' k) =
       stake_voted_subtree (info_of infos k) - stake_voted_at (info_of infos k)"

lemma best_ok_descends:
  assumes "best_ok infos k" and "\<And>c. c \<in> kids infos k \<Longrightarrow> descends infos c (best_slot (info_of infos c))"
  shows "descends infos k (best_slot (info_of infos k))"
proof (cases "candidates infos (kids infos k) = {}")
  case True
  with assms(1) show ?thesis by (simp add: best_ok_def)
next
  case False
  with assms(1) obtain c where c: "heaviest infos (kids infos k) c" "best_slot (info_of infos k) = best_slot (info_of infos c)"
    by (auto simp: best_ok_def)
  then have "c \<in> kids infos k" by (simp add: heaviest_def candidates_def)
  with c(2) assms(2) [of c] descends_kid show ?thesis by simp
qed

lemma fields_settled:
  assumes linked: "well_linked infos root" and shape: "same_shape infos infos'"
    and settled: "\<And>k. k \<in> dom infos \<Longrightarrow> settled infos infos' k"
    and ok: "\<And>k. k \<in> dom infos \<Longrightarrow> \<nexists>start. op_info infos' k OpAggregate start = infos' k \<Longrightarrow> node_ok infos k"
  shows "fields_ok infos'"
proof -
  have linked': "well_linked infos' root" using linked well_linked_same_shape [OF shape] by simp
  have dom: "dom infos' = dom infos" "kids infos' = kids infos" using shape by (simp_all add: same_shape_def)
  have fields: "summed infos' k \<and> deepest_ok infos' k \<and> (info_is_candidate (info_of infos' k) \<longrightarrow> best_ok infos' k) \<and>
      (best_ok infos' k \<or> node_ok infos k \<and> best_slot (info_of infos' k) = best_slot (info_of infos k))" if k: "k \<in> dom infos" for k
  proof (cases "\<exists>start. op_info infos' k OpAggregate start = infos' k")
    case True
    then obtain start where "op_info infos' k OpAggregate start = infos' k" ..
    moreover obtain info where "infos' k = Some info" using k dom(1) by blast
    ultimately show ?thesis using aggregated(1,2,3) [OF linked'] by auto
  next
    case False
    with settled [OF k] ok [OF k False] show ?thesis
      unfolding settled_def node_ok_def using summed_kept deepest_ok_kept best_ok_kept by metis
  qed
  have "descends infos' k (best_slot (info_of infos' k))" if "k \<in> dom infos'" for k
    using linked' that
  proof (induction k rule: tree_induct)
    case (node k)
    show ?case
    proof (cases "best_ok infos' k")
      case True
      then show ?thesis by (rule best_ok_descends) (rule node.IH)
    next
      case False
      from node.hyps dom(1) have k: "k \<in> dom infos" by simp
      with False fields [OF k] descends_shape [OF shape] show ?thesis by (simp add: node_ok_def)
    qed
  qed
  with fields dom(1) show ?thesis by (simp add: fields_ok_def)
qed

section \<open>Votes\<close>

definition move_stake :: "UpdateOperations \<Rightarrow> SlotHashKey \<Rightarrow> ForkInfo \<Rightarrow> ForkInfo" where
  "move_stake ops k info = info\<lparr>stake_voted_at := stake_voted_at info - removed ops k + added ops k,
     stake_voted_subtree := stake_voted_subtree info - removed ops k + added ops k\<rparr>"

lemma votes_at:
  assumes "ops_ok infos ops"
  shows "op_infos infos' k info (ops_at k (rev ops)) =
    (if has_agg ops k then op_info infos' k OpAggregate (move_stake ops k info) else Some (move_stake ops k info))"
proof -
  have tree: "btree_ok ops" and entries: "\<forall>e \<in> set ops. vote_entry e" using assms by (simp_all add: ops_ok_def)
  have "ops_at k (rev ops) =
      rev (List.map_filter (\<lambda>l. map_of ops (k, l)) [LabelAggregate, LabelAdd, LabelSubtract])"
    using vote_entries(4) [OF entries] by (intro ops_at_labels [OF tree]) (blast, simp add: less_UpdateLabel_def)
  then show ?thesis
    using vote_entries(1-3) [OF entries, of k]
    by (auto simp: map_filter_simps has_agg_def move_stake_def added_def removed_def simp del: op_info.simps(3)
        split: option.splits)
qed

lemma move_stake_none:
  assumes "ops_ok infos ops" and "up infos c = Some k" and "\<not> has_agg ops k"
  shows "move_stake ops c info = info" and "\<not> has_agg ops c"
proof -
  have "map_of ops (c, lab) = None" for lab using assms unfolding ops_ok_def by blast
  then show "move_stake ops c info = info" "\<not> has_agg ops c"
    by (simp_all add: move_stake_def has_agg_def added_def removed_def)
qed

lemma votes_processed:
  assumes linked: "well_linked infos root" and marks: "marks_ok infos" and ops: "ops_ok infos ops"
    and fields: "\<And>k. k \<in> dom infos \<Longrightarrow> \<not> has_agg ops k \<Longrightarrow> node_ok infos k"
  shows "\<exists>infos'. process_update_operations infos ops = Some infos' \<and> same_shape infos infos' \<and> fields_ok infos' \<and>
    (\<forall>k info. infos k = Some info \<and> \<not> has_agg ops k \<longrightarrow> infos' k = Some (move_stake ops k info)) \<and>
    (\<forall>k \<in> dom infos. stake_voted_at (info_of infos' k) = stake_voted_at (info_of infos k) - removed ops k + added ops k \<and>
       is_duplicate_confirmed (info_of infos' k) = is_duplicate_confirmed (info_of infos k) \<and>
       latest_invalid_ancestor (info_of infos' k) = latest_invalid_ancestor (info_of infos k))"
proof -
  have tree: "btree_ok ops" and entries: "\<forall>e \<in> set ops. vote_entry e" using ops by (simp_all add: ops_ok_def)
  have "entry_ok infos (fst (fst e)) (snd (fst e)) (snd e)" if "e \<in> set ops" for e
    using entries that by (cases e rule: vote_entry.cases) auto
  then have "no_conflict infos (rev ops)" by (simp add: no_conflict_def)
  from apply_operations_total [OF descending_rev [OF tree] linked this]
  obtain infos' where run: "apply_operations infos (rev ops) = Some infos'" ..
  note final = apply_operations_final [OF descending_rev [OF tree] linked run]
  have shape: "same_shape infos infos'" using final by blast
  have linked': "well_linked infos' root" using linked well_linked_same_shape [OF shape] by simp
  have at: "infos' k = (if has_agg ops k then op_info infos' k OpAggregate (move_stake ops k info)
      else Some (move_stake ops k info))" if "infos k = Some info" for k info
    using final [THEN conjunct2, rule_format, of k] that votes_at [OF ops] by (simp del: op_info.simps)
  have settled: "settled infos infos' k" if k: "k \<in> dom infos" for k
  proof (cases "has_agg ops k")
    case True
    with k at have "\<exists>start. op_info infos' k OpAggregate start = infos' k" by (metis domD)
    then show ?thesis by (simp only: settled_def simp_thms)
  next
    case False
    have "infos' c = infos c" if "c \<in> kids infos k" for c
      using that linked_kids [OF linked, of c k] kid_in_dom [OF linked that] move_stake_none [OF ops _ False, of c] at [of c]
      by auto
    then have "same_kids infos infos' k" using shape by (simp add: same_kids_def same_shape_def)
    moreover obtain info where "infos k = Some info" using k by blast
    ultimately show ?thesis using at [of k info] False by (simp add: settled_def move_stake_def info_is_candidate_def)
  qed
  have "stake_voted_at (info_of infos' k) = stake_voted_at (info_of infos k) - removed ops k + added ops k \<and>
       is_duplicate_confirmed (info_of infos' k) = is_duplicate_confirmed (info_of infos k) \<and>
       latest_invalid_ancestor (info_of infos' k) = latest_invalid_ancestor (info_of infos k)" if "k \<in> dom infos" for k
    using linked that
  proof (induction k rule: tree_induct)
    case (node k)
    obtain info where info: "infos k = Some info" using node.hyps by blast
    show ?case
    proof (cases "has_agg ops k")
      case False
      with at [OF info] info show ?thesis by (simp add: move_stake_def)
    next
      case True
      with at [OF info] have eq: "infos' k = op_info infos' k OpAggregate (move_stake ops k info)" by simp
      obtain info' where info': "infos' k = Some info'" using shape info by (auto simp: same_shape_def dom_def)
      have kids: "is_duplicate_confirmed (info_of infos' c) = is_duplicate_confirmed (info_of infos c)" if "c \<in> kids infos k" for c
        using node.IH [OF that] by simp
      have "is_duplicate_confirmed info \<and> latest_invalid_ancestor info = None"
        if "c \<in> kids infos k" "is_duplicate_confirmed (info_of infos c)" for c
        using that marks linked_kids [OF linked] info node.hyps by (force simp: marks_ok_def info_is_candidate_def)
      with aggregated(4,5) [OF linked' info' eq [symmetric, unfolded info']] info info' kids shape show ?thesis
        by (auto simp: move_stake_def same_shape_def split: if_splits)
    qed
  qed
  moreover have "fields_ok infos'"
  proof (rule fields_settled [OF linked shape settled])
    fix k
    assume k: "k \<in> dom infos" "\<nexists>start. op_info infos' k OpAggregate start = infos' k"
    then have "\<not> has_agg ops k" using at by (metis domD)
    with k(1) show "node_ok infos k" by (rule fields)
  qed
  moreover have "infos' k = Some (move_stake ops k info)" if "infos k = Some info" "\<not> has_agg ops k" for k info
    using at that by simp
  ultimately show ?thesis using run shape unfolding process_update_operations_def by blast
qed

lemma marks_kept:
  assumes "same_shape infos infos'" and "marks_ok infos" and "well_linked infos root"
    and "\<And>k. k \<in> dom infos \<Longrightarrow> is_duplicate_confirmed (info_of infos' k) = is_duplicate_confirmed (info_of infos k) \<and>
       latest_invalid_ancestor (info_of infos' k) = latest_invalid_ancestor (info_of infos k)"
  shows "marks_ok infos'"
proof -
  have "up infos' = up infos" "dom infos' = dom infos" using assms(1) by (simp_all add: same_shape_def)
  moreover have "p \<in> dom infos" "k \<in> dom infos" if "up infos k = Some p" for k p
    using linked_up [OF assms(3) that] up_in_dom [OF that] by simp_all
  ultimately show ?thesis using assms(2,4) unfolding marks_ok_def info_is_candidate_def by metis
qed

lemma ops_ok_Nil [simp]: "ops_ok infos []"
  by (simp add: ops_ok_def)

lemma votes_moved_Nil: "finite (dom votes) \<Longrightarrow> votes_moved stake votes [] votes"
  by (simp add: votes_moved_def added_def removed_def)

lemma add_votes_ok:
  assumes ok: "fork_choice_ok (stake_of get_epoch epoch_stakes) s" and fresh: "distinct (voters (tree_root s) pubkey_votes)"
  shows "\<exists>best s'. add_votes s pubkey_votes get_epoch epoch_stakes = Some (best, s') \<and>
    fork_choice_ok (stake_of get_epoch epoch_stakes) s' \<and> best_overall_slot s' = Some best \<and>
    tree_root s' = tree_root s \<and> same_shape (fork_infos s) (fork_infos s') \<and>
    latest_votes s' = record_votes (tree_root s) (latest_votes s) pubkey_votes \<and>
    (\<forall>k \<in> dom (fork_infos s). is_duplicate_confirmed (info_of (fork_infos s') k) = is_duplicate_confirmed (info_of (fork_infos s) k) \<and>
       latest_invalid_ancestor (info_of (fork_infos s') k) = latest_invalid_ancestor (info_of (fork_infos s) k))"
proof -
  let ?votes = "record_votes (tree_root s) (latest_votes s) pubkey_votes"
  have linked: "well_linked (fork_infos s) (tree_root s)" and fields: "fields_ok (fork_infos s)"
    and marks: "marks_ok (fork_infos s)" and stakes: "stakes_ok (stake_of get_epoch epoch_stakes) (fork_infos s) (latest_votes s)"
    using ok by (simp_all add: fork_choice_ok_def)
  have fin: "finite (dom (latest_votes s))" using stakes by (simp add: stakes_ok_def)
  note moved = votes_moved_Nil [OF fin, of "stake_of get_epoch epoch_stakes"]
  from generate_update_operations_ok [OF linked ops_ok_Nil moved fresh, of "{}"]
  obtain ops observed where gen: "generate_update_operations get_epoch epoch_stakes (fork_infos s) (tree_root s)
      ([], latest_votes s, {}) pubkey_votes = Some (ops, ?votes, observed)" "ops_ok (fork_infos s) ops"
    "votes_moved (stake_of get_epoch epoch_stakes) (latest_votes s) ops ?votes" by auto
  from votes_processed [OF linked marks gen(2) fields_ok_node [OF fields]] obtain infos' where
    run: "process_update_operations (fork_infos s) ops = Some infos'" and shape: "same_shape (fork_infos s) infos'"
    and fields': "fields_ok infos'"
    and views: "\<forall>k \<in> dom (fork_infos s). stake_voted_at (info_of infos' k) =
        stake_voted_at (info_of (fork_infos s) k) - removed ops k + added ops k \<and>
       is_duplicate_confirmed (info_of infos' k) = is_duplicate_confirmed (info_of (fork_infos s) k) \<and>
       latest_invalid_ancestor (info_of infos' k) = latest_invalid_ancestor (info_of (fork_infos s) k)" by blast
  have linked': "well_linked infos' (tree_root s)" using linked well_linked_same_shape [OF shape] by simp
  have "marks_ok infos'" using views by (intro marks_kept [OF shape marks linked]) simp
  moreover have "stakes_ok (stake_of get_epoch epoch_stakes) infos' ?votes"
    using stakes gen(3) views shape by (auto simp: stakes_ok_def votes_moved_def same_shape_def)
  moreover from linked_root [OF linked'] obtain info where "infos' (tree_root s) = Some info" by blast
  ultimately show ?thesis
    using gen(1) run linked' fields' shape views
    by (simp add: add_votes_def fork_choice_ok_def best_overall_slot_def get_best_slot_def)
qed

lemma add_votes_voters:
  "add_votes s pubkey_votes get_epoch epoch_stakes = Some r \<Longrightarrow> distinct (voters (tree_root s) pubkey_votes)"
  by (auto simp: add_votes_def bind_eq_Some_conv dest: generate_update_operations_voters)

section \<open>Subtrees\<close>

definition between :: "fork_tree \<Rightarrow> SlotHashKey \<Rightarrow> SlotHashKey \<Rightarrow> SlotHashKey set" where
  "between infos root2 k = {x. descends infos k x \<and> \<not> (descends infos k root2 \<and> descends infos root2 x)}"

lemma descends_antisym:
  "well_linked infos root \<Longrightarrow> descends infos a b \<Longrightarrow> descends infos b a \<Longrightarrow> a = b"
  using descends_le [of infos root a b] descends_le [of infos root b a] by auto

lemma between_step:
  assumes "well_linked infos root" and "k \<noteq> root2"
  shows "between infos root2 k = insert k (\<Union>c \<in> kids infos k. between infos root2 c)"
proof -
  have below: "descends infos c root2" if c: "c \<in> kids infos k" "descends infos c x"
    and r: "descends infos k root2" "descends infos root2 x" for c x
  proof (rule ccontr)
    assume no: "\<not> descends infos c root2"
    with descends_linear [OF assms(1) c(2) r(2)] have "descends infos root2 c" by blast
    with no descends_up [OF assms(1), of root2 c] c(1) linked_kids [OF assms(1), of c k] have "descends infos root2 k" by auto
    with r(1) assms show False using descends_antisym by blast
  qed
  have self: "k \<in> between infos root2 k"
    using assms descends_antisym [OF assms(1), of k root2] by (auto simp: between_def)
  have "x \<in> between infos root2 k \<longleftrightarrow> x = k \<or> (\<exists>c \<in> kids infos k. x \<in> between infos root2 c)" for x
  proof (cases "x = k")
    case False
    then have "descends infos k x \<longleftrightarrow> (\<exists>c \<in> kids infos k. descends infos c x)" using descends_cases by blast
    then show ?thesis using False below descends_kid [of _ infos k root2] unfolding between_def by blast
  qed (simp add: self)
  then show ?thesis by auto
qed

lemma between_self: "between infos k k = {}"
  by (simp add: between_def)

lemma subtree_loop_list:
  assumes "\<And>c pending reachable. c \<in> set cs \<Longrightarrow>
      subtree_loop infos root2 (c # pending) reachable = subtree_loop infos root2 pending (between infos root2 c \<union> reachable)"
  shows "subtree_loop infos root2 (cs @ pending) reachable =
    subtree_loop infos root2 pending ((\<Union>c \<in> set cs. between infos root2 c) \<union> reachable)"
  using assms
proof (induction cs arbitrary: reachable)
  case (Cons c cs)
  have "subtree_loop infos root2 ((c # cs) @ pending) reachable =
      subtree_loop infos root2 (cs @ pending) (between infos root2 c \<union> reachable)"
    using Cons.prems [of c] by simp
  also have "\<dots> = subtree_loop infos root2 pending ((\<Union>c \<in> set cs. between infos root2 c) \<union> (between infos root2 c \<union> reachable))"
    using Cons.prems by (intro Cons.IH) simp
  also have "(\<Union>c \<in> set cs. between infos root2 c) \<union> (between infos root2 c \<union> reachable) =
      (\<Union>c \<in> set (c # cs). between infos root2 c) \<union> reachable" by auto
  finally show ?case .
qed simp

lemma subtree_loop_node:
  assumes "well_linked infos root" and "k \<in> dom infos"
  shows "subtree_loop infos root2 (k # pending) reachable = subtree_loop infos root2 pending (between infos root2 k \<union> reachable)"
  using assms
proof (induction k arbitrary: pending reachable rule: tree_induct)
  case (node k)
  obtain info where info: "infos k = Some info" using node.hyps by blast
  show ?case
  proof (cases "k = root2")
    case True
    then show ?thesis by (subst subtree_loop.simps) (simp add: between_self)
  next
    case False
    let ?cs = "rev (sorted_list_of_set (children info))"
    have cs: "set ?cs = kids infos k" using finite_kids [OF assms(1), of k] kids_Some [of infos, OF info] by simp
    have "subtree_loop infos root2 (k # pending) reachable = subtree_loop infos root2 (?cs @ pending) (insert k reachable)"
      by (subst subtree_loop.simps) (simp add: False info)
    also have "\<dots> = subtree_loop infos root2 pending ((\<Union>c \<in> set ?cs. between infos root2 c) \<union> insert k reachable)"
      using node.IH cs by (intro subtree_loop_list) blast
    also have "(\<Union>c \<in> set ?cs. between infos root2 c) \<union> insert k reachable = between infos root2 k \<union> reachable"
      unfolding between_step [OF assms(1) False] cs by auto
    finally show ?thesis .
  qed
qed

lemma subtree_diff_eq:
  assumes "well_linked infos root" and "k \<in> dom infos"
  shows "subtree_diff infos k root2 = Some (between infos root2 k)"
proof -
  have "subtree_loop infos root2 [] (between infos root2 k \<union> {}) = Some (between infos root2 k)"
    by (subst subtree_loop.simps) simp
  with assms subtree_loop_node [OF assms] show ?thesis by (auto simp: subtree_diff_def)
qed

lemma whole_subtree:
  assumes "well_linked infos root" and "k \<in> dom infos"
  shows "subtree_diff infos k default_key = Some {x. descends infos k x}"
  using subtree_diff_eq [OF assms] descends_dom [OF assms(1) _ assms(2)] linked_default [OF assms(1)]
  by (auto simp: between_def)

end
