(* ===== verification/ForkChoiceMarks.thy ===== *)
theory ForkChoiceMarks
  imports ForkChoiceUpdates
begin

text \<open>
  Marking a fork invalid, when a duplicate of one of its blocks is seen, or valid, when a block is confirmed by the
  cluster: which blocks are candidates and confirmed afterwards, and that the invariant is kept.
\<close>

section \<open>The batch of a mark\<close>

fun mark_label :: "UpdateOperation \<Rightarrow> UpdateLabel" where
  "mark_label (OpMarkValid slot) = LabelMarkValid slot"
| "mark_label (OpMarkInvalid slot) = LabelMarkInvalid slot"
| "mark_label _ = LabelAggregate"

definition is_mark :: "UpdateOperation \<Rightarrow> bool" where
  "is_mark operation \<longleftrightarrow> (\<exists>slot. operation = OpMarkValid slot \<or> operation = OpMarkInvalid slot)"

definition marked_ops :: "UpdateOperation \<Rightarrow> SlotHashKey set \<Rightarrow> SlotHashKey \<times> UpdateLabel \<Rightarrow> UpdateOperation option" where
  "marked_ops operation ks e =
     (if fst e \<in> ks then
        if snd e = LabelAggregate then Some OpAggregate
        else if snd e = mark_label operation then Some operation else None
      else None)"

lemma insert_marks_spec:
  assumes "is_mark operation" and "btree_ok ops" and "map_of ops = marked_ops operation done_ks"
  shows "btree_ok (insert_marks operation ops ks) \<and> map_of (insert_marks operation ops ks) = marked_ops operation (done_ks \<union> set ks)"
  using assms(2,3)
proof (induction ks arbitrary: ops done_ks)
  case (Cons k ks)
  show ?case
  proof (cases "k \<in> done_ks")
    case True
    then have "snd (do_insert_aggregate_operation ops (Some operation) k) = ops"
      using Cons.prems(2) by (simp add: do_insert_aggregate_operation_def marked_ops_def)
    with Cons.IH [OF Cons.prems] True show ?thesis by (simp add: insert_absorb)
  next
    case False
    let ?ops = "btree_insert (k, LabelAggregate) OpAggregate (btree_insert (k, mark_label operation) operation ops)"
    have "snd (do_insert_aggregate_operation ops (Some operation) k) = ?ops"
      using Cons.prems(2) False assms(1) by (auto simp: do_insert_aggregate_operation_def marked_ops_def is_mark_def)
    moreover have "map_of ?ops = marked_ops operation (insert k done_ks)"
      using Cons.prems False assms(1)
      by (auto simp: btree_lookup_insert btree_ok_insert marked_ops_def fun_eq_iff is_mark_def)
    moreover have "btree_ok ?ops" using Cons.prems by (simp add: btree_ok_insert)
    ultimately show ?thesis using Cons.IH [of ?ops "insert k done_ks"] by simp
  qed
qed simp

lemma mark_batch:
  assumes linked: "well_linked infos root" and key: "key \<in> dom infos" and mark: "is_mark operation"
  shows "\<exists>ops. insert_aggregate_operations infos
      (insert_marks operation [] (sorted_list_of_set {x. descends infos key x})) key = Some ops \<and>
    btree_ok ops \<and> (\<forall>k lab. map_of ops (k, lab) =
      (if (descends infos key k \<or> descends infos k key) \<and> lab = LabelAggregate then Some OpAggregate
       else if descends infos key k \<and> lab = mark_label operation then Some operation else None))"
proof -
  let ?sub = "{x. descends infos key x}"
  let ?ops = "insert_marks operation [] (sorted_list_of_set ?sub)"
  have "?sub \<subseteq> dom infos" using descends_dom [OF linked _ key] by blast
  then have fin: "finite ?sub" using linked_finite [OF linked] by (rule finite_subset)
  have ops: "btree_ok ?ops" "map_of ?ops = marked_ops operation ?sub"
    using insert_marks_spec [OF mark, of "[]" "{}" "sorted_list_of_set ?sub"] fin by (simp_all add: marked_ops_def fun_eq_iff)
  have label: "mark_label operation \<noteq> LabelAggregate" using mark by (auto simp: is_mark_def)
  have plain: "agg_plain ?ops" by (auto simp: agg_plain_def ops marked_ops_def split: if_splits)
  obtain as where as: "ancestor_iterator infos key = Some as" using ancestor_iterator_ok [OF linked] by blast
  have anc: "a \<in> set as \<longleftrightarrow> a \<noteq> key \<and> descends infos a key" for a by (rule ancestor_iterator_set [OF linked as])
  have "\<not> has_agg ?ops a" if "a \<in> set as" for a
    using that anc descends_antisym [OF linked, of a key] by (auto simp: has_agg_def ops marked_ops_def)
  then have spec: "btree_ok (insert_across None ?ops as) \<and> map_of (insert_across None ?ops as) = with_aggs ?ops (set as)"
    by (intro insert_across_spec [OF linked as ops(1) plain]) blast
  have "with_aggs ?ops (set as) (k, lab) =
      (if (descends infos key k \<or> descends infos k key) \<and> lab = LabelAggregate then Some OpAggregate
       else if descends infos key k \<and> lab = mark_label operation then Some operation else None)" for k lab
    using label by (auto simp: with_aggs_def ops marked_ops_def anc)
  with spec show ?thesis by (auto simp: insert_aggregate_operations_def as)
qed

definition marked :: "UpdateOperation \<Rightarrow> fork_tree \<Rightarrow> SlotHashKey \<Rightarrow> SlotHashKey \<Rightarrow> ForkInfo \<Rightarrow> ForkInfo" where
  "marked operation infos key k info =
     (if descends infos key k then the (op_info infos k operation info) else info)"

definition markable :: "UpdateOperation \<Rightarrow> fork_tree \<Rightarrow> SlotHashKey \<Rightarrow> bool" where
  "markable operation infos key \<longleftrightarrow> (\<forall>slot k info. operation = OpMarkInvalid slot \<longrightarrow> descends infos key k \<longrightarrow>
     infos k = Some info \<longrightarrow> \<not> is_duplicate_confirmed info)"

lemma op_info_mark:
  "is_mark operation \<Longrightarrow> op_info infos' k operation info = op_info infos k operation info"
  by (auto simp: is_mark_def)

lemma mark_processed:
  assumes linked: "well_linked infos root" and key: "key \<in> dom infos" and mark: "is_mark operation"
    and fields: "fields_ok infos" and markable: "markable operation infos key"
  shows "\<exists>ops infos'. insert_aggregate_operations infos
      (insert_marks operation [] (sorted_list_of_set {x. descends infos key x})) key = Some ops \<and>
    process_update_operations infos ops = Some infos' \<and> same_shape infos infos' \<and> fields_ok infos' \<and>
    (\<forall>k info. infos k = Some info \<longrightarrow> infos' k =
      (if descends infos key k \<or> descends infos k key then op_info infos' k OpAggregate (marked operation infos key k info)
       else Some info))"
proof -
  from mark_batch [OF linked key mark] obtain ops where ops: "insert_aggregate_operations infos
      (insert_marks operation [] (sorted_list_of_set {x. descends infos key x})) key = Some ops" "btree_ok ops"
    and look: "\<And>k lab. map_of ops (k, lab) =
      (if (descends infos key k \<or> descends infos k key) \<and> lab = LabelAggregate then Some OpAggregate
       else if descends infos key k \<and> lab = mark_label operation then Some operation else None)" by blast
  have label: "mark_label operation \<noteq> LabelAggregate" "LabelAggregate < mark_label operation"
    using mark by (auto simp: is_mark_def less_UpdateLabel_def)
  have "entry_ok infos (fst (fst e)) (snd (fst e)) (snd e)" if "e \<in> set ops" for e
    using that set_map_of [OF ops(2), of e] look [of "fst (fst e)" "snd (fst e)"] mark markable
    by (auto simp: is_mark_def markable_def split: if_splits)
  then have "no_conflict infos (rev ops)" by (simp add: no_conflict_def)
  from apply_operations_total [OF descending_rev [OF ops(2)] linked this]
  obtain infos' where run: "apply_operations infos (rev ops) = Some infos'" ..
  note final = apply_operations_final [OF descending_rev [OF ops(2)] linked run]
  have shape: "same_shape infos infos'" using final by blast
  have "lab \<in> set [LabelAggregate, mark_label operation]" if "(k, lab) \<in> fst ` set ops" for k lab
    using that map_of_eq_None_iff [of ops "(k, lab)"] look [of k lab] by (auto split: if_splits)
  then have at: "ops_at k (rev ops) = rev (List.map_filter (\<lambda>l. map_of ops (k, l)) [LabelAggregate, mark_label operation])" for k
    using label(2) by (intro ops_at_labels [OF ops(2)]) (blast, simp)
  have after: "infos' k =
      (if descends infos key k \<or> descends infos k key then op_info infos' k OpAggregate (marked operation infos key k info)
       else Some info)" if info: "infos k = Some info" for k info
  proof -
    have "\<exists>info'. op_info infos k operation info = Some info'" if "descends infos key k"
      using markable that info by (intro op_info_total [OF linked]) (auto simp: markable_def)
    then have "op_infos infos' k info (ops_at k (rev ops)) =
      (if descends infos key k \<or> descends infos k key then op_info infos' k OpAggregate (marked operation infos key k info)
       else Some info)"
      unfolding at look using label op_info_mark [OF mark, of infos' k info infos]
      by (auto simp: map_filter_simps marked_def simp del: op_info.simps)
    with final [THEN conjunct2, rule_format, of k] info show ?thesis by simp
  qed
  have settled: "settled infos infos' k" if k: "k \<in> dom infos" for k
  proof (cases "descends infos key k \<or> descends infos k key")
    case True
    obtain info where "infos k = Some info" using k by blast
    from after [OF this] True have "\<exists>start. op_info infos' k OpAggregate start = infos' k" by metis
    then show ?thesis by (simp only: settled_def simp_thms)
  next
    case False
    have "infos' c = infos c" if c: "c \<in> kids infos k" for c
    proof -
      have "\<not> descends infos key c" using False c linked_kids [OF linked, of c k] descends_up [OF linked, of key c] descends_kid by auto
      moreover have "\<not> descends infos c key" using False c descends_kid by blast
      ultimately show ?thesis using kid_in_dom [OF linked c] after [of c] by auto
    qed
    then have "same_kids infos infos' k" using shape by (simp add: same_kids_def same_shape_def)
    moreover obtain info where "infos k = Some info" using k by blast
    ultimately show ?thesis using after [of k info] False by (simp add: settled_def)
  qed
  from ops(1) run shape fields_settled [OF linked shape settled fields_ok_node [OF fields]] after show ?thesis
    by (auto simp: process_update_operations_def simp del: op_info.simps)
qed

section \<open>Marks after a batch\<close>

definition marks_of :: "fork_tree \<Rightarrow> SlotHashKey \<Rightarrow> bool \<times> Slot option" where
  "marks_of infos k = (is_duplicate_confirmed (info_of infos k), latest_invalid_ancestor (info_of infos k))"

text \<open>What a mark at \<open>key\<close> makes of the marks of a block.\<close>

definition invalidated :: "fork_tree \<Rightarrow> SlotHashKey \<Rightarrow> SlotHashKey \<Rightarrow> bool \<times> Slot option" where
  "invalidated infos key k =
     (is_duplicate_confirmed (info_of infos k),
      if descends infos key k
      then Some (case latest_invalid_ancestor (info_of infos k) of Some x \<Rightarrow> max x (key_slot key) | None \<Rightarrow> key_slot key)
      else latest_invalid_ancestor (info_of infos k))"

definition validated :: "fork_tree \<Rightarrow> SlotHashKey \<Rightarrow> SlotHashKey \<Rightarrow> bool \<times> Slot option" where
  "validated infos key k =
     (is_duplicate_confirmed (info_of infos k) \<or> descends infos k key,
      if descends infos k key then None
      else if descends infos key k \<and> invalid_le (latest_invalid_ancestor (info_of infos k)) (Some (key_slot key)) then None
      else latest_invalid_ancestor (info_of infos k))"

definition marks_after :: "UpdateOperation \<Rightarrow> fork_tree \<Rightarrow> SlotHashKey \<Rightarrow> fork_tree \<Rightarrow> bool" where
  "marks_after operation infos key infos' \<longleftrightarrow> (\<forall>k info. infos k = Some info \<longrightarrow> infos' k =
      (if descends infos key k \<or> descends infos k key then op_info infos' k OpAggregate (marked operation infos key k info)
       else Some info))"

lemma marks_after_step:
  assumes "well_linked infos root" and "same_shape infos infos'" and "marks_after operation infos key infos'"
    and "infos k = Some info" and "descends infos key k \<or> descends infos k key"
  shows "marks_of infos' k =
      (if \<exists>c \<in> kids infos k. fst (marks_of infos' c) then (True, None)
       else (is_duplicate_confirmed (marked operation infos key k info),
             latest_invalid_ancestor (marked operation infos key k info)))"
    and "stake_voted_at (info_of infos' k) = stake_voted_at (marked operation infos key k info)"
proof -
  have linked': "well_linked infos' root" using assms(1) well_linked_same_shape [OF assms(2)] by simp
  obtain info' where info': "infos' k = Some info'" using assms(2,4) by (auto simp: same_shape_def dom_def)
  have eq: "op_info infos' k OpAggregate (marked operation infos key k info) = Some info'"
    using assms(3-5) info' unfolding marks_after_def by metis
  from aggregated(4,5) [OF linked' info' eq] info' assms(2)
  show "marks_of infos' k =
      (if \<exists>c \<in> kids infos k. fst (marks_of infos' c) then (True, None)
       else (is_duplicate_confirmed (marked operation infos key k info),
             latest_invalid_ancestor (marked operation infos key k info)))"
    and "stake_voted_at (info_of infos' k) = stake_voted_at (marked operation infos key k info)"
    by (simp_all add: marks_of_def same_shape_def)
qed

lemma marks_after_other:
  "marks_after operation infos key infos' \<Longrightarrow> infos k = Some info \<Longrightarrow>
     \<not> (descends infos key k \<or> descends infos k key) \<Longrightarrow> infos' k = Some info"
  unfolding marks_after_def by metis

lemma confirmed_is_candidate:
  "marks_ok infos \<Longrightarrow> k \<in> dom infos \<Longrightarrow> is_duplicate_confirmed (info_of infos k) \<Longrightarrow> latest_invalid_ancestor (info_of infos k) = None"
  by (simp add: marks_ok_def info_is_candidate_def)

lemma confirmed_kid:
  assumes "well_linked infos root" and "marks_ok infos" and "c \<in> kids infos k" and "is_duplicate_confirmed (info_of infos c)"
  shows "is_duplicate_confirmed (info_of infos k) \<and> latest_invalid_ancestor (info_of infos k) = None"
proof -
  have "is_duplicate_confirmed (info_of infos k)"
    using assms linked_kids [OF assms(1), of c k] by (auto simp: marks_ok_def)
  moreover have "k \<in> dom infos" using assms(1,3) linked_kids linked_up by metis
  ultimately show ?thesis using confirmed_is_candidate [OF assms(2)] by simp
qed

lemma invalid_marks:
  assumes linked: "well_linked infos root" and shape: "same_shape infos infos'" and marks: "marks_ok infos"
    and after: "marks_after (OpMarkInvalid (key_slot key)) infos key infos'"
    and unconfirmed: "\<not> is_duplicate_confirmed (info_of infos key)" and k: "k \<in> dom infos"
  shows "marks_of infos' k = invalidated infos key k"
  using linked k
proof (induction k rule: tree_induct)
  case (node k)
  obtain info where info: "infos k = Some info" using node.hyps by blast
  have kids: "fst (marks_of infos' c) \<longleftrightarrow> is_duplicate_confirmed (info_of infos c)" if "c \<in> kids infos k" for c
    using node.IH [OF that] by (simp add: invalidated_def)
  have sub: "\<not> is_duplicate_confirmed (info_of infos x)" if "descends infos key x" for x
    using confirmed_up [OF linked marks that] unconfirmed by blast
  show ?case
  proof (cases "descends infos key k \<or> descends infos k key")
    case False
    with marks_after_other [OF after info False] info show ?thesis by (simp add: marks_of_def invalidated_def)
  next
    case True
    show ?thesis
    proof (cases "descends infos key k")
      case True
      have "\<not> is_duplicate_confirmed (info_of infos c)" if "c \<in> kids infos k" for c
        using that True descends_up [OF linked, of key c] linked_kids [OF linked] by (intro sub) auto
      with kids have "\<not> (\<exists>c \<in> kids infos k. fst (marks_of infos' c))" by blast
      with marks_after_step(1) [OF linked shape after info] True sub [OF True] info show ?thesis
        by (auto simp: marked_def invalidated_def update_with_newly_invalid_ancestor_def max_def not_less split: option.splits)
    next
      case False
      with marks_after_step(1) [OF linked shape after info] \<open>descends infos key k \<or> descends infos k key\<close> kids info
        confirmed_kid [OF linked marks, of _ k]
      show ?thesis by (auto simp: marked_def invalidated_def)
    qed
  qed
qed

lemma valid_marks:
  assumes linked: "well_linked infos root" and shape: "same_shape infos infos'" and marks: "marks_ok infos"
    and after: "marks_after (OpMarkValid (key_slot key)) infos key infos'" and k: "k \<in> dom infos"
  shows "marks_of infos' k = validated infos key k"
  using linked k
proof (induction k rule: tree_induct)
  case (node k)
  obtain info where info: "infos k = Some info" using node.hyps by blast
  have kids: "fst (marks_of infos' c) \<longleftrightarrow> is_duplicate_confirmed (info_of infos c) \<or> descends infos c key" if "c \<in> kids infos k" for c
    using node.IH [OF that] by (simp add: validated_def)
  note step = marks_after_step(1) [OF linked shape after info]
  show ?case
  proof (cases "descends infos k key")
    case True
    show ?thesis
    proof (cases "k = key")
      case True
      have "latest_invalid_ancestor info = Some x \<Longrightarrow> x \<le> key_slot key" for x
        using marks info True node.hyps by (auto simp: marks_ok_def)
      then have "is_duplicate_confirmed (marked (OpMarkValid (key_slot key)) infos key k info)"
          "latest_invalid_ancestor (marked (OpMarkValid (key_slot key)) infos key k info) = None"
        using True by (auto simp: marked_def Let_def update_with_newly_valid_ancestor_def split: option.splits)
      with step True show ?thesis by (simp add: validated_def)
    next
      case False
      with True obtain c where "c \<in> kids infos k" "descends infos c key" using descends_cases [of infos k key] by blast
      with kids step True show ?thesis by (auto simp: validated_def)
    qed
  next
    case no: False
    show ?thesis
    proof (cases "descends infos key k")
      case True
      with no have less: "key_slot key < key_slot k" using descends_le [OF linked True] by auto
      have "fst (marks_of infos' c) \<longleftrightarrow> is_duplicate_confirmed (info_of infos c)" if "c \<in> kids infos k" for c
        using kids [OF that] no descends_kid [OF that] by blast
      with step True less info confirmed_kid [OF linked marks, of _ k] no show ?thesis
        by (auto simp: marked_def validated_def Let_def update_with_newly_valid_ancestor_def invalid_le_def split: option.splits)
    next
      case False
      with no marks_after_other [OF after info] info show ?thesis by (simp add: marks_of_def validated_def)
    qed
  qed
qed

lemma marks_ok_iff:
  "marks_ok infos \<longleftrightarrow>
     (\<forall>k \<in> dom infos. invalid_le (snd (marks_of infos k)) (Some (key_slot k)) \<and>
        (fst (marks_of infos k) \<longrightarrow> snd (marks_of infos k) = None)) \<and>
     (\<forall>k p. up infos k = Some p \<longrightarrow> invalid_le (snd (marks_of infos p)) (snd (marks_of infos k)) \<and>
        (fst (marks_of infos k) \<longrightarrow> fst (marks_of infos p)))"
  by (simp add: marks_ok_def marks_of_def invalid_le_def info_is_candidate_def)

lemma invalidated_marks_ok:
  assumes linked: "well_linked infos root" and shape: "same_shape infos infos'" and marks: "marks_ok infos"
    and unconfirmed: "\<not> is_duplicate_confirmed (info_of infos key)"
    and after: "\<And>k. k \<in> dom infos \<Longrightarrow> marks_of infos' k = invalidated infos key k"
  shows "marks_ok infos'"
proof -
  have dom: "dom infos' = dom infos" "up infos' = up infos" using shape by (simp_all add: same_shape_def)
  have own: "invalid_le (snd (invalidated infos key k)) (Some (key_slot k)) \<and>
      (fst (invalidated infos key k) \<longrightarrow> snd (invalidated infos key k) = None)" if "k \<in> dom infos" for k
    using that marks confirmed_up [OF linked marks, of key k] unconfirmed descends_le [OF linked, of key k]
    by (auto simp: invalidated_def marks_ok_iff marks_of_def invalid_le_def split: option.splits)
  have edge: "invalid_le (snd (invalidated infos key p)) (snd (invalidated infos key k)) \<and>
      (fst (invalidated infos key k) \<longrightarrow> fst (invalidated infos key p))" if "up infos k = Some p" for k p
  proof -
    have "descends infos key p \<Longrightarrow> descends infos key k" using that descends_up [OF linked, of key k] by auto
    moreover have "invalid_le (latest_invalid_ancestor (info_of infos p)) (latest_invalid_ancestor (info_of infos k))"
        "is_duplicate_confirmed (info_of infos k) \<Longrightarrow> is_duplicate_confirmed (info_of infos p)"
      using that marks by (simp_all add: marks_ok_def)
    ultimately show ?thesis
      by (cases "latest_invalid_ancestor (info_of infos p)"; cases "latest_invalid_ancestor (info_of infos k)")
        (auto simp: invalidated_def invalid_le_def max_def)
  qed
  show ?thesis
    unfolding marks_ok_iff dom using own edge after linked_up [OF linked] up_in_dom by simp
qed

lemma validated_marks_ok:
  assumes linked: "well_linked infos root" and shape: "same_shape infos infos'" and marks: "marks_ok infos"
    and after: "\<And>k. k \<in> dom infos \<Longrightarrow> marks_of infos' k = validated infos key k"
  shows "marks_ok infos'"
proof -
  have dom: "dom infos' = dom infos" "up infos' = up infos" using shape by (simp_all add: same_shape_def)
  have own: "invalid_le (snd (validated infos key k)) (Some (key_slot k)) \<and>
      (fst (validated infos key k) \<longrightarrow> snd (validated infos key k) = None)" if "k \<in> dom infos" for k
    using that marks confirmed_is_candidate [OF marks that]
    by (auto simp: validated_def marks_ok_iff marks_of_def)
  have edge: "invalid_le (snd (validated infos key p)) (snd (validated infos key k)) \<and>
      (fst (validated infos key k) \<longrightarrow> fst (validated infos key p))" if "up infos k = Some p" for k p
  proof -
    have p: "descends infos key p \<Longrightarrow> descends infos key k" "descends infos k key \<Longrightarrow> descends infos p key"
      using that descends_up [OF linked, of key k] descends_kid [of k infos p key] linked_kids [OF linked, of k p] by auto
    have q: "descends infos key k \<Longrightarrow> descends infos key p \<or> descends infos p key"
      using that descends_up [OF linked, of key k] p(2) by auto
    have r: "invalid_le (latest_invalid_ancestor (info_of infos p)) (latest_invalid_ancestor (info_of infos k))"
        "is_duplicate_confirmed (info_of infos k) \<Longrightarrow> is_duplicate_confirmed (info_of infos p)"
      using that marks by (simp_all add: marks_ok_def)
    from p q r show ?thesis
      by (cases "latest_invalid_ancestor (info_of infos p)"; cases "latest_invalid_ancestor (info_of infos k)")
        (auto simp: validated_def invalid_le_def)
  qed
  show ?thesis
    unfolding marks_ok_iff dom using own edge after linked_up [OF linked] up_in_dom by simp
qed

section \<open>The operations\<close>

lemma mark_subtree_ok:
  assumes ok: "fork_choice_ok stake s" and key: "key \<in> dom (fork_infos s)" and mark: "is_mark operation"
    and markable: "markable operation (fork_infos s) key"
  shows "\<exists>s'. mark_subtree s operation key = Some s' \<and> tree_root s' = tree_root s \<and> latest_votes s' = latest_votes s \<and>
    same_shape (fork_infos s) (fork_infos s') \<and> fields_ok (fork_infos s') \<and>
    stakes_ok stake (fork_infos s') (latest_votes s') \<and> marks_after operation (fork_infos s) key (fork_infos s')"
proof -
  have linked: "well_linked (fork_infos s) (tree_root s)" and fields: "fields_ok (fork_infos s)"
    and stakes: "stakes_ok stake (fork_infos s) (latest_votes s)"
    using ok by (simp_all add: fork_choice_ok_def)
  from mark_processed [OF linked key mark fields markable] obtain ops infos' where
    run: "insert_aggregate_operations (fork_infos s)
      (insert_marks operation [] (sorted_list_of_set {x. descends (fork_infos s) key x})) key = Some ops"
      "process_update_operations (fork_infos s) ops = Some infos'"
    and shape: "same_shape (fork_infos s) infos'" and fields': "fields_ok infos'"
    and after: "marks_after operation (fork_infos s) key infos'" unfolding marks_after_def by blast
  have "stake_voted_at (info_of infos' k) = stake_voted_at (info_of (fork_infos s) k)" if "k \<in> dom (fork_infos s)" for k
  proof -
    obtain info where info: "fork_infos s k = Some info" using \<open>k \<in> dom (fork_infos s)\<close> by blast
    have "stake_voted_at (marked operation (fork_infos s) key k info) = stake_voted_at info"
      using mark markable info
      by (auto simp: marked_def is_mark_def markable_def update_with_newly_valid_ancestor_def
          update_with_newly_invalid_ancestor_def Let_def split: option.splits)
    with marks_after_step(2) [OF linked shape after info] marks_after_other [OF after info] info show ?thesis by fastforce
  qed
  with stakes shape have "stakes_ok stake infos' (latest_votes s)" by (simp add: stakes_ok_def same_shape_def)
  with run shape fields' after show ?thesis by (simp add: mark_subtree_def whole_subtree [OF linked key])
qed

lemma mark_fork_invalid_candidate_ok:
  assumes ok: "fork_choice_ok stake s" and key: "fork_infos s key = Some info" and unconfirmed: "\<not> is_duplicate_confirmed info"
  shows "\<exists>s'. mark_fork_invalid_candidate s key = Some s' \<and> fork_choice_ok stake s' \<and>
    same_shape (fork_infos s) (fork_infos s') \<and> tree_root s' = tree_root s \<and>
    (\<forall>k \<in> dom (fork_infos s). marks_of (fork_infos s') k = invalidated (fork_infos s) key k)"
proof -
  have linked: "well_linked (fork_infos s) (tree_root s)" and marks: "marks_ok (fork_infos s)"
    using ok by (simp_all add: fork_choice_ok_def)
  have "markable (OpMarkInvalid (key_slot key)) (fork_infos s) key"
    using confirmed_up [OF linked marks, of key] key unconfirmed by (fastforce simp: markable_def)
  moreover have "key \<in> dom (fork_infos s)" using key by blast
  moreover have "is_mark (OpMarkInvalid (key_slot key))" by (simp add: is_mark_def)
  ultimately obtain s' where
    s': "mark_subtree s (OpMarkInvalid (key_slot key)) key = Some s'" "tree_root s' = tree_root s" "latest_votes s' = latest_votes s"
      "same_shape (fork_infos s) (fork_infos s')" "fields_ok (fork_infos s')"
      "stakes_ok stake (fork_infos s') (latest_votes s')"
      "marks_after (OpMarkInvalid (key_slot key)) (fork_infos s) key (fork_infos s')"
    using mark_subtree_ok [OF ok] by blast
  have un: "\<not> is_duplicate_confirmed (info_of (fork_infos s) key)" using key unconfirmed by simp
  note after = invalid_marks [OF linked s'(4) marks s'(7) un]
  with invalidated_marks_ok [OF linked s'(4) marks un after] s' linked well_linked_same_shape [OF s'(4)] key unconfirmed
  show ?thesis by (simp add: mark_fork_invalid_candidate_def fork_choice_ok_def)
qed

lemma not_confirmed_ok:
  assumes "set ks \<subseteq> dom infos"
  shows "not_confirmed infos ks = Some (filter (\<lambda>k. \<not> is_duplicate_confirmed (info_of infos k)) ks)"
  using assms by (induction ks) auto

lemma mark_fork_valid_candidate_ok:
  assumes ok: "fork_choice_ok stake s" and key: "key \<in> dom (fork_infos s)"
  shows "\<exists>confirmed s'. mark_fork_valid_candidate s key = Some (confirmed, s') \<and> fork_choice_ok stake s' \<and>
    same_shape (fork_infos s) (fork_infos s') \<and> tree_root s' = tree_root s \<and>
    set confirmed = {k. descends (fork_infos s) k key \<and> \<not> is_duplicate_confirmed (info_of (fork_infos s) k)} \<and>
    (\<forall>k \<in> dom (fork_infos s). marks_of (fork_infos s') k = validated (fork_infos s) key k)"
proof -
  have linked: "well_linked (fork_infos s) (tree_root s)" and marks: "marks_ok (fork_infos s)"
    using ok by (simp_all add: fork_choice_ok_def)
  obtain as where as: "ancestor_iterator (fork_infos s) key = Some as" using ancestor_iterator_ok [OF linked] by blast
  have "x \<in> set (key # as) \<longleftrightarrow> descends (fork_infos s) x key" for x
    using ancestor_iterator_set [OF linked as, of x] by auto
  then have path: "set (key # as) = {k. descends (fork_infos s) k key}" by blast
  have up: "k \<in> dom (fork_infos s)" if "descends (fork_infos s) k key" for k
  proof (cases "k = key")
    case False
    with that descends_cases [of "fork_infos s" k key] have "kids (fork_infos s) k \<noteq> {}" by auto
    then show ?thesis by (auto simp: kids_def split: option.splits)
  qed (use key in simp)
  with path not_confirmed_ok [of "key # as" "fork_infos s"] have listed: "not_confirmed (fork_infos s) (key # as) =
      Some (filter (\<lambda>k. \<not> is_duplicate_confirmed (info_of (fork_infos s) k)) (key # as))" by blast
  have "markable (OpMarkValid (key_slot key)) (fork_infos s) key" by (simp add: markable_def)
  moreover have "is_mark (OpMarkValid (key_slot key))" by (simp add: is_mark_def)
  ultimately obtain s' where
    s': "mark_subtree s (OpMarkValid (key_slot key)) key = Some s'" "tree_root s' = tree_root s" "latest_votes s' = latest_votes s"
      "same_shape (fork_infos s) (fork_infos s')" "fields_ok (fork_infos s')"
      "stakes_ok stake (fork_infos s') (latest_votes s')"
      "marks_after (OpMarkValid (key_slot key)) (fork_infos s) key (fork_infos s')"
    using mark_subtree_ok [OF ok key] by blast
  note after = valid_marks [OF linked s'(4) marks s'(7)]
  have "set (filter (\<lambda>k. \<not> is_duplicate_confirmed (info_of (fork_infos s) k)) (key # as)) =
      {k. descends (fork_infos s) k key \<and> \<not> is_duplicate_confirmed (info_of (fork_infos s) k)}"
    unfolding set_filter path by blast
  moreover have "mark_fork_valid_candidate s key =
      Some (filter (\<lambda>k. \<not> is_duplicate_confirmed (info_of (fork_infos s) k)) (key # as), s')"
    unfolding mark_fork_valid_candidate_def as bind.simps(2) listed s'(1) ..
  moreover have "fork_choice_ok stake s'"
    using s' linked well_linked_same_shape [OF s'(4)] validated_marks_ok [OF linked s'(4) marks after]
    by (simp add: fork_choice_ok_def)
  ultimately show ?thesis using s'(2,4) after by blast
qed

end
