(* ===== verification/ForkChoiceLeaves.thy ===== *)
theory ForkChoiceLeaves
  imports ForkChoiceMarks
begin

text \<open>
  New leaves. Instead of aggregating, \<open>propagate_new_leaf\<close> walks up the ancestors of the leaf and stops at
  the first one it does not concern. Both walks leave the aggregated fields what an aggregation of the
  whole tree would make them.
\<close>

section \<open>Trees that differ in cached fields only\<close>

definition same_links :: "fork_tree \<Rightarrow> fork_tree \<Rightarrow> bool" where
  "same_links J J' \<longleftrightarrow> dom J' = dom J \<and> (\<forall>k. stake_voted_at (info_of J' k) = stake_voted_at (info_of J k) \<and>
     stake_voted_subtree (info_of J' k) = stake_voted_subtree (info_of J k) \<and>
     parent (info_of J' k) = parent (info_of J k) \<and> children (info_of J' k) = children (info_of J k) \<and>
     latest_invalid_ancestor (info_of J' k) = latest_invalid_ancestor (info_of J k) \<and>
     is_duplicate_confirmed (info_of J' k) = is_duplicate_confirmed (info_of J k))"

definition same_best :: "fork_tree \<Rightarrow> fork_tree \<Rightarrow> bool" where
  "same_best J J' \<longleftrightarrow> same_links J J' \<and> (\<forall>k. best_slot (info_of J' k) = best_slot (info_of J k))"

definition same_deep :: "fork_tree \<Rightarrow> fork_tree \<Rightarrow> bool" where
  "same_deep J J' \<longleftrightarrow> same_links J J' \<and> (\<forall>k. height (info_of J' k) = height (info_of J k) \<and>
     deepest_slot (info_of J' k) = deepest_slot (info_of J k))"

lemma same_links_shape: "same_links J J' \<Longrightarrow> same_shape J J'"
proof -
  assume same: "same_links J J'"
  then have dom: "J' k = None \<longleftrightarrow> J k = None" for k unfolding same_links_def by (metis domIff)
  have "kids J' k = kids J k" "up J' k = up J k" for k
    using same [unfolded same_links_def, THEN conjunct2, rule_format, of k] dom [of k]
    by (cases "J k"; cases "J' k"; simp add: kids_def up_def)+
  with same show ?thesis by (simp add: same_shape_def same_links_def fun_eq_iff)
qed

lemma same_best_trans: "same_best J J' \<Longrightarrow> same_best J' J'' \<Longrightarrow> same_best J J''"
  by (simp add: same_best_def same_links_def)

lemma same_links_views:
  assumes "same_links J J'"
  shows "kids J' = kids J" and "up J' = up J" and "descends J' = descends J" and "summed J' k = summed J k"
    and "info_is_candidate (info_of J' k) = info_is_candidate (info_of J k)"
    and "candidates J' = candidates J" and "heavier J' = heavier J" and "heaviest J' = heaviest J"
    and "marks_ok J' = marks_ok J" and "stakes_ok stake J' votes = stakes_ok stake J votes"
proof -
  note shape = same_links_shape [OF assms]
  show kids: "kids J' = kids J" and up: "up J' = up J" using shape by (simp_all add: same_shape_def)
  show "descends J' = descends J" by (rule descends_shape [OF shape])
  show "summed J' k = summed J k" using assms kids by (simp add: summed_def same_links_def)
  show cand: "info_is_candidate (info_of J' k) = info_is_candidate (info_of J k)" for k
    using assms by (simp add: info_is_candidate_def same_links_def)
  show cands: "candidates J' = candidates J" by (simp add: candidates_def cand fun_eq_iff)
  show heavier: "heavier J' = heavier J" using assms by (simp add: heavier_def same_links_def fun_eq_iff)
  show "heaviest J' = heaviest J" by (simp add: heaviest_def cands heavier fun_eq_iff)
  show "marks_ok J' = marks_ok J" using assms up by (simp add: marks_ok_def info_is_candidate_def same_links_def)
  show "stakes_ok stake J' votes = stakes_ok stake J votes" using assms by (simp add: stakes_ok_def same_links_def)
qed

lemma same_best_ok: "same_best J J' \<Longrightarrow> best_ok J' k = best_ok J k"
proof -
  assume same: "same_best J J'"
  then have links: "same_links J J'" by (simp add: same_best_def)
  show ?thesis using same by (simp add: same_best_def best_ok_def same_links_views [OF links])
qed

lemma same_deep_ok: "same_deep J J' \<Longrightarrow> deepest_ok J' k = deepest_ok J k"
proof -
  assume same: "same_deep J J'"
  then have links: "same_links J J'" by (simp add: same_deep_def)
  have "deeper J' = deeper J" using same by (simp add: deeper_def same_links_views [OF links] same_deep_def fun_eq_iff)
  then have "deepest J' = deepest J" by (simp add: deepest_def fun_eq_iff)
  with same show ?thesis by (simp add: deepest_ok_def same_links_views [OF links] same_deep_def)
qed

lemma set_deep_same:
  "J a = Some info \<Longrightarrow> same_best J (J(a \<mapsto> info\<lparr>deepest_slot := leaf, height := h\<rparr>))"
  by (auto simp: same_best_def same_links_def)

section \<open>The deepest slots\<close>

lemma no_deeper_child_eq:
  assumes "set cs \<subseteq> dom infos" and "infos k = Some info"
  shows "no_deeper_child infos k (stake_voted_subtree info) (height info) cs = Some (\<forall>c \<in> set cs. \<not> deeper infos c k)"
  using assms by (induction cs) (auto simp: deeper_def heavier_def)

lemma is_deepest_child_eq:
  assumes "well_linked infos root" and "up infos c = Some a"
  shows "is_deepest_child infos c = Some (deepest infos (kids infos a) c)"
proof -
  obtain info where info: "infos c = Some info" "parent info = Some a"
    using assms(2) by (auto simp: up_def split: option.splits)
  obtain pinfo where p: "infos a = Some pinfo" using linked_up [OF assms] by blast
  have kids: "kids infos a = children pinfo" by (rule kids_Some [of infos, OF p])
  have "set (sorted_list_of_set (children pinfo)) = kids infos a"
    using finite_kids [OF assms(1), of a] kids by simp
  with kid_in_dom [OF assms(1), of _ a] have "set (sorted_list_of_set (children pinfo)) \<subseteq> dom infos" by auto
  from no_deeper_child_eq [OF this info(1)] \<open>set _ = kids infos a\<close> info p linked_kids [OF assms(1), of c a] assms(2)
  show ?thesis by (simp add: is_deepest_child_def deepest_def)
qed

text \<open>The walk at \<open>a\<close>: only its fields may be stale, and they are not if the child below is not the deepest.\<close>

definition deep_walk :: "fork_tree \<Rightarrow> SlotHashKey \<Rightarrow> SlotHashKey \<Rightarrow> SlotHashKey \<Rightarrow> nat \<Rightarrow> bool" where
  "deep_walk J leaf a c h \<longleftrightarrow> up J c = Some a \<and> height (info_of J c) = h \<and> deepest_slot (info_of J c) = leaf \<and>
     (\<exists>d \<in> kids J a. height (info_of J a) \<le> height (info_of J d) + 1) \<and>
     (deepest J (kids J a) c \<or> deepest_ok J a) \<and> (\<forall>k \<in> dom J. k \<noteq> a \<longrightarrow> deepest_ok J k)"

lemma deep_walk_here:
  assumes linked: "well_linked J root" and walk: "deep_walk J leaf a c h" and c: "deepest J (kids J a) c"
    and info: "J a = Some info" and J': "J' = J(a \<mapsto> info\<lparr>deepest_slot := leaf, height := h + 1\<rparr>)"
  shows "deepest_ok J' a" and "height (info_of J a) \<le> h + 1"
proof -
  have same: "same_links J J'" unfolding J' using info by (auto simp: same_links_def)
  have "a \<notin> kids J a" using kid_not_up [OF linked] descends_refl by blast
  then have "J' d = J d" if "d \<in> kids J a" for d using that by (auto simp: J')
  then have "deepest J' (kids J a) c = deepest J (kids J a) c" by (rule deepest_kept)
  with c have "deepest J' (kids J a) c" by simp
  moreover have "c \<noteq> a" using \<open>a \<notin> kids J a\<close> c by (auto simp: deepest_def)
  moreover have "J' a = Some (info\<lparr>deepest_slot := leaf, height := h + 1\<rparr>)" by (simp add: J')
  moreover have "J' c = J c" using \<open>c \<noteq> a\<close> by (simp add: J')
  ultimately show "deepest_ok J' a"
    using walk c unfolding deepest_ok_def same_links_views(1) [OF same] by (auto simp: deep_walk_def deepest_def intro: exI [of _ c])
  from walk obtain d where "d \<in> kids J a" "height (info_of J a) \<le> height (info_of J d) + 1" by (auto simp: deep_walk_def)
  moreover from this c walk have "height (info_of J d) \<le> h" by (auto simp: deepest_def deeper_def deep_walk_def not_less)
  ultimately show "height (info_of J a) \<le> h + 1" by simp
qed

lemma deepest_raised:
  assumes "deepest J ks d" and "a \<in> ks" and same: "same_links J J'"
    and raised: "height (info_of J a) \<le> height (info_of J' a)" and others: "\<And>k. k \<noteq> a \<Longrightarrow> J' k = J k"
  shows "deepest J' ks a \<or> d \<noteq> a \<and> deepest J' ks d"
proof -
  have keep: "deeper J' e f = deeper J e f" if "e \<noteq> a" "f \<noteq> a" for e f
    using that others by (simp add: deeper_def heavier_def)
  have lower: "deeper J' e a \<Longrightarrow> deeper J e a" if "e \<noteq> a" for e
    using that raised same_links_views(7) [OF same] others [OF that] by (auto simp: deeper_def)
  have "deepest J' ks a" if "d = a \<or> deeper J' a d"
  proof -
    have "\<not> deeper J' e a" if "e \<in> ks" for e
    proof
      assume e: "deeper J' e a"
      then have "e \<noteq> a" by auto
      show False
      proof (cases "d = a")
        case True
        with lower [OF \<open>e \<noteq> a\<close> e] assms(1) that show False by (simp add: deepest_def)
      next
        case False
        with \<open>d = a \<or> deeper J' a d\<close> e deeper_trans have "deeper J' e d" by blast
        with keep [OF \<open>e \<noteq> a\<close> False] assms(1) that show False by (simp add: deepest_def)
      qed
    qed
    with assms(2) show ?thesis by (simp add: deepest_def)
  qed
  moreover have "deepest J' ks d" if "d \<noteq> a" "\<not> deeper J' a d"
  proof -
    have "\<not> deeper J' e d" if "e \<in> ks" for e
      using that assms(1) \<open>d \<noteq> a\<close> \<open>\<not> deeper J' a d\<close> keep [of e d] by (cases "e = a") (auto simp: deepest_def)
    with assms(1) show ?thesis by (simp add: deepest_def)
  qed
  ultimately show ?thesis by blast
qed

lemma deep_walk_up:
  assumes linked: "well_linked J root" and walk: "deep_walk J leaf a c h" and c: "deepest J (kids J a) c"
    and info: "J a = Some info" and J': "J' = J(a \<mapsto> info\<lparr>deepest_slot := leaf, height := h + 1\<rparr>)" and b: "up J a = Some b"
  shows "deep_walk J' leaf b a (h + 1)"
proof -
  have same: "same_links J J'" unfolding J' using info by (auto simp: same_links_def)
  note views = same_links_views [OF same]
  have others: "J' k = J k" if "k \<noteq> a" for k using that by (simp add: J')
  have here: "J' a = Some (info\<lparr>deepest_slot := leaf, height := h + 1\<rparr>)" by (simp add: J')
  have ok: "deepest_ok J k" if "k \<in> dom J" "k \<noteq> a" for k using walk that by (simp add: deep_walk_def)
  have ab: "a \<in> kids J b" "b \<noteq> a" "b \<in> dom J" using b linked_kids [OF linked, of a b] linked_up [OF linked b] by auto
  have raised: "height (info_of J a) \<le> height (info_of J' a)" using deep_walk_here(2) [OF linked walk c info J'] here by simp
  from ok [OF ab(3,2)] ab(1) obtain d where d: "deepest J (kids J b) d" "height (info_of J b) = height (info_of J d) + 1"
      "deepest_slot (info_of J b) = deepest_slot (info_of J d)" by (auto simp: deepest_ok_def split: if_splits)
  have "deepest_ok J' b" if "d \<noteq> a" "deepest J' (kids J b) d"
    using that d ab others [of d] others [of b] unfolding deepest_ok_def views(1) by auto
  with deepest_raised [OF d(1) ab(1) same raised others] have "deepest J' (kids J b) a \<or> deepest_ok J' b" by blast
  moreover have "\<exists>e \<in> kids J b. height (info_of J' b) \<le> height (info_of J' e) + 1"
  proof (rule bexI [of _ d])
    show "height (info_of J' b) \<le> height (info_of J' d) + 1"
      using d(2) others [of b] others [of d] ab(2) raised by (cases "d = a") auto
  qed (use d(1) in \<open>simp add: deepest_def\<close>)
  moreover have "deepest_ok J' k" if k: "k \<in> dom J" "k \<noteq> b" for k
  proof (cases "k = a")
    case True
    with deep_walk_here(1) [OF linked walk c info J'] show ?thesis by simp
  next
    case False
    have "a \<notin> kids J k" using b k(2) linked_kids [OF linked, of a k] by auto
    then have "same_kids J J' k" unfolding same_kids_def views(1) by (auto intro!: others)
    from deepest_ok_kept [OF this] ok [OF k(1) False] others [OF False] show ?thesis by simp
  qed
  ultimately show ?thesis using b here same by (simp add: deep_walk_def views same_links_def)
qed

lemma propagate_deepest_ok:
  assumes "well_linked J root" and "deep_walk J leaf a c h"
  shows "\<exists>J'. propagate_deepest leaf J (Some a) c h = Some J' \<and> same_best J J' \<and> (\<forall>k \<in> dom J. deepest_ok J' k)"
  using assms
proof (induction "unat (key_slot a)" arbitrary: J a c h rule: less_induct)
  case less
  have ca: "up J c = Some a" using less.prems(2) by (simp add: deep_walk_def)
  from linked_up [OF less.prems(1) ca] obtain info where info: "J a = Some info" by blast
  note unfold = propagate_deepest.simps [of leaf J "Some a" c h]
  show ?case
  proof (cases "deepest J (kids J a) c")
    case False
    with less.prems(2) have "\<forall>k \<in> dom J. deepest_ok J k" by (auto simp: deep_walk_def)
    with False show ?thesis
      by (simp add: unfold is_deepest_child_eq [OF less.prems(1) ca] same_best_def same_links_def)
  next
    case True
    let ?J = "J(a \<mapsto> info\<lparr>deepest_slot := leaf, height := h + 1\<rparr>)"
    have same: "same_best J ?J" by (rule set_deep_same [of J, OF info])
    then have links: "same_links J ?J" by (simp add: same_best_def)
    have linked: "well_linked ?J root" using less.prems(1) well_linked_same_shape [OF same_links_shape [OF links]] by simp
    have eq: "propagate_deepest leaf J (Some a) c h = propagate_deepest leaf ?J (parent info) a (h + 1)"
      by (simp add: unfold is_deepest_child_eq [OF less.prems(1) ca] True info)
    show ?thesis
    proof (cases "parent info")
      case None
      have "deepest_ok ?J k" if "k \<in> dom J" for k
      proof (cases "k = a")
        case True
        with deep_walk_here(1) [OF less.prems \<open>deepest J (kids J a) c\<close> info refl] show ?thesis by simp
      next
        case False
        have "a \<notin> kids J k" using None info linked_kids [OF less.prems(1), of a k] by (simp add: up_def)
        then have "same_kids J ?J k" unfolding same_kids_def same_links_views(1) [OF links] by auto
        moreover have "deepest_ok J k" using that False less.prems(2) by (simp add: deep_walk_def)
        ultimately show ?thesis using deepest_ok_kept [of J ?J k] False by simp
      qed
      with None eq same show ?thesis by (simp add: propagate_deepest.simps [of leaf _ None])
    next
      case (Some b)
      have b: "up J a = Some b" using Some info by (simp add: up_def)
      have "unat (key_slot b) < unat (key_slot a)" using linked_up [OF less.prems(1) b] by (simp add: word_less_nat_alt)
      from less.hyps [OF this linked deep_walk_up [OF less.prems True info refl b]]
      obtain J' where J': "propagate_deepest leaf ?J (Some b) a (h + 1) = Some J'" "same_best ?J J'" "\<forall>k \<in> dom ?J. deepest_ok J' k"
        by blast
      with eq Some same_best_trans [OF same J'(2)] show ?thesis by auto
    qed
  qed
qed

section \<open>The best slots\<close>

definition relabel :: "fork_tree \<Rightarrow> SlotHashKey set \<Rightarrow> SlotHashKey \<Rightarrow> fork_tree" where
  "relabel J ks leaf = (\<lambda>k. if k \<in> ks then map_option (\<lambda>info. info\<lparr>best_slot := leaf\<rparr>) (J k) else J k)"

text \<open>The ancestors the walk changes: from \<open>a\<close> up, as long as the best slot is the given one.\<close>

definition chain :: "fork_tree \<Rightarrow> SlotHashKey \<Rightarrow> SlotHashKey \<Rightarrow> SlotHashKey set" where
  "chain J pb a = {x. descends J x a \<and> (\<forall>y. descends J x y \<and> descends J y a \<longrightarrow> best_slot (info_of J y) = pb)}"

lemma relabel_same: "same_deep J (relabel J ks leaf)"
proof -
  have "dom (relabel J ks leaf) = dom J" by (auto simp: relabel_def split: if_splits)
  moreover have "height (info_of (relabel J ks leaf) k) = height (info_of J k)"
    "deepest_slot (info_of (relabel J ks leaf) k) = deepest_slot (info_of J k)"
    "stake_voted_at (info_of (relabel J ks leaf) k) = stake_voted_at (info_of J k)"
    "stake_voted_subtree (info_of (relabel J ks leaf) k) = stake_voted_subtree (info_of J k)"
    "parent (info_of (relabel J ks leaf) k) = parent (info_of J k)"
    "children (info_of (relabel J ks leaf) k) = children (info_of J k)"
    "latest_invalid_ancestor (info_of (relabel J ks leaf) k) = latest_invalid_ancestor (info_of J k)"
    "is_duplicate_confirmed (info_of (relabel J ks leaf) k) = is_duplicate_confirmed (info_of J k)" for k
    by (cases "J k"; simp add: relabel_def)+
  ultimately show ?thesis by (simp add: same_deep_def same_links_def)
qed

lemma best_relabel:
  "k \<in> dom J \<Longrightarrow> best_slot (info_of (relabel J ks leaf) k) = (if k \<in> ks then leaf else best_slot (info_of J k))"
  by (auto simp: relabel_def)

lemma chain_step:
  assumes "well_linked J root"
  shows "chain J pb a = (if best_slot (info_of J a) = pb
    then insert a (case up J a of None \<Rightarrow> {} | Some b \<Rightarrow> chain J pb b) else {})"
proof -
  note up = descends_up [OF assms, of _ a]
  show ?thesis
  proof (cases "up J a")
    case None
    then have "descends J x a \<longleftrightarrow> x = a" for x using up by auto
    with None show ?thesis by (auto simp: chain_def)
  next
    case (Some b)
    then have desc: "descends J x a \<longleftrightarrow> x = a \<or> descends J x b" for x using up by auto
    have "\<not> descends J a b" using Some linked_kids [OF assms, of a b] kid_not_up [OF assms] by simp
    then have "x \<noteq> a" "\<not> descends J a x" if "descends J x b" for x using that descends_trans by auto
    with Some desc show ?thesis by (auto simp: chain_def)
  qed
qed

lemma propagate_best_eq:
  assumes "well_linked J root" and "a \<in> dom J"
  shows "propagate_best leaf pb J (Some a) = Some (relabel J (chain J pb a) leaf)"
  using assms
proof (induction "unat (key_slot a)" arbitrary: J a rule: less_induct)
  case less
  obtain info where info: "J a = Some info" using less.prems(2) by blast
  note unfold = propagate_best.simps [of leaf pb J "Some a"]
  show ?case
  proof (cases "best_slot info = pb")
    case False
    with info have "chain J pb a = {}" using chain_step [OF less.prems(1), of pb a] by simp
    with False info show ?thesis by (simp add: unfold relabel_def)
  next
    case True
    let ?J = "J(a \<mapsto> info\<lparr>best_slot := leaf\<rparr>)"
    have links: "same_links J ?J" using info by (auto simp: same_links_def)
    have linked: "well_linked ?J root" using less.prems(1) well_linked_same_shape [OF same_links_shape [OF links]] by simp
    have eq: "propagate_best leaf pb J (Some a) = propagate_best leaf pb ?J (parent info)"
      by (simp add: unfold info True)
    show ?thesis
    proof (cases "parent info")
      case None
      then have "chain J pb a = {a}" using chain_step [OF less.prems(1), of pb a] info True by (simp add: up_def)
      moreover have "?J = relabel J {a} leaf" using info by (auto simp: relabel_def)
      ultimately show ?thesis using None eq by (simp add: propagate_best.simps [of leaf pb _ None])
    next
      case (Some b)
      have b: "up J a = Some b" using Some info by (simp add: up_def)
      have "unat (key_slot b) < unat (key_slot a)" using linked_up [OF less.prems(1) b] by (simp add: word_less_nat_alt)
      from less.hyps [OF this linked] linked_up [OF less.prems(1) b]
      have IH: "propagate_best leaf pb ?J (Some b) = Some (relabel ?J (chain ?J pb b) leaf)" by auto
      have "y \<noteq> a" if "descends J y b" for y
        using that b linked_kids [OF less.prems(1), of a b] kid_not_up [OF less.prems(1), of a b] by auto
      then have "chain ?J pb b = chain J pb b" by (auto simp: chain_def same_links_views(3) [OF links])
      moreover have "chain J pb a = insert a (chain J pb b)"
        using chain_step [OF less.prems(1), of pb a] info True b by simp
      moreover have "relabel ?J ks leaf = relabel J (insert a ks) leaf" for ks using info by (auto simp: relabel_def fun_eq_iff)
      ultimately show ?thesis using eq Some IH by simp
    qed
  qed
qed

lemma candidates_simps [simp]:
  "candidates infos {} = {}"
  "candidates infos (insert c ks) =
     (if info_is_candidate (info_of infos c) then insert c (candidates infos ks) else candidates infos ks)"
  by (auto simp: candidates_def)

lemma no_better_child_eq:
  assumes "set cs \<subseteq> dom infos" and "infos k = Some info"
  shows "no_better_child infos k (stake_voted_subtree info) cs = Some (\<forall>c \<in> candidates infos (set cs). \<not> heavier infos c k)"
  using assms by (induction cs) (auto simp: heavier_def)

lemma is_best_child_eq:
  assumes "well_linked infos root" and "up infos c = Some a"
  shows "is_best_child infos c = Some (\<forall>d \<in> candidates infos (kids infos a). \<not> heavier infos d c)"
proof -
  obtain info where info: "infos c = Some info" "parent info = Some a"
    using assms(2) by (auto simp: up_def split: option.splits)
  obtain pinfo where p: "infos a = Some pinfo" using linked_up [OF assms] by blast
  have "set (sorted_list_of_set (children pinfo)) = kids infos a"
    using finite_kids [OF assms(1), of a] kids_Some [of infos, OF p] by simp
  with kid_in_dom [OF assms(1), of _ a] have "set (sorted_list_of_set (children pinfo)) \<subseteq> dom infos" by auto
  from no_better_child_eq [OF this info(1)] \<open>set _ = kids infos a\<close> info p
  show ?thesis by (simp add: is_best_child_def)
qed

section \<open>The tree with the leaf\<close>

definition leaf_fits :: "fork_tree \<Rightarrow> SlotHashKey \<Rightarrow> SlotHashKey \<Rightarrow> SlotHashKey \<Rightarrow> bool" where
  "leaf_fits infos root leaf p \<longleftrightarrow> well_linked infos root \<and> p \<in> dom infos \<and> leaf \<notin> dom infos \<and>
     key_slot p < key_slot leaf \<and> leaf \<noteq> default_key"

definition grown :: "fork_tree \<Rightarrow> SlotHashKey \<Rightarrow> SlotHashKey \<Rightarrow> fork_tree" where
  "grown infos leaf p =
     infos(leaf \<mapsto> new_leaf_info leaf (Some p) (latest_invalid_ancestor (info_of infos p)),
           p \<mapsto> (info_of infos p)\<lparr>children := insert leaf (children (info_of infos p))\<rparr>)"

lemma grown_views:
  assumes "leaf_fits infos root leaf p"
  shows "grown infos leaf p leaf = Some (new_leaf_info leaf (Some p) (latest_invalid_ancestor (info_of infos p)))"
    and "k \<noteq> leaf \<Longrightarrow> k \<noteq> p \<Longrightarrow> grown infos leaf p k = infos k"
    and "dom (grown infos leaf p) = insert leaf (dom infos)"
    and "kids (grown infos leaf p) = (kids infos)(p := insert leaf (kids infos p))"
    and "up (grown infos leaf p) = (up infos)(leaf \<mapsto> p)"
  using assms by (auto simp: grown_def leaf_fits_def kids_def up_def new_leaf_info_def fun_eq_iff split: option.splits)

lemma grown_fields:
  assumes "leaf_fits infos root leaf p" and "k \<noteq> leaf"
  shows "stake_voted_at (info_of (grown infos leaf p) k) = stake_voted_at (info_of infos k)"
    and "stake_voted_subtree (info_of (grown infos leaf p) k) = stake_voted_subtree (info_of infos k)"
    and "height (info_of (grown infos leaf p) k) = height (info_of infos k)"
    and "best_slot (info_of (grown infos leaf p) k) = best_slot (info_of infos k)"
    and "deepest_slot (info_of (grown infos leaf p) k) = deepest_slot (info_of infos k)"
    and "latest_invalid_ancestor (info_of (grown infos leaf p) k) = latest_invalid_ancestor (info_of infos k)"
    and "is_duplicate_confirmed (info_of (grown infos leaf p) k) = is_duplicate_confirmed (info_of infos k)"
  using assms by (simp_all add: grown_def leaf_fits_def)

lemma leaf_unlinked:
  assumes "leaf_fits infos root leaf p"
  shows "leaf \<notin> kids infos k" and "kids infos leaf = {}" and "up infos leaf = None" and "p \<noteq> leaf"
proof -
  have linked: "well_linked infos root" and leaf: "leaf \<notin> dom infos" "p \<in> dom infos" using assms by (simp_all add: leaf_fits_def)
  show "leaf \<notin> kids infos k" using kid_in_dom [OF linked, of leaf k] leaf by blast
  show "kids infos leaf = {}" "up infos leaf = None" "p \<noteq> leaf" using leaf by (auto simp: kids_def up_def split: option.splits)
qed

lemma grown_linked:
  assumes "leaf_fits infos root leaf p"
  shows "well_linked (grown infos leaf p) root"
proof -
  have linked: "well_linked infos root" and fits: "p \<in> dom infos" "leaf \<notin> dom infos" "key_slot p < key_slot leaf" "leaf \<noteq> default_key"
    using assms by (simp_all add: leaf_fits_def)
  note views = grown_views(3-5) [OF assms]
  have top: "up infos k = None \<longleftrightarrow> k = root" if "k \<in> dom infos" for k using linked_top [OF linked that] .
  show ?thesis unfolding well_linked_def views
  proof (intro conjI allI ballI impI)
    show "finite (insert leaf (dom infos))" using linked_finite [OF linked] by simp
    show "default_key \<notin> insert leaf (dom infos)" using linked_default [OF linked] fits(4) by auto
    show "root \<in> insert leaf (dom infos)" using linked_root [OF linked] by simp
    fix k c
    show "c \<in> ((kids infos)(p := insert leaf (kids infos p))) k \<longleftrightarrow> ((up infos)(leaf \<mapsto> p)) c = Some k"
      using linked_kids [OF linked, of c k] leaf_unlinked [OF assms] by auto
  next
    fix k q
    assume "((up infos)(leaf \<mapsto> p)) k = Some q"
    then show "q \<in> insert leaf (dom infos)" "key_slot q < key_slot k"
      using linked_up [OF linked, of k q] fits by (auto split: if_splits)
  next
    fix k
    assume "k \<in> insert leaf (dom infos)"
    then show "(((up infos)(leaf \<mapsto> p)) k = None) = (k = root)"
      using top fits(2) linked_root [OF linked] by auto
  qed
qed

lemma grown_descends:
  assumes "leaf_fits infos root leaf p"
  shows "x \<noteq> leaf \<Longrightarrow> descends (grown infos leaf p) k x \<longleftrightarrow> descends infos k x"
    and "descends (grown infos leaf p) k leaf \<longleftrightarrow> k = leaf \<or> descends infos k p"
proof -
  have linked: "well_linked infos root" using assms by (simp add: leaf_fits_def)
  note linked' = grown_linked [OF assms]
  have "x \<noteq> leaf \<longrightarrow> descends (grown infos leaf p) k x = descends infos k x" for x
    using linked
  proof (induction x rule: up_induct)
    case (node x)
    have "q \<noteq> leaf" if "up infos x = Some q" for q
      using linked_up [OF linked that] assms by (auto simp: leaf_fits_def)
    with node.IH show ?case
      using descends_up [OF linked, of k x] descends_up [OF linked', of k x] by (auto simp: grown_views(5) [OF assms])
  qed
  then show old: "x \<noteq> leaf \<Longrightarrow> descends (grown infos leaf p) k x \<longleftrightarrow> descends infos k x" for x by blast
  show "descends (grown infos leaf p) k leaf \<longleftrightarrow> k = leaf \<or> descends infos k p"
    using descends_up [OF linked', of k leaf] old [of p] leaf_unlinked(4) [OF assms]
    by (auto simp: grown_views(5) [OF assms])
qed

lemma kid_not_leaf: "leaf_fits infos root leaf p \<Longrightarrow> c \<in> kids infos k \<Longrightarrow> c \<noteq> leaf"
  using leaf_unlinked(1) by blast

lemma grown_summed:
  assumes fits: "leaf_fits infos root leaf p" and "fields_ok infos" and k: "k \<in> dom (grown infos leaf p)"
  shows "summed (grown infos leaf p) k"
proof (cases "k = leaf")
  case True
  with leaf_unlinked(2,4) [OF fits] show ?thesis
    by (simp add: summed_def grown_views(1,4) [OF fits] new_leaf_info_def)
next
  case False
  let ?I = "grown infos leaf p"
  have linked: "well_linked infos root" using fits by (simp add: leaf_fits_def)
  have old: "summed infos k" using assms(2) k False by (simp add: fields_ok_def grown_views(3) [OF fits])
  have same: "(\<Sum>c \<in> kids infos k. stake_voted_subtree (info_of ?I c)) = (\<Sum>c \<in> kids infos k. stake_voted_subtree (info_of infos c))"
    using kid_not_leaf [OF fits] by (intro sum.cong refl grown_fields(2) [OF fits])
  have "stake_voted_subtree (info_of ?I leaf) = 0" by (simp add: grown_views(1) [OF fits] new_leaf_info_def)
  then have "(\<Sum>c \<in> kids ?I k. stake_voted_subtree (info_of ?I c)) = (\<Sum>c \<in> kids infos k. stake_voted_subtree (info_of ?I c))"
    using finite_kids [OF linked, of k] leaf_unlinked(1) [OF fits, of k] by (auto simp: grown_views(4) [OF fits])
  with old same grown_fields(1,2) [OF fits False] show ?thesis by (simp add: summed_def)
qed

lemma grown_deeper:
  assumes "leaf_fits infos root leaf p" and "c \<noteq> leaf" and "d \<noteq> leaf"
  shows "deeper (grown infos leaf p) c d = deeper infos c d" and "heavier (grown infos leaf p) c d = heavier infos c d"
  using assms by (simp_all add: deeper_def heavier_def grown_fields)

lemma grown_deepest:
  assumes fits: "leaf_fits infos root leaf p" and "leaf \<notin> ks"
  shows "deepest (grown infos leaf p) ks c = deepest infos ks c"
proof -
  have "deeper (grown infos leaf p) d c = deeper infos d c" if "c \<in> ks" "d \<in> ks" for d
    using that assms(2) by (intro grown_deeper(1) [OF fits]) auto
  then show ?thesis unfolding deepest_def by blast
qed

lemma grown_walk:
  assumes fits: "leaf_fits infos root leaf p" and fields: "fields_ok infos"
  shows "deep_walk (grown infos leaf p) leaf p leaf 1"
proof -
  let ?I = "grown infos leaf p"
  have old: "deepest_ok infos k" if "k \<in> dom infos" for k using fields that by (simp add: fields_ok_def)
  have p: "p \<in> dom infos" "p \<noteq> leaf" using fits leaf_unlinked(4) [OF fits] by (simp_all add: leaf_fits_def)
  note unlinked = leaf_unlinked(1) [OF fits]
  have others: "deepest_ok ?I k" if k: "k \<in> dom infos" "k \<noteq> p" "k \<noteq> leaf" for k
  proof -
    have "c \<noteq> leaf" if "deepest infos (kids infos k) c" for c using that unlinked by (auto simp: deepest_def)
    then show ?thesis
      using old [OF k(1)] k grown_fields [OF fits] grown_deepest [OF fits unlinked, of k]
      unfolding deepest_ok_def grown_views(4) [OF fits] by (auto split: if_splits)
  qed
  have leaf: "deepest_ok ?I leaf" "height (info_of ?I leaf) = 1" "deepest_slot (info_of ?I leaf) = leaf"
    using leaf_unlinked(2,4) [OF fits] by (auto simp: deepest_ok_def grown_views(1,4) [OF fits] new_leaf_info_def)
  have kids: "kids ?I p = insert leaf (kids infos p)" by (simp add: grown_views(4) [OF fits])
  have "deepest ?I (kids ?I p) leaf \<or> deepest_ok ?I p" and "\<exists>d \<in> kids ?I p. height (info_of ?I p) \<le> height (info_of ?I d) + 1"
  proof -
    show "\<exists>d \<in> kids ?I p. height (info_of ?I p) \<le> height (info_of ?I d) + 1"
    proof (cases "kids infos p = {}")
      case True
      with old [OF p(1)] grown_fields(3) [OF fits p(2)] leaf(2) kids show ?thesis by (simp add: deepest_ok_def)
    next
      case False
      with old [OF p(1)] obtain d where d: "d \<in> kids infos p" "height (info_of infos p) = height (info_of infos d) + 1"
        by (auto simp: deepest_ok_def deepest_def)
      moreover have "d \<noteq> leaf" using d(1) unlinked by auto
      ultimately have "height (info_of ?I p) \<le> height (info_of ?I d) + 1"
        using grown_fields(3) [OF fits p(2)] grown_fields(3) [OF fits, of d] by simp
      then show ?thesis using d(1) kids by blast
    qed
    show "deepest ?I (kids ?I p) leaf \<or> deepest_ok ?I p"
    proof (cases "kids infos p = {}")
      case True
      then show ?thesis by (simp add: deepest_def kids)
    next
      case False
      with old [OF p(1)] obtain d where d: "deepest infos (kids infos p) d" "height (info_of infos p) = height (info_of infos d) + 1"
          "deepest_slot (info_of infos p) = deepest_slot (info_of infos d)" by (auto simp: deepest_ok_def)
      then have "d \<noteq> leaf" using unlinked by (auto simp: deepest_def)
      from d(1) grown_deepest [OF fits unlinked] have "deepest ?I (kids infos p) d" by simp
      from deepest_insert [OF this unlinked] kids
      have "deepest ?I (kids ?I p) leaf \<or> deepest ?I (kids ?I p) d" by (auto split: if_splits)
      moreover have "deepest_ok ?I p" if "deepest ?I (kids ?I p) d"
        using that d(2,3) grown_fields(3,5) [OF fits] \<open>d \<noteq> leaf\<close> p(2) kids by (auto simp: deepest_ok_def)
      ultimately show ?thesis by blast
    qed
  qed
  with others leaf p show ?thesis by (auto simp: deep_walk_def grown_views(3,5) [OF fits])
qed

lemma grown_heaviest:
  assumes fits: "leaf_fits infos root leaf p" and "leaf \<notin> ks"
  shows "candidates (grown infos leaf p) ks = candidates infos ks" and "heaviest (grown infos leaf p) ks c = heaviest infos ks c"
proof -
  have "info_is_candidate (info_of (grown infos leaf p) d) = info_is_candidate (info_of infos d)" if "d \<in> ks" for d
    using that assms(2) grown_fields(6) [OF fits, of d] by (cases "d = leaf") (auto simp: info_is_candidate_def)
  then show same: "candidates (grown infos leaf p) ks = candidates infos ks" by (auto simp: candidates_def)
  have "heavier (grown infos leaf p) d c = heavier infos d c" if "c \<in> ks" "d \<in> ks" for d
    using that assms(2) by (intro grown_deeper(2) [OF fits]) auto
  moreover have "candidates infos ks \<subseteq> ks" by (auto simp: candidates_def)
  ultimately show "heaviest (grown infos leaf p) ks c = heaviest infos ks c"
    unfolding heaviest_def same by blast
qed

lemma grown_chain:
  assumes fits: "leaf_fits infos root leaf p"
  shows "chain (grown infos leaf p) pb p = chain infos pb p"
proof -
  have linked: "well_linked infos root" "p \<in> dom infos" "leaf \<notin> dom infos" using fits by (simp_all add: leaf_fits_def)
  have p: "p \<noteq> leaf" by (rule leaf_unlinked(4) [OF fits])
  have "y \<noteq> leaf" if "descends infos y p" for y
  proof
    assume "y = leaf"
    with that descends_cases [of infos leaf p] leaf_unlinked(2) [OF fits] p show False by auto
  qed
  then have "(descends (grown infos leaf p) x y \<and> descends infos y p \<longrightarrow> best_slot (info_of (grown infos leaf p) y) = pb) \<longleftrightarrow>
      (descends infos x y \<and> descends infos y p \<longrightarrow> best_slot (info_of infos y) = pb)" for x y
    using grown_descends(1) [OF fits, of y x] grown_fields(4) [OF fits, of y] by auto
  then show ?thesis by (simp add: chain_def grown_descends(1) [OF fits p])
qed

lemma chainD: "x \<in> chain J pb a \<Longrightarrow> descends J x a \<and> best_slot (info_of J x) = pb"
  unfolding chain_def using descends_refl by blast

lemma chain_kid:
  assumes linked: "well_linked infos root" and y: "y \<in> kids infos k" "descends infos y p"
  shows "k \<in> chain infos pb p \<longleftrightarrow> best_slot (info_of infos k) = pb \<and> y \<in> chain infos pb p"
proof -
  have k: "descends infos k p" using descends_kid [OF y] .
  have split: "z = k \<or> descends infos y z" if z: "descends infos k z" "descends infos z p" for z
  proof (rule ccontr)
    assume no: "\<not> (z = k \<or> descends infos y z)"
    with z(1) descends_cases [of infos k z] obtain c where c: "c \<in> kids infos k" "descends infos c z" by blast
    from kids_disjoint [OF linked c(1) y(1) descends_trans [OF c(2) z(2)] y(2)] c no show False by simp
  qed
  have down: "descends infos k z" if "descends infos y z" for z using descends_kid [OF y(1) that] .
  show ?thesis
  proof
    assume "k \<in> chain infos pb p"
    then have all: "best_slot (info_of infos z) = pb" if "descends infos k z" "descends infos z p" for z
      using that by (simp add: chain_def)
    from all [OF descends_refl k] all [OF down] y(2)
    show "best_slot (info_of infos k) = pb \<and> y \<in> chain infos pb p" by (simp add: chain_def)
  next
    assume r: "best_slot (info_of infos k) = pb \<and> y \<in> chain infos pb p"
    then have "best_slot (info_of infos z) = pb" if "descends infos k z" "descends infos z p" for z
      using split [OF that] that(2) by (auto simp: chain_def)
    with k show "k \<in> chain infos pb p" by (simp add: chain_def)
  qed
qed

text \<open>The tree after the walk of the best slots.\<close>

definition best_grown :: "fork_tree \<Rightarrow> SlotHashKey \<Rightarrow> SlotHashKey \<Rightarrow> fork_tree" where
  "best_grown infos leaf p =
     (let J = grown infos leaf p in
      if \<forall>d \<in> candidates J (kids J p). \<not> heavier J d leaf
      then relabel J (chain J (best_slot (info_of J p)) p) leaf else J)"

lemma best_grown_same: "same_deep (grown infos leaf p) (best_grown infos leaf p)"
  using relabel_same by (simp add: best_grown_def Let_def same_deep_def same_links_def)

lemma best_grown_slot:
  assumes fits: "leaf_fits infos root leaf p" and k: "k \<in> dom infos"
  shows "best_slot (info_of (best_grown infos leaf p) k) =
    (if k \<in> chain infos (best_slot (info_of infos p)) p \<and>
        (\<forall>d \<in> candidates (grown infos leaf p) (kids (grown infos leaf p) p). \<not> heavier (grown infos leaf p) d leaf)
     then leaf else best_slot (info_of infos k))"
proof -
  have "k \<noteq> leaf" "p \<noteq> leaf" using fits k leaf_unlinked(4) [OF fits] by (auto simp: leaf_fits_def)
  moreover have "k \<in> dom (grown infos leaf p)" using k by (simp add: grown_views(3) [OF fits])
  ultimately show ?thesis
    using grown_fields(4) [OF fits] by (simp add: best_grown_def Let_def best_relabel grown_chain [OF fits])
qed

lemma best_grown_parent:
  assumes fits: "leaf_fits infos root leaf p" and fields: "fields_ok infos" and cand: "info_is_candidate (info_of infos p)"
  shows "best_ok (best_grown infos leaf p) p"
proof -
  let ?I = "grown infos leaf p" let ?J = "best_grown infos leaf p"
  have links: "same_links ?I ?J" using best_grown_same by (simp add: same_deep_def)
  note views = same_links_views [OF links]
  have p: "p \<in> dom infos" "p \<noteq> leaf" using fits leaf_unlinked(4) [OF fits] by (simp_all add: leaf_fits_def)
  have kids: "kids ?I p = insert leaf (kids infos p)" by (simp add: grown_views(4) [OF fits])
  have leaf: "info_is_candidate (info_of ?I leaf)"
    using cand by (simp add: grown_views(1) [OF fits] new_leaf_info_def info_is_candidate_def)
  have chain: "p \<in> chain infos (best_slot (info_of infos p)) p"
    using fits chain_step [of infos root _ p] by (simp add: leaf_fits_def)
  note unlinked = leaf_unlinked(1) [OF fits, of p]
  show ?thesis
  proof (cases "\<forall>d \<in> candidates ?I (kids ?I p). \<not> heavier ?I d leaf")
    case True
    with leaf kids have "heaviest ?I (kids ?I p) leaf" by (auto simp: heaviest_def)
    moreover have "best_slot (info_of ?J p) = leaf" using best_grown_slot [OF fits p(1)] chain True by simp
    moreover have "best_slot (info_of ?J leaf) = leaf"
      using True grown_views(1) [OF fits] by (auto simp: best_grown_def Let_def relabel_def new_leaf_info_def)
    ultimately show ?thesis using leaf kids unfolding best_ok_def views by (auto intro: exI [of _ leaf])
  next
    case False
    then obtain e where e: "e \<in> candidates ?I (kids ?I p)" "heavier ?I e leaf" by blast
    then have "e \<noteq> leaf" by auto
    with e kids have e': "e \<in> candidates ?I (kids infos p)" by (auto simp: candidates_def)
    then have some: "candidates infos (kids infos p) \<noteq> {}" using grown_heaviest(1) [OF fits unlinked] by auto
    have "best_ok infos p" using fields cand p(1) by (simp add: fields_ok_def)
    with some obtain c where c: "heaviest infos (kids infos p) c" "best_slot (info_of infos p) = best_slot (info_of infos c)"
      by (auto simp: best_ok_def)
    have old: "heaviest ?I (kids infos p) c" using c(1) grown_heaviest(2) [OF fits unlinked] by simp
    then have "\<not> heavier ?I leaf c"
      using e' e(2) heavier_trans [of ?I e leaf c] by (auto simp: heaviest_def)
    with heaviest_insert [OF old unlinked] kids have new: "heaviest ?I (kids ?I p) c" by simp
    have "c \<in> kids infos p" using c(1) by (simp add: heaviest_def candidates_def)
    with kid_in_dom [of infos root c p] fits have "c \<in> dom infos" by (simp add: leaf_fits_def)
    from best_grown_slot [OF fits this] best_grown_slot [OF fits p(1)] False c(2)
    have "best_slot (info_of ?J p) = best_slot (info_of ?J c)" by simp
    moreover have "candidates ?I (kids ?I p) \<noteq> {}" using e(1) by blast
    ultimately show ?thesis using new unfolding best_ok_def views by auto
  qed
qed

lemma best_grown_ancestor:
  assumes fits: "leaf_fits infos root leaf p" and fields: "fields_ok infos" and cand: "info_is_candidate (info_of infos k)"
    and k: "k \<in> dom infos" "k \<noteq> p"
  shows "best_ok (best_grown infos leaf p) k"
proof -
  let ?I = "grown infos leaf p" let ?J = "best_grown infos leaf p"
  let ?S = "chain infos (best_slot (info_of infos p)) p"
  have linked: "well_linked infos root" and p: "p \<in> dom infos" using fits by (simp_all add: leaf_fits_def)
  have links: "same_links ?I ?J" using best_grown_same by (simp add: same_deep_def)
  note views = same_links_views [OF links]
  note slot = best_grown_slot [OF fits]
  have kids: "kids ?I k = kids infos k" using k(2) by (simp add: grown_views(4) [OF fits])
  note same = grown_heaviest [OF fits leaf_unlinked(1) [OF fits, of k]]
  have inside: "descends infos x (best_slot (info_of infos x))" if "x \<in> dom infos" for x
    using fields that by (simp add: fields_ok_def)
  have old: "best_ok infos k" using fields cand k(1) by (simp add: fields_ok_def)
  show ?thesis
  proof (cases "candidates infos (kids infos k) = {}")
    case True
    have "k \<notin> ?S"
    proof
      assume "k \<in> ?S"
      then have kp: "descends infos k p" "best_slot (info_of infos k) = best_slot (info_of infos p)"
        using chainD by blast+
      from old True have "best_slot (info_of infos k) = k" by (simp add: best_ok_def)
      with kp(2) inside [OF p] have "descends infos p k" by simp
      from descends_antisym [OF linked kp(1) this] k(2) show False by simp
    qed
    with True old slot [OF k(1)] show ?thesis unfolding best_ok_def views kids same(1) by simp
  next
    case False
    with old obtain c where c: "heaviest infos (kids infos k) c" "best_slot (info_of infos k) = best_slot (info_of infos c)"
      by (auto simp: best_ok_def)
    then have kid: "c \<in> kids infos k" by (simp add: heaviest_def candidates_def)
    then have "c \<in> dom infos" using kid_in_dom [OF linked] by blast
    have "k \<in> ?S \<longleftrightarrow> c \<in> ?S"
    proof (cases "descends infos c p")
      case True
      from chain_kid [OF linked kid True] c(2) chainD show ?thesis by metis
    next
      case False
      have "k \<notin> ?S"
      proof
        assume "k \<in> ?S"
        then have kp: "descends infos k p" "best_slot (info_of infos k) = best_slot (info_of infos p)"
        using chainD by blast+
        with k(2) descends_cases [of infos k p] obtain y where y: "y \<in> kids infos k" "descends infos y p" by blast
        from descends_trans [OF y(2) inside [OF p]] kp(2) c(2) inside [OF \<open>c \<in> dom infos\<close>]
        have "c = y" using kids_disjoint [OF linked kid y(1)] by simp
        with y False show False by simp
      qed
      with False chainD show ?thesis by blast
    qed
    with slot [OF k(1)] slot [OF \<open>c \<in> dom infos\<close>] c(2)
    have "best_slot (info_of ?J k) = best_slot (info_of ?J c)" by simp
    with c(1) False show ?thesis unfolding best_ok_def views kids same(1) same(2) by auto
  qed
qed

lemma best_grown_ok:
  assumes fits: "leaf_fits infos root leaf p" and fields: "fields_ok infos" and k: "k \<in> dom (grown infos leaf p)"
  shows "info_is_candidate (info_of (best_grown infos leaf p) k) \<Longrightarrow> best_ok (best_grown infos leaf p) k"
    and "descends (best_grown infos leaf p) k (best_slot (info_of (best_grown infos leaf p) k))"
proof -
  let ?I = "grown infos leaf p" let ?J = "best_grown infos leaf p"
  have linked: "well_linked infos root" "leaf \<notin> dom infos" using fits by (simp_all add: leaf_fits_def)
  have links: "same_links ?I ?J" using best_grown_same by (simp add: same_deep_def)
  note views = same_links_views [OF links]
  have "leaf \<noteq> p" "\<not> descends infos leaf p"
    using leaf_unlinked(2,4) [OF fits] descends_cases [of infos leaf p] by auto
  have leaf: "best_slot (info_of ?J leaf) = leaf"
    using grown_views(1) [OF fits] by (auto simp: best_grown_def Let_def relabel_def new_leaf_info_def)
  have kleaf: "kids ?I leaf = {}" using leaf_unlinked(2) [OF fits] \<open>leaf \<noteq> p\<close> by (simp add: grown_views(4) [OF fits])
  show "best_ok ?J k" if "info_is_candidate (info_of ?J k)"
  proof (cases "k = leaf")
    case True
    with leaf kleaf show ?thesis by (simp add: best_ok_def views)
  next
    case False
    have "info_is_candidate (info_of infos k)"
      using that grown_fields(6) [OF fits False] by (simp add: views(5)) (simp add: info_is_candidate_def)
    moreover have "k \<in> dom infos" using k False by (simp add: grown_views(3) [OF fits])
    ultimately show ?thesis
      using best_grown_parent [OF fits fields] best_grown_ancestor [OF fits fields, of k] by (cases "k = p") simp_all
  qed
  show "descends ?J k (best_slot (info_of ?J k))"
  proof (cases "k = leaf")
    case True
    with leaf show ?thesis by (simp add: views(3))
  next
    case False
    with k have k': "k \<in> dom infos" by (simp add: grown_views(3) [OF fits])
    have in_old: "descends infos k (best_slot (info_of infos k))" using fields k' by (simp add: fields_ok_def)
    then have "best_slot (info_of infos k) \<noteq> leaf" using descends_dom [OF linked(1) _ k'] linked(2) by auto
    with best_grown_slot [OF fits k'] in_old show ?thesis
      using grown_descends [OF fits] chainD [of k infos] by (auto simp: views(3))
  qed
qed

section \<open>Adding a leaf\<close>

lemma deep_walk_same: "same_deep J J' \<Longrightarrow> deep_walk J' leaf a c h = deep_walk J leaf a c h"
proof -
  assume same: "same_deep J J'"
  then have links: "same_links J J'" and dom: "dom J' = dom J" by (simp_all add: same_deep_def same_links_def)
  have "deeper J' = deeper J" using same by (simp add: deeper_def same_links_views [OF links] same_deep_def fun_eq_iff)
  then have "deepest J' = deepest J" by (simp add: deepest_def fun_eq_iff)
  with same dom show ?thesis by (simp add: deep_walk_def same_links_views [OF links] same_deep_def same_deep_ok [OF same])
qed

lemma propagate_new_leaf_ok:
  assumes fits: "leaf_fits infos root leaf p" and fields: "fields_ok infos"
  shows "\<exists>J. propagate_new_leaf (grown infos leaf p) leaf p = Some J \<and> same_links (grown infos leaf p) J \<and> fields_ok J"
proof -
  let ?I = "grown infos leaf p" let ?J = "best_grown infos leaf p"
  have same: "same_deep ?I ?J" and links: "same_links ?I ?J" using best_grown_same by (simp_all add: same_deep_def)
  note linked = grown_linked [OF fits]
  have linked': "well_linked ?J root" using linked well_linked_same_shape [OF same_links_shape [OF links]] by simp
  have p: "p \<in> dom ?I" "up ?I leaf = Some p" using fits by (auto simp: grown_views(3,5) [OF fits] leaf_fits_def)
  then obtain pinfo where pinfo: "?I p = Some pinfo" by blast
  have "deep_walk ?J leaf p leaf 1" using grown_walk [OF fits fields] deep_walk_same [OF same] by simp
  from propagate_deepest_ok [OF linked' this] obtain K where
    K: "propagate_deepest leaf ?J (Some p) leaf 1 = Some K" "same_best ?J K" "\<forall>k \<in> dom ?J. deepest_ok K k" by blast
  have links': "same_links ?J K" using K(2) by (simp add: same_best_def)
  have dom: "dom K = dom ?I" using links links' by (simp add: same_links_def)
  have "fields_ok K"
    unfolding fields_ok_def
  proof (intro ballI conjI impI)
    fix k
    assume k: "k \<in> dom K"
    show "summed K k"
      using grown_summed [OF fits fields, of k] k dom by (simp add: same_links_views(4) [OF links'] same_links_views(4) [OF links])
    show "deepest_ok K k" using K(3) k links' by (simp add: same_links_def)
    show "best_ok K k" if "info_is_candidate (info_of K k)"
      using that best_grown_ok(1) [OF fits fields, of k] k dom by (simp add: same_links_views(5) [OF links'] same_best_ok [OF K(2)])
    show "descends K k (best_slot (info_of K k))"
      using best_grown_ok(2) [OF fits fields, of k] k dom K(2) by (simp add: same_links_views(3) [OF links'] same_best_def)
  qed
  moreover have "propagate_new_leaf ?I leaf p = Some K"
    using K(1) pinfo is_best_child_eq [OF linked p(2)] propagate_best_eq [OF linked p(1)]
    unfolding propagate_new_leaf_def best_grown_def Let_def
    by (cases "\<forall>d \<in> candidates ?I (kids ?I p). \<not> heavier ?I d leaf") simp_all
  moreover have "same_links ?I K" using links links' by (simp add: same_links_def)
  ultimately show ?thesis by blast
qed

lemma grown_marks:
  assumes fits: "leaf_fits infos root leaf p" and marks: "marks_ok infos"
  shows "marks_ok (grown infos leaf p)"
proof -
  let ?I = "grown infos leaf p"
  have linked: "well_linked infos root" and p: "p \<in> dom infos" "leaf \<notin> dom infos" "key_slot p < key_slot leaf"
    using fits by (simp_all add: leaf_fits_def)
  have leaf: "marks_of ?I leaf = (False, snd (marks_of infos p))"
    by (simp add: marks_of_def grown_views(1) [OF fits] new_leaf_info_def)
  have others: "marks_of ?I k = marks_of infos k" if "k \<noteq> leaf" for k
    using grown_fields(6,7) [OF fits that] by (simp add: marks_of_def)
  have own: "invalid_le (snd (marks_of infos k)) (Some (key_slot k)) \<and> (fst (marks_of infos k) \<longrightarrow> snd (marks_of infos k) = None)"
    if "k \<in> dom infos" for k using marks that unfolding marks_ok_iff by blast
  have edge: "invalid_le (snd (marks_of infos q)) (snd (marks_of infos k)) \<and> (fst (marks_of infos k) \<longrightarrow> fst (marks_of infos q))"
    if "up infos k = Some q" for k q using marks that unfolding marks_ok_iff by blast
  have lower: "invalid_le (snd (marks_of infos p)) (Some (key_slot leaf))"
    using own [OF p(1)] p(3) by (auto simp: invalid_le_def)
  have "q \<noteq> leaf" "k \<noteq> leaf" if "up infos k = Some q" for k q
    using linked_up [OF linked that] up_in_dom [OF that] p(2) by auto
  with others edge leaf leaf_unlinked(4) [OF fits]
  have "invalid_le (snd (marks_of ?I q)) (snd (marks_of ?I k)) \<and> (fst (marks_of ?I k) \<longrightarrow> fst (marks_of ?I q))"
    if "up ?I k = Some q" for k q
    using that by (cases "k = leaf") (auto simp: grown_views(5) [OF fits])
  moreover have "invalid_le (snd (marks_of ?I k)) (Some (key_slot k)) \<and> (fst (marks_of ?I k) \<longrightarrow> snd (marks_of ?I k) = None)"
    if "k \<in> dom ?I" for k
    using that own others leaf lower by (cases "k = leaf") (auto simp: grown_views(3) [OF fits])
  ultimately show ?thesis unfolding marks_ok_iff by blast
qed

lemma add_new_leaf_slot_ok:
  assumes ok: "fork_choice_ok stake s" and fits: "leaf_fits (fork_infos s) (tree_root s) leaf p"
    and new: "leaf \<notin> ran (latest_votes s)"
  shows "\<exists>s'. add_new_leaf_slot s leaf (Some p) = Some s' \<and> fork_choice_ok stake s' \<and> tree_root s' = tree_root s \<and>
    latest_votes s' = latest_votes s \<and> same_links (grown (fork_infos s) leaf p) (fork_infos s')"
proof -
  let ?I = "grown (fork_infos s) leaf p"
  have fields: "fields_ok (fork_infos s)" and marks: "marks_ok (fork_infos s)"
    and stakes: "stakes_ok stake (fork_infos s) (latest_votes s)" using ok by (simp_all add: fork_choice_ok_def)
  have p: "fork_infos s leaf = None" "p \<noteq> leaf" using fits leaf_unlinked(4) [OF fits] by (auto simp: leaf_fits_def)
  from fits obtain pinfo where pinfo: "fork_infos s p = Some pinfo" by (auto simp: leaf_fits_def)
  from propagate_new_leaf_ok [OF fits fields] obtain J where
    J: "propagate_new_leaf ?I leaf p = Some J" "same_links ?I J" "fields_ok J" by blast
  have "add_new_leaf_slot s leaf (Some p) = Some (s\<lparr>fork_infos := J\<rparr>)"
    using J(1) p pinfo by (simp add: add_new_leaf_slot_def get_latest_invalid_ancestor_def grown_def)
  moreover have "well_linked J (tree_root s)"
    using grown_linked [OF fits] well_linked_same_shape [OF same_links_shape [OF J(2)]] by simp
  moreover have "marks_ok J" using grown_marks [OF fits marks] same_links_views(9) [OF J(2)] by simp
  moreover have "stakes_ok stake ?I (latest_votes s)"
  proof -
    have "{pubkey. latest_votes s pubkey = Some leaf} = {}" using new by (auto simp: ran_def)
    then have "voted stake (latest_votes s) leaf = 0" by (simp add: voted_def)
    then have "stake_voted_at (info_of ?I k) = voted stake (latest_votes s) k" if "k \<in> dom ?I" for k
      using that stakes grown_fields(1) [OF fits, of k] grown_views(1) [OF fits]
      by (cases "k = leaf") (auto simp: stakes_ok_def grown_views(3) [OF fits] new_leaf_info_def)
    with stakes show ?thesis by (simp add: stakes_ok_def)
  qed
  moreover from this have "stakes_ok stake J (latest_votes s)" using same_links_views(10) [OF J(2)] by blast
  ultimately show ?thesis using J(2,3) by (simp add: fork_choice_ok_def)
qed

end
