(* ===== verification/ForkChoiceRoots.thy ===== *)
theory ForkChoiceRoots
  imports ForkChoiceLeaves
begin

text \<open>
  Roots: a new tree, a tree cut down to the descendants of a new root, and a tree with a parent put above its root.
  All satisfy the invariant.
\<close>

section \<open>Roots\<close>

lemma new_ok:
  assumes "root \<noteq> default_key"
  shows "\<exists>s. HeaviestSubtreeForkChoice_new root = Some s \<and> fork_choice_ok stake s \<and>
    fork_infos s = [root \<mapsto> new_leaf_info root None None] \<and> tree_root s = root \<and> latest_votes s = Map.empty"
proof -
  let ?I = "[root \<mapsto> new_leaf_info root None None]"
  have views: "kids ?I = (\<lambda>_. {})" "up ?I = (\<lambda>_. None)" by (auto simp: kids_def up_def new_leaf_info_def fun_eq_iff)
  have "well_linked ?I root" using assms by (simp add: well_linked_def views)
  moreover have "fields_ok ?I"
    unfolding fields_ok_def summed_def deepest_ok_def best_ok_def views by (simp add: new_leaf_info_def)
  moreover have "marks_ok ?I" unfolding marks_ok_def views by (simp add: new_leaf_info_def info_is_candidate_def)
  moreover have "stakes_ok stake ?I Map.empty" by (simp add: stakes_ok_def voted_def new_leaf_info_def)
  ultimately show ?thesis
    by (simp add: HeaviestSubtreeForkChoice_new_def add_new_leaf_slot_def fork_choice_ok_def)
qed

definition rooted :: "fork_tree \<Rightarrow> SlotHashKey \<Rightarrow> fork_tree" where
  "rooted infos r = (infos |` {k. descends infos r k})(r \<mapsto> (info_of infos r)\<lparr>parent := None\<rparr>)"

lemma rooted_views:
  assumes linked: "well_linked infos root" and r: "r \<in> dom infos"
  shows "dom (rooted infos r) = {k. descends infos r k}"
    and "descends infos r k \<Longrightarrow> kids (rooted infos r) k = kids infos k"
    and "kids (rooted infos r) k = (if descends infos r k then kids infos k else {})"
    and "up (rooted infos r) k = (if descends infos r k \<and> k \<noteq> r then up infos k else None)"
    and "k \<noteq> r \<Longrightarrow> descends infos r k \<Longrightarrow> rooted infos r k = infos k"
proof -
  have dom: "k \<in> dom infos" if "descends infos r k" for k using descends_dom [OF linked that r] .
  then have "{k. descends infos r k} \<subseteq> dom infos" by blast
  then show "dom (rooted infos r) = {k. descends infos r k}" by (auto simp: rooted_def)
  show "k \<noteq> r \<Longrightarrow> descends infos r k \<Longrightarrow> rooted infos r k = infos k" by (simp add: rooted_def)
  show "up (rooted infos r) k = (if descends infos r k \<and> k \<noteq> r then up infos k else None)"
    using r by (auto simp: rooted_def up_def restrict_map_def)
  show all: "kids (rooted infos r) k = (if descends infos r k then kids infos k else {})" for k
    using r by (auto simp: rooted_def kids_def restrict_map_def)
  show "descends infos r k \<Longrightarrow> kids (rooted infos r) k = kids infos k" by (simp add: all)
qed

lemma rooted_linked:
  assumes linked: "well_linked infos root" and r: "r \<in> dom infos"
  shows "well_linked (rooted infos r) r"
proof -
  note views = rooted_views [OF linked r]
  have sub: "{k. descends infos r k} \<subseteq> dom infos" using descends_dom [OF linked _ r] by blast
  show ?thesis unfolding well_linked_def
  proof (intro conjI allI ballI impI)
    show "finite (dom (rooted infos r))" unfolding views(1) using sub linked_finite [OF linked] by (rule finite_subset)
    show "default_key \<notin> dom (rooted infos r)" unfolding views(1) using sub linked_default [OF linked] by blast
    show "r \<in> dom (rooted infos r)" by (simp add: views(1))
    fix k c
    show "c \<in> kids (rooted infos r) k \<longleftrightarrow> up (rooted infos r) c = Some k"
      unfolding views(3,4) linked_kids [OF linked, symmetric]
      using descends_up [OF linked, of r c] linked_kids [OF linked, of c k] kid_not_up [OF linked, of c k] by auto
  next
    fix k p
    assume "up (rooted infos r) k = Some p"
    then have k: "descends infos r k" "k \<noteq> r" "up infos k = Some p" by (auto simp: views(4) split: if_splits)
    with descends_up [OF linked, of r k] show "p \<in> dom (rooted infos r)" by (auto simp: views(1))
    show "key_slot p < key_slot k" using linked_up [OF linked k(3)] by simp
  next
    fix k
    assume "k \<in> dom (rooted infos r)"
    then show "(up (rooted infos r) k = None) = (k = r)"
      using descends_up [OF linked, of r k] by (auto simp: views(1,4))
  qed
qed

lemma rooted_descends:
  assumes linked: "well_linked infos root" and r: "r \<in> dom infos" and k: "descends infos r k"
  shows "descends (rooted infos r) k x = descends infos k x"
proof -
  have "k \<in> dom infos" using descends_dom [OF linked k r] .
  with linked have "descends infos r k \<longrightarrow> descends (rooted infos r) k x = descends infos k x"
  proof (induction k rule: tree_induct)
    case (node k)
    show ?case
    proof
      assume k: "descends infos r k"
      have "descends infos r c" if "c \<in> kids infos k" for c
        using k that descends_up [OF linked, of r c] linked_kids [OF linked, of c k] by auto
      with node.IH show "descends (rooted infos r) k x = descends infos k x"
        using descends_cases [of infos k x] descends_cases [of "rooted infos r" k x] by (auto simp: rooted_views(2) [OF linked r k])
    qed
  qed
  with k show ?thesis by blast
qed

lemma rooted_fields:
  assumes linked: "well_linked infos root" and r: "r \<in> dom infos" and fields: "fields_ok infos"
  shows "fields_ok (rooted infos r)"
  unfolding fields_ok_def
proof
  let ?I = "rooted infos r"
  fix k
  assume "k \<in> dom ?I"
  then have k: "descends infos r k" "k \<in> dom infos" using rooted_views(1) [OF linked r] descends_dom [OF linked _ r] by auto
  have kids: "same_kids infos ?I k"
    unfolding same_kids_def
  proof
    show "kids ?I k = kids infos k" by (rule rooted_views(2) [OF linked r k(1)])
    show "\<forall>c \<in> kids infos k. ?I c = infos c"
    proof
      fix c
      assume c: "c \<in> kids infos k"
      then have "descends infos r c" using k(1) descends_up [OF linked, of r c] linked_kids [OF linked, of c k] by auto
      moreover have "c \<noteq> r" using c k(1) kid_not_up [OF linked, of c k] by auto
      ultimately show "?I c = infos c" using rooted_views(5) [OF linked r] by simp
    qed
  qed
  have info: "stake_voted_at (info_of ?I k) = stake_voted_at (info_of infos k)"
    "stake_voted_subtree (info_of ?I k) = stake_voted_subtree (info_of infos k)"
    "best_slot (info_of ?I k) = best_slot (info_of infos k)" "deepest_slot (info_of ?I k) = deepest_slot (info_of infos k)"
    "height (info_of ?I k) = height (info_of infos k)"
    "info_is_candidate (info_of ?I k) = info_is_candidate (info_of infos k)"
    using k(1) by (simp_all add: rooted_def info_is_candidate_def)
  have old: "summed infos k" "deepest_ok infos k" "info_is_candidate (info_of infos k) \<Longrightarrow> best_ok infos k"
    "descends infos k (best_slot (info_of infos k))" using fields k(2) by (simp_all add: fields_ok_def)
  show "summed ?I k \<and> deepest_ok ?I k \<and> (info_is_candidate (info_of ?I k) \<longrightarrow> best_ok ?I k) \<and>
      descends ?I k (best_slot (info_of ?I k))"
    using summed_kept [OF kids old(1)] deepest_ok_kept [OF kids _ _ old(2)] best_ok_kept [OF kids _ old(3)] old(4) info
      rooted_descends [OF linked r k(1)] by simp
qed

lemma rooted_kept:
  assumes "descends infos r k"
  shows "marks_of (rooted infos r) k = marks_of infos k"
    and "stake_voted_at (info_of (rooted infos r) k) = stake_voted_at (info_of infos k)"
  using assms by (simp_all add: rooted_def marks_of_def)

lemma rooted_marks:
  assumes linked: "well_linked infos root" and r: "r \<in> dom infos" and marks: "marks_ok infos"
  shows "marks_ok (rooted infos r)"
  unfolding marks_ok_iff
proof (intro conjI ballI allI impI)
  note views = rooted_views [OF linked r]
  fix k
  assume "k \<in> dom (rooted infos r)"
  then have k: "descends infos r k" "k \<in> dom infos" using views(1) descends_dom [OF linked _ r] by auto
  with marks show "invalid_le (snd (marks_of (rooted infos r) k)) (Some (key_slot k))"
      "fst (marks_of (rooted infos r) k) \<Longrightarrow> snd (marks_of (rooted infos r) k) = None"
    unfolding marks_ok_iff by (simp_all add: rooted_kept)
next
  fix k p
  assume "up (rooted infos r) k = Some p"
  then have k: "descends infos r k" "k \<noteq> r" "up infos k = Some p"
    by (auto simp: rooted_views(4) [OF linked r] split: if_splits)
  then have "descends infos r p" using descends_up [OF linked, of r k] by auto
  with k marks show "invalid_le (snd (marks_of (rooted infos r) p)) (snd (marks_of (rooted infos r) k))"
      "fst (marks_of (rooted infos r) k) \<Longrightarrow> fst (marks_of (rooted infos r) p)"
    unfolding marks_ok_iff by (simp_all add: rooted_kept)
qed

lemma rooted_ok:
  assumes ok: "fork_choice_ok stake s" and r: "r \<in> dom (fork_infos s)"
  shows "fork_choice_ok stake (s\<lparr>fork_infos := rooted (fork_infos s) r, tree_root := r\<rparr>)"
proof -
  let ?I = "fork_infos s"
  have linked: "well_linked ?I (tree_root s)" and fields: "fields_ok ?I" and marks: "marks_ok ?I"
    and stakes: "stakes_ok stake ?I (latest_votes s)" using ok by (simp_all add: fork_choice_ok_def)
  have "stakes_ok stake (rooted ?I r) (latest_votes s)"
    using stakes rooted_kept(2) descends_dom [OF linked _ r] by (auto simp: stakes_ok_def rooted_views(1) [OF linked r])
  with rooted_linked [OF linked r] rooted_fields [OF linked r fields] rooted_marks [OF linked r marks] show ?thesis
    by (simp add: fork_choice_ok_def)
qed

lemma set_tree_root_ok:
  assumes ok: "fork_choice_ok stake s" and r: "r \<in> dom (fork_infos s)"
  shows "set_tree_root s r = Some (s\<lparr>fork_infos := rooted (fork_infos s) r, tree_root := r\<rparr>)"
proof -
  let ?I = "fork_infos s"
  have linked: "well_linked ?I (tree_root s)" using ok by (simp add: fork_choice_ok_def)
  have root: "tree_root s \<in> dom ?I" by (rule linked_root [OF linked])
  have remove: "between ?I r (tree_root s) = {k \<in> dom ?I. \<not> descends ?I r k}"
    using root_descends [OF linked] r descends_dom [OF linked _ root] by (auto simp: between_def)
  have kept: "?I |` (- between ?I r (tree_root s)) = ?I |` {k. descends ?I r k}"
    unfolding remove by (auto simp: restrict_map_def fun_eq_iff)
  have here: "(?I |` {k. descends ?I r k}) r = Some (info_of ?I r)" using r by auto
  have "between ?I r (tree_root s) \<subseteq> dom ?I" using remove by blast
  then show ?thesis
    unfolding set_tree_root_def subtree_diff_eq [OF linked root] bind.simps(2) Let_def kept here rooted_def by simp
qed

text \<open>The tree with a parent above its root.\<close>

definition parented :: "fork_tree \<Rightarrow> SlotHashKey \<Rightarrow> SlotHashKey \<Rightarrow> fork_tree" where
  "parented infos root rp = infos(root \<mapsto> (info_of infos root)\<lparr>parent := Some rp\<rparr>,
     rp \<mapsto> \<lparr>stake_voted_at = 0, stake_voted_subtree = stake_voted_subtree (info_of infos root),
       height = height (info_of infos root) + 1, best_slot = best_slot (info_of infos root),
       deepest_slot = deepest_slot (info_of infos root), parent = None, children = {root}, latest_invalid_ancestor = None,
       is_duplicate_confirmed = is_duplicate_confirmed (info_of infos root)\<rparr>)"

lemma parented_views:
  assumes linked: "well_linked infos root" and rp: "rp \<notin> dom infos"
  shows "dom (parented infos root rp) = insert rp (dom infos)"
    and "kids (parented infos root rp) = (kids infos)(rp := {root})"
    and "up (parented infos root rp) = (up infos)(root \<mapsto> rp)"
    and "k \<noteq> root \<Longrightarrow> k \<noteq> rp \<Longrightarrow> parented infos root rp k = infos k"
    and "root \<noteq> rp"
proof -
  have root: "root \<in> dom infos" by (rule linked_root [OF linked])
  then show ne: "root \<noteq> rp" using rp by auto
  show "dom (parented infos root rp) = insert rp (dom infos)" using root by (auto simp: parented_def)
  show "kids (parented infos root rp) = (kids infos)(rp := {root})"
    using root ne by (auto simp: parented_def kids_def fun_eq_iff)
  show "up (parented infos root rp) = (up infos)(root \<mapsto> rp)"
    using root ne rp by (auto simp: parented_def up_def fun_eq_iff split: option.splits)
  show "k \<noteq> root \<Longrightarrow> k \<noteq> rp \<Longrightarrow> parented infos root rp k = infos k" by (simp add: parented_def)
qed

lemma parented_linked:
  assumes linked: "well_linked infos root" and rp: "rp \<notin> dom infos" "key_slot rp < key_slot root" "rp \<noteq> default_key"
  shows "well_linked (parented infos root rp) rp"
proof -
  note views = parented_views [OF linked rp(1)]
  have root: "root \<in> dom infos" "up infos root = None" using linked_root [OF linked] linked_top [OF linked] by auto
  have none: "up infos rp = None" "kids infos rp = {}" using rp(1) by (auto simp: up_def kids_def split: option.splits)
  show ?thesis unfolding well_linked_def views(1-3)
  proof (intro conjI allI ballI impI)
    show "finite (insert rp (dom infos))" using linked_finite [OF linked] by simp
    show "default_key \<notin> insert rp (dom infos)" using linked_default [OF linked] rp(3) by auto
    show "rp \<in> insert rp (dom infos)" by simp
    fix k c
    have "up infos c \<noteq> Some rp" using linked_up [OF linked, of c rp] rp(1) by blast
    then show "c \<in> ((kids infos)(rp := {root})) k \<longleftrightarrow> ((up infos)(root \<mapsto> rp)) c = Some k"
      using linked_kids [OF linked, of c k] root(2) by auto
  next
    fix k p
    assume "((up infos)(root \<mapsto> rp)) k = Some p"
    then show "p \<in> insert rp (dom infos)" "key_slot p < key_slot k"
      using linked_up [OF linked, of k p] rp(2) by (auto split: if_splits)
  next
    fix k
    assume "k \<in> insert rp (dom infos)"
    then show "(((up infos)(root \<mapsto> rp)) k = None) = (k = rp)"
      using linked_top [OF linked, of k] none(1) views(5) rp(1) by (cases "k = rp") auto
  qed
qed

lemma parented_fields:
  assumes linked: "well_linked infos root" and rp: "rp \<notin> dom infos" and fields: "fields_ok infos"
    and cand: "info_is_candidate (info_of infos root)"
  shows "fields_ok (parented infos root rp)"
  unfolding fields_ok_def
proof
  let ?I = "parented infos root rp"
  note views = parented_views [OF linked rp]
  have root: "root \<in> dom infos" by (rule linked_root [OF linked])
  have "kids infos rp = {}" using rp by (auto simp: kids_def split: option.splits)
  then have "(\<lambda>k c. c \<in> kids infos k) \<le> (\<lambda>k c. c \<in> kids ?I k)" by (auto simp: views(2))
  from rtranclp_mono [OF this] have mono: "descends ?I k x" if "descends infos k x" for k x
    using that unfolding descends_def by blast
  have fields_eq: "stake_voted_subtree (info_of ?I k) = stake_voted_subtree (info_of infos k)"
    "stake_voted_at (info_of ?I k) = stake_voted_at (info_of infos k)"
    "best_slot (info_of ?I k) = best_slot (info_of infos k)" "deepest_slot (info_of ?I k) = deepest_slot (info_of infos k)"
    "height (info_of ?I k) = height (info_of infos k)"
    "info_is_candidate (info_of ?I k) = info_is_candidate (info_of infos k)" if "k \<in> dom infos" for k
    using that rp by (auto simp: parented_def info_is_candidate_def)
  fix k
  assume "k \<in> dom ?I"
  then consider "k = rp" | "k \<in> dom infos" "k \<noteq> rp" using views(1) rp by auto
  then show "summed ?I k \<and> deepest_ok ?I k \<and> (info_is_candidate (info_of ?I k) \<longrightarrow> best_ok ?I k) \<and>
      descends ?I k (best_slot (info_of ?I k))"
  proof cases
    case 1
    have "?I rp = Some \<lparr>stake_voted_at = 0, stake_voted_subtree = stake_voted_subtree (info_of infos root),
       height = height (info_of infos root) + 1, best_slot = best_slot (info_of infos root),
       deepest_slot = deepest_slot (info_of infos root), parent = None, children = {root}, latest_invalid_ancestor = None,
       is_duplicate_confirmed = is_duplicate_confirmed (info_of infos root)\<rparr>" by (simp add: parented_def)
    moreover have "kids ?I rp = {root}" by (simp add: views(2))
    moreover have "descends infos root (best_slot (info_of infos root))" using fields root by (simp add: fields_ok_def)
    ultimately show ?thesis
      using fields_eq [OF root] cand descends_kid [of root ?I rp] mono
      by (auto simp: 1 summed_def deepest_ok_def best_ok_def deepest_def heaviest_def)
  next
    case 2
    have kids: "same_kids infos ?I k"
      unfolding same_kids_def
    proof
      show "kids ?I k = kids infos k" using 2 by (simp add: views(2))
      show "\<forall>c \<in> kids infos k. ?I c = infos c"
      proof
        fix c
        assume c: "c \<in> kids infos k"
        then have "c \<noteq> root" using linked_kids [OF linked, of c k] linked_top [OF linked root] by auto
        moreover have "c \<noteq> rp" using kid_in_dom [OF linked c] rp by auto
        ultimately show "?I c = infos c" by (rule views(4))
      qed
    qed
    have old: "summed infos k" "deepest_ok infos k" "info_is_candidate (info_of infos k) \<Longrightarrow> best_ok infos k"
      "descends infos k (best_slot (info_of infos k))" using fields 2(1) by (simp_all add: fields_ok_def)
    show ?thesis
      using summed_kept [OF kids old(1)] deepest_ok_kept [OF kids _ _ old(2)] best_ok_kept [OF kids _ old(3)]
        mono [OF old(4)] fields_eq [OF 2(1)] by simp
  qed
qed

lemma add_root_parent_ok:
  assumes ok: "fork_choice_ok stake s" and rp: "rp \<notin> dom (fork_infos s)" "key_slot rp < key_slot (tree_root s)" "rp \<noteq> default_key"
    and cand: "info_is_candidate (info_of (fork_infos s) (tree_root s))" and new: "rp \<notin> ran (latest_votes s)"
  shows "add_root_parent s rp = Some (s\<lparr>fork_infos := parented (fork_infos s) (tree_root s) rp, tree_root := rp\<rparr>) \<and>
    fork_choice_ok stake (s\<lparr>fork_infos := parented (fork_infos s) (tree_root s) rp, tree_root := rp\<rparr>)"
proof -
  let ?I = "fork_infos s" let ?J = "parented ?I (tree_root s) rp"
  have linked: "well_linked ?I (tree_root s)" and fields: "fields_ok ?I" and marks: "marks_ok ?I"
    and stakes: "stakes_ok stake ?I (latest_votes s)" using ok by (simp_all add: fork_choice_ok_def)
  note views = parented_views [OF linked rp(1)]
  have root: "tree_root s \<in> dom ?I" by (rule linked_root [OF linked])
  then have run: "add_root_parent s rp = Some (s\<lparr>fork_infos := ?J, tree_root := rp\<rparr>)"
    using rp by (auto simp: add_root_parent_def parented_def)
  have same: "marks_of ?J k = marks_of ?I k" "stake_voted_at (info_of ?J k) = stake_voted_at (info_of ?I k)" if "k \<noteq> rp" for k
    using that by (simp_all add: parented_def marks_of_def)
  have at: "marks_of ?J rp = (is_duplicate_confirmed (info_of ?I (tree_root s)), None)" "stake_voted_at (info_of ?J rp) = 0"
    by (simp_all add: parented_def marks_of_def)
  have root_marks: "fst (marks_of ?I (tree_root s)) = is_duplicate_confirmed (info_of ?I (tree_root s))" by (simp add: marks_of_def)
  have "marks_ok ?J"
    unfolding marks_ok_iff
  proof (intro conjI ballI allI impI)
    fix k
    assume "k \<in> dom ?J"
    with marks same(1) [of k] at(1) views(1)
    show "invalid_le (snd (marks_of ?J k)) (Some (key_slot k))" "fst (marks_of ?J k) \<Longrightarrow> snd (marks_of ?J k) = None"
      unfolding marks_ok_iff by (cases "k = rp"; simp)+
  next
    fix k p
    assume up: "up ?J k = Some p"
    have ne: "k \<noteq> rp" using up linked_top [OF parented_linked [OF linked rp], of rp] views(1) by auto
    show "invalid_le (snd (marks_of ?J p)) (snd (marks_of ?J k))" "fst (marks_of ?J k) \<Longrightarrow> fst (marks_of ?J p)"
    proof -
      have "(invalid_le (snd (marks_of ?J p)) (snd (marks_of ?J k))) \<and> (fst (marks_of ?J k) \<longrightarrow> fst (marks_of ?J p))"
      proof (cases "k = tree_root s")
        case True
        with up have "p = rp" by (simp add: views(3))
        with True at(1) same(1) [OF ne] root_marks show ?thesis by simp
      next
        case False
        with up have old: "up ?I k = Some p" by (simp add: views(3))
        then have "p \<noteq> rp" using linked_up [OF linked old] rp(1) by auto
        with old marks same(1) [OF ne] same(1) [of p] show ?thesis unfolding marks_ok_iff by simp
      qed
      then show "invalid_le (snd (marks_of ?J p)) (snd (marks_of ?J k))" "fst (marks_of ?J k) \<Longrightarrow> fst (marks_of ?J p)" by blast+
    qed
  qed
  moreover have "stakes_ok stake ?J (latest_votes s)"
  proof -
    have "{pubkey. latest_votes s pubkey = Some rp} = {}" using new by (auto simp: ran_def)
    then have "voted stake (latest_votes s) rp = 0" by (simp add: voted_def)
    then have "stake_voted_at (info_of ?J k) = voted stake (latest_votes s) k" if "k \<in> dom ?J" for k
      using that stakes same(2) [of k] at(2) by (cases "k = rp") (auto simp: stakes_ok_def views(1))
    with stakes show ?thesis by (simp add: stakes_ok_def)
  qed
  ultimately show ?thesis
    using run parented_linked [OF linked rp] parented_fields [OF linked rp(1) fields cand] by (simp add: fork_choice_ok_def)
qed

end
