(* ===== verification/ForkChoiceSplit.thy ===== *)
theory ForkChoiceSplit
  imports ForkChoiceRoots
begin

text \<open>
  Splitting a subtree off. The ancestors of the subtree are aggregated while its blocks are still in the map but
  no longer linked to: this does to the rest of the tree what it would do without the subtree
  (\<open>apply_operations_frame\<close>), and the blocks are moved to a map of their own afterwards. Both trees
  satisfy the invariant.
\<close>

section \<open>The tree without a subtree\<close>

definition cut :: "fork_tree \<Rightarrow> SlotHashKey \<Rightarrow> fork_tree" where
  "cut infos key = (\<lambda>k. if descends infos key k then None
     else map_option (\<lambda>info. info\<lparr>children := children info - {key}\<rparr>) (infos k))"

lemma cut_views:
  shows cut_dom: "dom (cut infos key) = {k \<in> dom infos. \<not> descends infos key k}"
    and cut_kids: "kids (cut infos key) k = (if descends infos key k then {} else kids infos k - {key})"
    and cut_up: "up (cut infos key) k = (if descends infos key k then None else up infos k)"
  by (auto simp: cut_def kids_def up_def split: option.splits if_splits)

lemma cut_kept: "k \<in> dom (cut infos key) \<Longrightarrow> stake_voted_at (info_of (cut infos key) k) = stake_voted_at (info_of infos k) \<and>
    marks_of (cut infos key) k = marks_of infos k"
  by (auto simp: cut_def marks_of_def split: if_splits)

lemma cut_linked:
  assumes linked: "well_linked infos root" and key: "key \<in> dom infos" "key \<noteq> root"
  shows "well_linked (cut infos key) root"
proof -
  have below: "descends infos key c \<longleftrightarrow> c = key \<or> descends infos key k" if "up infos c = Some k" for c k
    using that descends_up [OF linked, of key c] by auto
  show ?thesis unfolding well_linked_def
  proof (intro conjI allI ballI impI)
    show "finite (dom (cut infos key))" using linked_finite [OF linked] by (simp add: cut_dom)
    show "default_key \<notin> dom (cut infos key)" using linked_default [OF linked] by (simp add: cut_dom)
    show "root \<in> dom (cut infos key)"
      using linked_root [OF linked] descends_antisym [OF linked] root_descends [OF linked key(1)] key(2)
      by (auto simp: cut_dom)
    fix k c
    show "c \<in> kids (cut infos key) k \<longleftrightarrow> up (cut infos key) c = Some k"
      using below [of c k] linked_kids [OF linked, of c k] by (auto simp: cut_kids cut_up)
  next
    fix k p
    assume "up (cut infos key) k = Some p"
    then have k: "\<not> descends infos key k" "up infos k = Some p" by (auto simp: cut_up split: if_splits)
    with below [OF k(2)] linked_up [OF linked k(2)] show "p \<in> dom (cut infos key)" "key_slot p < key_slot k"
      by (simp_all add: cut_dom)
  next
    fix k
    assume "k \<in> dom (cut infos key)"
    then show "(up (cut infos key) k = None) = (k = root)" using linked_top [OF linked, of k] by (simp add: cut_dom cut_up)
  qed
qed

lemma cut_same:
  assumes "\<not> descends infos key k" and "\<not> descends infos k key"
  shows "cut infos key k = infos k"
proof (cases "infos k")
  case (Some info)
  have "key \<notin> children info" using assms(2) descends_kid [of key infos k key] kids_Some [of infos, OF Some] by auto
  with assms(1) Some show ?thesis by (simp add: cut_def)
qed (simp add: cut_def)

lemma cut_descends:
  assumes linked: "well_linked infos root" and key: "key \<in> dom infos" "key \<noteq> root" and k: "\<not> descends infos key k"
  shows "descends (cut infos key) k x \<longleftrightarrow> descends infos k x \<and> \<not> descends infos key x"
  using linked
proof (induction x rule: up_induct)
  case (node x)
  note up' = descends_up [OF cut_linked [OF linked key], of k x] and up = descends_up [OF linked, of k x]
  show ?case
  proof (cases "descends infos key x")
    case True
    then have "up (cut infos key) x = None" "x \<noteq> k" using k by (auto simp: cut_up)
    with up' True show ?thesis by simp
  next
    case False
    then have same: "up (cut infos key) x = up infos x" by (simp add: cut_up)
    have "\<not> descends infos key p" if "up infos x = Some p" for p using False that descends_up [OF linked, of key x] by auto
    with node.IH up up' same False show ?thesis by auto
  qed
qed

lemma cut_node_ok:
  assumes linked: "well_linked infos root" and key: "key \<in> dom infos" "key \<noteq> root"
    and k: "\<not> descends infos key k" "\<not> descends infos k key" and ok: "node_ok infos k"
  shows "node_ok (cut infos key) k"
proof -
  let ?C = "cut infos key"
  have here: "?C k = infos k" by (rule cut_same [OF k])
  have kids: "same_kids infos ?C k"
    unfolding same_kids_def
  proof
    have "key \<notin> kids infos k" using k(2) descends_kid [of key infos k key] by auto
    then show "kids ?C k = kids infos k" using k(1) by (simp add: cut_kids)
    show "\<forall>c \<in> kids infos k. ?C c = infos c"
    proof
      fix c
      assume c: "c \<in> kids infos k"
      have "c \<noteq> key" using c \<open>key \<notin> kids infos k\<close> by auto
      then have "\<not> descends infos key c" using c k(1) descends_up [OF linked, of key c] linked_kids [OF linked, of c k] by auto
      moreover have "\<not> descends infos c key" using k(2) descends_kid [OF c] by blast
      ultimately show "?C c = infos c" by (rule cut_same)
    qed
  qed
  have best: "descends infos k (best_slot (info_of infos k))" using ok by (simp add: node_ok_def)
  have "\<not> descends infos key (best_slot (info_of infos k))"
    using best k descends_linear [OF linked best, of key] by blast
  with best cut_descends [OF linked key k(1)] have "descends ?C k (best_slot (info_of ?C k))" by (simp add: here)
  then show ?thesis
    using ok summed_kept [OF kids] deepest_ok_kept [OF kids] best_ok_kept [OF kids] unfolding node_ok_def here by simp
qed

lemma cut_marks:
  assumes "well_linked infos root" and "key \<in> dom infos" "key \<noteq> root" and marks: "marks_ok infos"
  shows "marks_ok (cut infos key)"
  unfolding marks_ok_iff
proof (intro conjI ballI allI impI)
  fix k
  assume k: "k \<in> dom (cut infos key)"
  then have "k \<in> dom infos" by (simp add: cut_dom)
  with marks show "invalid_le (snd (marks_of (cut infos key) k)) (Some (key_slot k))"
      "fst (marks_of (cut infos key) k) \<Longrightarrow> snd (marks_of (cut infos key) k) = None"
    unfolding marks_ok_iff using cut_kept [OF k] by simp_all
next
  fix k p
  assume up: "up (cut infos key) k = Some p"
  have dom: "k \<in> dom (cut infos key)" "p \<in> dom (cut infos key)"
    using up_in_dom [OF up] linked_up [OF cut_linked [OF assms(1-3)] up] by simp_all
  have "up infos k = Some p" using up by (auto simp: cut_up split: if_splits)
  with marks show "invalid_le (snd (marks_of (cut infos key) p)) (snd (marks_of (cut infos key) k))"
      "fst (marks_of (cut infos key) k) \<Longrightarrow> fst (marks_of (cut infos key) p)"
    unfolding marks_ok_iff using cut_kept [OF dom(1)] cut_kept [OF dom(2)] by simp_all
qed

section \<open>Operations on a part of the map\<close>

lemma apply_operations_shape: "apply_operations infos l = Some infos' \<Longrightarrow> same_shape infos infos'"
proof (induction l arbitrary: infos)
  case (Cons e l)
  obtain k lab operation where e: "e = ((k, lab), operation)" by (metis surj_pair)
  show ?case
  proof (cases "infos k")
    case None
    with Cons e show ?thesis by (simp add: apply_operation_None)
  next
    case (Some info)
    with Cons.prems e obtain i1 where i1: "op_info infos k operation info = Some i1"
      and rest: "apply_operations (infos(k \<mapsto> i1)) l = Some infos'"
      by (auto simp: apply_operation_Some bind_eq_Some_conv)
    have "same_shape infos (infos(k \<mapsto> i1))"
      using op_info_links [OF i1] by (intro same_shape_update [of infos, OF Some]) simp_all
    with Cons.IH [OF rest] show ?thesis by (rule same_shape_trans [rotated])
  qed
qed simp

lemma apply_operations_frame:
  assumes "apply_operations small l = Some small'" and "well_linked small root"
    and "\<And>k. k \<in> dom small \<Longrightarrow> big k = small k" and "\<And>e. e \<in> set l \<Longrightarrow> fst (fst e) \<in> dom small"
  shows "apply_operations big l = Some (big ++ small')"
  using assms
proof (induction l arbitrary: small big)
  case Nil
  have "(big ++ small) x = big x" for x
    using Nil.prems(3) [of x] by (cases "small x") (simp_all add: map_add_def domIff)
  then have "big ++ small = big" by blast
  with Nil.prems(1) show ?case by simp
next
  case (Cons e l)
  obtain k lab operation where e: "e = ((k, lab), operation)" by (metis surj_pair)
  have "k \<in> dom small" using Cons.prems(4) [of e] e by simp
  then obtain info where info: "small k = Some info" by blast
  with Cons.prems(1) e obtain i1 where i1: "op_info small k operation info = Some i1"
    and rest: "apply_operations (small(k \<mapsto> i1)) l = Some small'"
    by (auto simp: apply_operation_Some bind_eq_Some_conv)
  have kids: "kids small k = children info" by (rule kids_Some [of small, OF info])
  have "op_info big k operation info = op_info small k operation info"
    using Cons.prems(3) kid_in_dom [OF Cons.prems(2), of _ k] finite_kids [OF Cons.prems(2), of k]
    by (intro op_info_cong) (auto simp: kids)
  then have step: "apply_operation big k operation = Some (big(k \<mapsto> i1))"
    using Cons.prems(3) [OF \<open>k \<in> dom small\<close>] info i1 by (simp add: apply_operation_Some)
  have shape: "same_shape small (small(k \<mapsto> i1))"
    using op_info_links [OF i1] by (intro same_shape_update [of small, OF info]) simp_all
  have linked: "well_linked (small(k \<mapsto> i1)) root" using Cons.prems(2) well_linked_same_shape [OF shape] by simp
  have "apply_operations (big(k \<mapsto> i1)) l = Some (big(k \<mapsto> i1) ++ small')"
  proof (rule Cons.IH [OF rest linked])
    show "(big(k \<mapsto> i1)) j = (small(k \<mapsto> i1)) j" if "j \<in> dom (small(k \<mapsto> i1))" for j
      using that Cons.prems(3) [of j] by (cases "j = k") simp_all
    show "fst (fst e) \<in> dom (small(k \<mapsto> i1))" if "e \<in> set l" for e using that Cons.prems(4) [of e] by simp
  qed
  moreover have "k \<in> dom small'" using apply_operations_shape [OF rest] by (simp add: same_shape_def)
  then have "big(k \<mapsto> i1) ++ small' = big ++ small'" by (auto simp: map_add_def fun_eq_iff split: option.splits)
  ultimately show ?case using step e by simp
qed

section \<open>Moving a subtree\<close>

lemma split_loop_list:
  assumes "\<And>c J S pending. c \<in> set cs \<Longrightarrow> (\<And>x. descends infos c x \<Longrightarrow> J x = infos x) \<Longrightarrow>
      split_loop J S (c # pending) =
        split_loop (J |` (- {x. descends infos c x})) (S ++ infos |` {x. descends infos c x}) pending"
    and "\<And>c d x. c \<in> set cs \<Longrightarrow> d \<in> set cs \<Longrightarrow> descends infos c x \<Longrightarrow> descends infos d x \<Longrightarrow> c = d"
    and "distinct cs" and "\<And>c x. c \<in> set cs \<Longrightarrow> descends infos c x \<Longrightarrow> J x = infos x"
  shows "split_loop J S (cs @ pending) =
    split_loop (J |` (- {x. \<exists>c \<in> set cs. descends infos c x})) (S ++ infos |` {x. \<exists>c \<in> set cs. descends infos c x}) pending"
  using assms
proof (induction cs arbitrary: J S)
  case (Cons c cs)
  let ?D = "{x. descends infos c x}" let ?E = "{x. \<exists>c \<in> set cs. descends infos c x}"
  have apart: "x \<notin> ?D" if "d \<in> set cs" "descends infos d x" for d x
    using Cons.prems(2) [of c d x] Cons.prems(3) that by auto
  have "split_loop J S ((c # cs) @ pending) = split_loop (J |` (- ?D)) (S ++ infos |` ?D) (cs @ pending)"
    using Cons.prems(1) [of c J] Cons.prems(4) [of c] by simp
  also have "\<dots> = split_loop (J |` (- ?D) |` (- ?E)) (S ++ infos |` ?D ++ infos |` ?E) pending"
  proof (rule Cons.IH)
    show "(J |` (- ?D)) x = infos x" if "d \<in> set cs" "descends infos d x" for d x
      using apart [OF that] Cons.prems(4) [of d x] that by simp
  qed (use Cons.prems in auto)
  also have "J |` (- ?D) |` (- ?E) = J |` (- {x. \<exists>c \<in> set (c # cs). descends infos c x})"
    by (auto simp: restrict_map_def fun_eq_iff)
  also have "S ++ infos |` ?D ++ infos |` ?E = S ++ infos |` {x. \<exists>c \<in> set (c # cs). descends infos c x}"
    by (auto simp: restrict_map_def map_add_def fun_eq_iff split: option.splits)
  finally show ?case .
qed (simp add: restrict_map_def)

lemma split_loop_node:
  assumes "well_linked infos root" and "k \<in> dom infos" and "\<And>x. descends infos k x \<Longrightarrow> J x = infos x"
  shows "split_loop J S (k # pending) =
    split_loop (J |` (- {x. descends infos k x})) (S ++ infos |` {x. descends infos k x}) pending"
  using assms
proof (induction k arbitrary: J S pending rule: tree_induct)
  case (node k)
  obtain info where info: "infos k = Some info" using node.hyps by blast
  let ?cs = "rev (sorted_list_of_set (children info))"
  let ?E = "{x. \<exists>c \<in> set ?cs. descends infos c x}"
  have cs: "set ?cs = kids infos k" using finite_kids [OF assms(1), of k] kids_Some [of infos, OF info] by simp
  have whole: "{x. descends infos k x} = insert k ?E" unfolding cs using descends_cases [of infos k] by auto
  have not_self: "\<not> descends infos c k" if "c \<in> kids infos k" for c using that by (rule kid_not_up [OF assms(1)])
  have "split_loop J S (k # pending) = split_loop (J(k := None)) (S(k \<mapsto> info)) (?cs @ pending)"
    using node.prems [of k] info by (subst split_loop.simps) simp
  also have "\<dots> = split_loop (J(k := None) |` (- ?E)) (S(k \<mapsto> info) ++ infos |` ?E) pending"
  proof (rule split_loop_list)
    show "c = d" if "c \<in> set ?cs" "d \<in> set ?cs" "descends infos c x" "descends infos d x" for c d x
      using kids_disjoint [OF assms(1)] that unfolding cs by blast
    show "(J(k := None)) x = infos x" if "c \<in> set ?cs" "descends infos c x" for c x
    proof -
      have "c \<in> kids infos k" using that(1) unfolding cs .
      with that(2) have "descends infos k x" "x \<noteq> k" using descends_kid not_self by auto
      with node.prems [of x] show ?thesis by simp
    qed
  qed (use node.IH cs in \<open>blast, simp\<close>)
  also have "J(k := None) |` (- ?E) = J |` (- {x. descends infos k x})"
    unfolding whole by (auto simp: restrict_map_def fun_eq_iff)
  also have "S(k \<mapsto> info) ++ infos |` ?E = S ++ infos |` {x. descends infos k x}"
    unfolding whole using info not_self cs by (auto simp: restrict_map_def map_add_def fun_eq_iff split: option.splits)
  finally show ?case .
qed

section \<open>Splitting\<close>

lemma retained_votes:
  assumes "k \<in> dom infos"
  shows "voted stake (retain_votes infos votes) k = voted stake votes k"
proof -
  have "retain_votes infos votes pubkey = Some k \<longleftrightarrow> votes pubkey = Some k" for pubkey
    using assms by (auto simp: retain_votes_def split: option.splits if_splits)
  then show ?thesis by (simp add: voted_def)
qed

lemma retained_stakes:
  assumes "finite (dom votes)" and "\<And>k. k \<in> dom infos \<Longrightarrow> stake_voted_at (info_of infos k) = voted stake votes k"
  shows "stakes_ok stake infos (retain_votes infos votes)"
proof -
  have "dom (retain_votes infos votes) \<subseteq> dom votes" by (auto simp: retain_votes_def split: option.splits)
  then have "finite (dom (retain_votes infos votes))" using assms(1) by (rule finite_subset)
  with assms(2) show ?thesis by (simp add: stakes_ok_def retained_votes)
qed

lemma unlink_eq:
  assumes linked: "well_linked infos root" and up: "up infos key = Some p"
  shows "\<exists>U. unlink infos p key = Some U \<and> (\<forall>k. U k = (if descends infos key k then infos k else cut infos key k))"
proof -
  obtain pinfo where pinfo: "infos p = Some pinfo" using linked_up [OF linked up] by blast
  let ?U = "infos(p \<mapsto> pinfo\<lparr>children := children pinfo - {key}\<rparr>)"
  have p: "\<not> descends infos key p" using kid_not_up [OF linked, of key p] up linked_kids [OF linked] by simp
  have "?U k = (if descends infos key k then infos k else cut infos key k)" for k
  proof (cases "k = p")
    case True
    with p pinfo show ?thesis by (simp add: cut_def)
  next
    case False
    then have "key \<notin> kids infos k" using linked_kids [OF linked, of key k] up by simp
    with False show ?thesis by (cases "infos k") (simp_all add: cut_def kids_def)
  qed
  with pinfo show ?thesis by (simp add: unlink_def)
qed

lemma strict_ancestor_dom:
  assumes "well_linked infos root" and "descends infos k key" and "k \<noteq> key"
  shows "k \<in> dom (cut infos key)"
proof -
  obtain c where c: "c \<in> kids infos k" using assms(2,3) descends_cases [of infos k key] by auto
  then have "k \<in> dom infos" by (auto simp: kids_def split: option.splits)
  with assms descends_antisym [OF assms(1)] show ?thesis by (auto simp: cut_dom)
qed

lemma split_operations:
  assumes linked: "well_linked infos root" and key: "key \<in> dom infos" "key \<noteq> root"
  shows "\<exists>ops. insert_aggregate_operations infos [] key = Some ops \<and> ops_ok (cut infos key) ops \<and>
    (\<forall>k. has_agg ops k \<longleftrightarrow> k \<noteq> key \<and> descends infos k key) \<and> (\<forall>k info. move_stake ops k info = info) \<and>
    (\<forall>e \<in> set ops. fst (fst e) \<in> dom (cut infos key))"
proof -
  obtain as where as: "ancestor_iterator infos key = Some as" using ancestor_iterator_ok [OF linked] by blast
  let ?ops = "insert_across None [] as"
  have "btree_ok ?ops \<and> map_of ?ops = with_aggs [] (set as)"
    by (rule insert_across_spec [OF linked as]) (simp_all add: agg_plain_def has_agg_def)
  then have tree: "btree_ok ?ops"
    and look: "map_of ?ops (k, lab) = (if lab = LabelAggregate \<and> k \<noteq> key \<and> descends infos k key then Some OpAggregate else None)" for k lab
    using ancestor_iterator_set [OF linked as] by (simp_all add: with_aggs_def)
  have entry: "snd (fst e) = LabelAggregate \<and> snd e = OpAggregate \<and> fst (fst e) \<noteq> key \<and> descends infos (fst (fst e)) key"
    if "e \<in> set ?ops" for e
    using that look [of "fst (fst e)" "snd (fst e)"] unfolding set_map_of [OF tree] by (auto split: if_splits)
  have entries: "vote_entry e" if "e \<in> set ?ops" for e using entry [OF that] by (cases e rule: vote_entry.cases) auto
  have agg: "has_agg ?ops k \<longleftrightarrow> k \<noteq> key \<and> descends infos k key" for k by (simp add: has_agg_def look)
  have closed: "p \<noteq> key \<and> descends infos p key"
    if "k \<noteq> key" "descends infos k key" "up (cut infos key) k = Some p" for k p
  proof -
    have up: "up infos k = Some p" using that(3) by (auto simp: cut_up split: if_splits)
    have "descends infos p key" using up linked_kids [OF linked, of k p] descends_kid that(2) by blast
    moreover have "p \<noteq> key"
      using linked_up [OF linked up] descends_le [OF linked that(2)] by auto
    ultimately show ?thesis by blast
  qed
  have "has_agg ?ops p" if "map_of ?ops (k, lab) \<noteq> None" "up (cut infos key) k = Some p" for k lab p
    unfolding agg using that(1) closed [OF _ _ that(2)] look [of k lab] by (simp split: if_splits)
  with tree entries have "ops_ok (cut infos key) ?ops" unfolding ops_ok_def by blast
  moreover have "insert_aggregate_operations infos [] key = Some ?ops" by (simp add: insert_aggregate_operations_def as)
  moreover have "move_stake ?ops k info = info" for k info by (simp add: move_stake_def added_def removed_def look)
  ultimately show ?thesis using agg entry strict_ancestor_dom [OF linked] by blast
qed

lemma split_aggregated:
  assumes linked: "well_linked infos root" and key: "key \<in> dom infos" "key \<noteq> root"
    and fields: "fields_ok infos" and marks: "marks_ok infos"
    and U: "\<And>k. U k = (if descends infos key k then infos k else cut infos key k)"
  shows "\<exists>ops C. insert_aggregate_operations infos [] key = Some ops \<and> process_update_operations U ops = Some (U ++ C) \<and>
    same_shape (cut infos key) C \<and> fields_ok C \<and>
    (\<forall>k \<in> dom C. stake_voted_at (info_of C k) = stake_voted_at (info_of infos k) \<and> marks_of C k = marks_of infos k \<and>
       (\<not> descends infos k key \<longrightarrow> C k = infos k))"
proof -
  note linked' = cut_linked [OF linked key]
  from split_operations [OF linked key] obtain ops where ops: "insert_aggregate_operations infos [] key = Some ops"
    "ops_ok (cut infos key) ops" "\<And>k. has_agg ops k \<longleftrightarrow> k \<noteq> key \<and> descends infos k key"
    "\<And>k info. move_stake ops k info = info" "\<And>e. e \<in> set ops \<Longrightarrow> fst (fst e) \<in> dom (cut infos key)" by blast
  have node: "node_ok (cut infos key) k" if k: "k \<in> dom (cut infos key)" "\<not> has_agg ops k" for k
  proof -
    have "k \<in> dom infos" "\<not> descends infos key k" using k(1) by (simp_all add: cut_dom)
    moreover from this k(2) have "\<not> descends infos k key" unfolding ops(3) by auto
    ultimately show ?thesis using cut_node_ok [OF linked key] fields_ok_node [OF fields] by blast
  qed
  from votes_processed [OF linked' cut_marks [OF linked key marks] ops(2) node] obtain C where
    run: "process_update_operations (cut infos key) ops = Some C" and shape: "same_shape (cut infos key) C" and "fields_ok C"
    and same: "\<forall>k info. cut infos key k = Some info \<and> \<not> has_agg ops k \<longrightarrow> C k = Some (move_stake ops k info)"
    and views: "\<forall>k \<in> dom (cut infos key). stake_voted_at (info_of C k) =
        stake_voted_at (info_of (cut infos key) k) - removed ops k + added ops k \<and>
       is_duplicate_confirmed (info_of C k) = is_duplicate_confirmed (info_of (cut infos key) k) \<and>
       latest_invalid_ancestor (info_of C k) = latest_invalid_ancestor (info_of (cut infos key) k)" by blast
  have zero: "stake - removed ops k + added ops k = stake" for k stake
    using arg_cong [OF ops(4) [of k "undefined\<lparr>stake_voted_at := stake\<rparr>"], of stake_voted_at] by (simp add: move_stake_def)
  have dom: "dom C = dom (cut infos key)" using shape by (simp add: same_shape_def)
  have "stake_voted_at (info_of C k) = stake_voted_at (info_of infos k) \<and> marks_of C k = marks_of infos k \<and>
      (\<not> descends infos k key \<longrightarrow> C k = infos k)" if k: "k \<in> dom C" for k
  proof -
    have k': "k \<in> dom (cut infos key)" "\<not> descends infos key k" using k by (simp_all add: dom cut_dom)
    have "C k = infos k" if no: "\<not> descends infos k key"
    proof -
      have "cut infos key k = infos k" by (rule cut_same [OF k'(2) no])
      moreover obtain info where "cut infos key k = Some info" using k'(1) by blast
      moreover have "\<not> has_agg ops k" using no ops(3) by simp
      ultimately show ?thesis using same ops(4) by metis
    qed
    with views cut_kept [OF k'(1)] k'(1) zero show ?thesis by (simp add: marks_of_def)
  qed
  moreover have "process_update_operations U ops = Some (U ++ C)"
    using run ops(5) unfolding process_update_operations_def
    by (intro apply_operations_frame [OF _ linked']) (auto simp: U cut_dom)
  ultimately show ?thesis using ops(1) shape \<open>fields_ok C\<close> by blast
qed

text \<open>A tree from which the subtrees at some blocks have been taken.\<close>

definition without :: "fork_tree \<Rightarrow> SlotHashKey set \<Rightarrow> fork_tree \<Rightarrow> bool" where
  "without infos P infos' \<longleftrightarrow> dom infos' = {k \<in> dom infos. \<forall>x \<in> P. \<not> descends infos x k} \<and>
     (\<forall>k \<in> dom infos'. kids infos' k = kids infos k - P \<and> up infos' k = up infos k \<and> marks_of infos' k = marks_of infos k \<and>
        ((\<forall>x \<in> P. \<not> descends infos k x) \<longrightarrow> infos' k = infos k))"

lemma split_map:
  assumes linked: "well_linked infos root" and key: "key \<in> dom infos"
    and U: "\<And>k. U k = (if descends infos key k then infos k else cut infos key k)"
    and C: "dom C = dom (cut infos key)"
  shows "split_loop (U ++ C) Map.empty [key] = Some (C, infos |` {k. descends infos key k})"
proof -
  have outside: "C k = None" if "descends infos key k" for k using that C by (auto simp: cut_dom)
  have inside: "cut infos key k = None" if "C k = None" for k using that C by auto
  have "split_loop (U ++ C) Map.empty [key] =
      split_loop ((U ++ C) |` (- {k. descends infos key k})) (Map.empty ++ infos |` {k. descends infos key k}) []"
    by (rule split_loop_node [OF linked key]) (simp add: U map_add_def outside)
  also have "(U ++ C) |` (- {k. descends infos key k}) = C"
    using outside inside by (auto simp: restrict_map_def map_add_def U fun_eq_iff split: option.splits)
  also have "split_loop C (Map.empty ++ infos |` {k. descends infos key k}) [] = Some (C, infos |` {k. descends infos key k})"
    by (subst split_loop.simps) simp
  finally show ?thesis .
qed

lemma split_off_ok:
  assumes ok: "fork_choice_ok stake s" and key: "key \<in> dom (fork_infos s)" "key \<noteq> tree_root s"
  shows "\<exists>t s'. split_off s key = Some (t, s') \<and> fork_choice_ok stake t \<and> fork_choice_ok stake s' \<and>
    t = \<lparr>fork_infos = rooted (fork_infos s) key, latest_votes = retain_votes (rooted (fork_infos s) key) (latest_votes s), tree_root = key\<rparr> \<and>
    tree_root s' = tree_root s \<and> latest_votes s' = retain_votes (fork_infos s') (latest_votes s) \<and>
    without (fork_infos s) {key} (fork_infos s')"
proof -
  let ?I = "fork_infos s" let ?t = "rooted ?I key"
  have linked: "well_linked ?I (tree_root s)" and fields: "fields_ok ?I" and marks: "marks_ok ?I"
    and stakes: "finite (dom (latest_votes s))" "\<And>k. k \<in> dom ?I \<Longrightarrow> stake_voted_at (info_of ?I k) = voted stake (latest_votes s) k"
    using ok by (simp_all add: fork_choice_ok_def stakes_ok_def)
  obtain p where p: "up ?I key = Some p" using linked_top [OF linked key(1)] key(2) by auto
  obtain node pinfo where node: "?I key = Some node" "parent node = Some p" and pinfo: "?I p = Some pinfo" "key \<in> children pinfo"
    using p key(1) linked_up [OF linked p] linked_kids [OF linked, of key p] by (auto simp: up_def kids_def)
  from unlink_eq [OF linked p] obtain U where U: "unlink ?I p key = Some U"
    "\<And>k. U k = (if descends ?I key k then ?I k else cut ?I key k)" by blast
  from split_aggregated [OF linked key fields marks U(2)] obtain ops C where
    run: "insert_aggregate_operations ?I [] key = Some ops" "process_update_operations U ops = Some (U ++ C)"
    and shape: "same_shape (cut ?I key) C" and "fields_ok C"
    and kept: "\<And>k. k \<in> dom C \<Longrightarrow> stake_voted_at (info_of C k) = stake_voted_at (info_of ?I k) \<and>
      marks_of C k = marks_of ?I k \<and> (\<not> descends ?I k key \<longrightarrow> C k = ?I k)" by blast
  have dom: "dom C = dom (cut ?I key)" and views: "kids C = kids (cut ?I key)" "up C = up (cut ?I key)"
    using shape by (simp_all add: same_shape_def)
  have linked': "well_linked C (tree_root s)" using cut_linked [OF linked key] well_linked_same_shape [OF shape] by simp
  note moved = split_map [OF linked key(1) U(2) dom]
  have "p \<in> dom C"
    using strict_ancestor_dom [OF linked, of p key] p descends_up [OF linked, of p key] linked_up [OF linked p] dom by auto
  then obtain ci where ci: "C p = Some ci" by blast
  then have "key \<notin> children ci" using kids_Some [of C, OF ci] views(1) by (auto simp: cut_kids split: if_splits)
  with ci have again: "unlink C p key = Some C" by (auto simp: unlink_def)
  have root: "?I |` {k. descends ?I key k} ++ [key \<mapsto> node\<lparr>parent := None\<rparr>] = ?t" using node(1) by (simp add: rooted_def)
  let ?s = "s\<lparr>fork_infos := C, latest_votes := retain_votes C (latest_votes s)\<rparr>"
  let ?u = "\<lparr>fork_infos = ?t, latest_votes = retain_votes ?t (latest_votes s), tree_root = key\<rparr>"
  have "split_off s key = Some (?u, ?s)"
    using key(2) node pinfo run U(1) moved again root by (simp add: split_off_def Let_def)
  moreover have "fork_choice_ok stake ?u"
  proof -
    have "stake_voted_at (info_of ?t k) = voted stake (latest_votes s) k" if "k \<in> dom ?t" for k
      using that rooted_kept(2) [of ?I key k] stakes(2) [of k] descends_dom [OF linked _ key(1), of k]
      by (simp add: rooted_views(1) [OF linked key(1)])
    with rooted_linked [OF linked key(1)] rooted_fields [OF linked key(1) fields] rooted_marks [OF linked key(1) marks]
      retained_stakes [OF stakes(1)] show ?thesis by (simp add: fork_choice_ok_def)
  qed
  moreover have "fork_choice_ok stake ?s"
  proof -
    have sub: "k \<in> dom ?I" if "k \<in> dom C" for k using that by (simp add: dom cut_dom)
    have "marks_ok C"
      using cut_marks [OF linked key marks] kept cut_kept [of _ ?I key] dom by (intro marks_kept [OF shape]) (auto simp: marks_of_def intro: cut_linked [OF linked key])
    moreover have "stakes_ok stake C (retain_votes C (latest_votes s))"
      using kept sub stakes by (intro retained_stakes) auto
    ultimately show ?thesis using linked' \<open>fields_ok C\<close> by (simp add: fork_choice_ok_def)
  qed
  moreover have "without ?I {key} C"
    unfolding without_def using dom kept by (simp add: cut_dom views cut_kids cut_up)
  ultimately show ?thesis by (intro exI [of _ ?u] exI [of _ ?s]) simp
qed

end
