(* ===== verification/ForkChoicePrune.thy ===== *)
theory ForkChoicePrune
  imports ForkChoiceSplit
begin

text \<open>
  Pruning a tree to a new root. Blocks below the root in key order are purged, and each of their
  children above it starts a subtree that is split off. What is left are the descendants of the new root.
\<close>

section \<open>Trees without some subtrees\<close>

lemma without_empty [simp]: "without infos {} infos"
  by (simp add: without_def)

lemma without_descends:
  assumes linked: "well_linked infos root" and linked': "well_linked infos' root" and "without infos P infos'" and y: "y \<in> dom infos'"
  shows "descends infos' y k \<longleftrightarrow> descends infos y k \<and> k \<in> dom infos'"
  using linked
proof (induction k rule: up_induct)
  case (node k)
  show ?case
  proof (cases "k \<in> dom infos'")
    case True
    then have "up infos' k = up infos k" using assms(3) by (simp add: without_def)
    with True y node.IH linked_up [OF linked', of k] descends_up [OF linked, of y k] descends_up [OF linked', of y k]
    show ?thesis by auto
  next
    case False
    then show ?thesis using descends_dom [OF linked' _ y, of k] by blast
  qed
qed

lemma without_more:
  assumes linked: "well_linked infos root" and linked': "well_linked infos' root"
    and P: "without infos P infos'" and x: "x \<in> dom infos'" "without infos' {x} infos''"
  shows "without infos (insert x P) infos''"
proof -
  note desc = without_descends [OF linked linked' P]
  have dom': "dom infos'' = {k \<in> dom infos'. \<not> descends infos' x k}" using x(2) by (simp add: without_def)
  then have sub: "k \<in> dom infos'" if "k \<in> dom infos''" for k using that by simp
  have "dom infos'' = {k \<in> dom infos. \<forall>z \<in> insert x P. \<not> descends infos z k}"
    using P desc [OF x(1)] unfolding dom' without_def by auto
  moreover have "kids infos'' k = kids infos k - insert x P \<and> up infos'' k = up infos k \<and> marks_of infos'' k = marks_of infos k \<and>
      ((\<forall>z \<in> insert x P. \<not> descends infos k z) \<longrightarrow> infos'' k = infos k)" if k: "k \<in> dom infos''" for k
    using P x(2) k sub [OF k] desc [OF sub [OF k], of x] unfolding without_def by auto
  ultimately show ?thesis unfolding without_def by blast
qed

text \<open>A block away from the subtrees taken.\<close>

definition apart :: "fork_tree \<Rightarrow> SlotHashKey \<Rightarrow> SlotHashKey set \<Rightarrow> bool" where
  "apart infos k P \<longleftrightarrow> (\<forall>x \<in> P. \<not> descends infos k x \<and> \<not> descends infos x k)"

lemma apart_below:
  assumes linked: "well_linked infos root" and "without infos P infos'" and k: "k \<in> dom infos" and "apart infos k P"
    and x: "descends infos k x"
  shows "x \<in> dom infos'" and "infos' x = infos x"
proof -
  have "\<not> descends infos z x \<and> \<not> descends infos x z" if "z \<in> P" for z
    using that assms(4) x descends_linear [OF linked x, of z] descends_trans [OF x, of z] by (auto simp: apart_def)
  with assms(2) descends_dom [OF linked x k] show "x \<in> dom infos'" "infos' x = infos x" by (auto simp: without_def)
qed

lemma apart_rooted:
  assumes linked: "well_linked infos root" and linked': "well_linked infos' root" and P: "without infos P infos'"
    and k: "k \<in> dom infos" "apart infos k P"
  shows "rooted infos' k = rooted infos k"
proof -
  note below = apart_below [OF linked P k]
  have "descends infos' k x = descends infos k x" for x
    using without_descends [OF linked linked' P, of k x] below(1) [of k] below(1) [of x] by auto
  then show ?thesis using below(2) by (auto simp: rooted_def restrict_map_def fun_eq_iff)
qed

section \<open>The traversal\<close>

definition pruned_roots :: "fork_tree \<Rightarrow> SlotHashKey \<Rightarrow> SlotHashKey set" where
  "pruned_roots infos r = {x. r < x \<and> (\<exists>p. up infos x = Some p \<and> p < r)}"

definition purge_inv ::
    "(Slot \<Rightarrow> Pubkey \<Rightarrow> u64) \<Rightarrow> fork_tree \<Rightarrow> SlotHashKey \<Rightarrow> SlotHashKey set \<Rightarrow> Purge \<Rightarrow> bool" where
  "purge_inv stake infos root P acc \<longleftrightarrow> fork_choice_ok stake (purge_tree acc) \<and> tree_root (purge_tree acc) = root \<and>
     without infos P (fork_infos (purge_tree acc)) \<and> tree_root ` set (pruned_subtrees acc) = P \<and>
     (\<forall>t \<in> set (pruned_subtrees acc). fork_choice_ok stake t \<and> fork_infos t = rooted infos (tree_root t))"

definition purged_below ::
    "(Slot \<Rightarrow> Pubkey \<Rightarrow> u64) \<Rightarrow> fork_tree \<Rightarrow> SlotHashKey \<Rightarrow> SlotHashKey \<Rightarrow> (SlotHashKey \<Rightarrow> bool) \<Rightarrow> SlotHashKey set \<Rightarrow>
     Purge \<Rightarrow> Purge \<Rightarrow> bool" where
  "purged_below stake infos root r below P acc acc' \<longleftrightarrow>
     purge_inv stake infos root (P \<union> {x \<in> pruned_roots infos r. below x}) acc' \<and>
     (\<exists>ks. purged_slots acc' = purged_slots acc @ ks \<and> distinct ks \<and> set ks = {x. below x \<and> x < r}) \<and>
     purge_root acc' = (if below r then Some r else purge_root acc)"

lemma not_below_pruned:
  assumes linked: "well_linked infos root" and "r \<le> k" and "x \<in> pruned_roots infos r" and "descends infos k x"
  shows "x = k"
proof (rule ccontr)
  assume "x \<noteq> k"
  with assms(3,4) descends_up [OF linked, of k x] obtain p where p: "descends infos k p" "p < r"
    by (auto simp: pruned_roots_def)
  with descends_le [OF linked p(1)] key_less [of k p] assms(2) show False by auto
qed

lemma purge_pruned:
  assumes linked: "well_linked infos root" and inv: "purge_inv stake infos root P acc" and k: "k \<in> dom infos" "apart infos k P"
    and pruned: "k \<in> pruned_roots infos r"
  shows "\<exists>acc'. purge_loop r acc (k # pending) = purge_loop r acc' pending \<and>
    purged_below stake infos root r (descends infos k) P acc acc'"
proof -
  let ?s = "purge_tree acc" let ?J = "fork_infos ?s"
  have ok: "fork_choice_ok stake ?s" and root: "tree_root ?s = root" and P: "without infos P ?J"
    using inv by (simp_all add: purge_inv_def)
  have linked': "well_linked ?J root" using ok root by (simp add: fork_choice_ok_def)
  have above: "r < k" "k \<noteq> root" using pruned linked_top [OF linked k(1)] by (auto simp: pruned_roots_def)
  have "k \<in> dom ?J" using apart_below(1) [OF linked P k, of k] by simp
  from split_off_ok [OF ok this] above(2) root obtain t s' where
    split: "split_off ?s k = Some (t, s')" "fork_choice_ok stake t" "fork_choice_ok stake s'" "tree_root s' = root"
      "without ?J {k} (fork_infos s')" "fork_infos t = rooted ?J k" "tree_root t = k" by auto
  let ?acc = "acc\<lparr>purge_tree := s', pruned_subtrees := pruned_subtrees acc @ [t]\<rparr>"
  have only: "{x \<in> pruned_roots infos r. descends infos k x} = {k}"
    using not_below_pruned [OF linked, of r k] above(1) pruned by auto
  have "without infos (insert k P) (fork_infos s')" by (rule without_more [OF linked linked' P \<open>k \<in> dom ?J\<close> split(5)])
  then have "purge_inv stake infos root (insert k P) ?acc"
    using inv split apart_rooted [OF linked linked' P k] by (auto simp: purge_inv_def)
  moreover have "\<not> x < r" if "descends infos k x" for x
    using descends_le [OF linked that] above(1) key_less [of k x] by auto
  moreover have "\<not> descends infos k r" using descends_le [OF linked, of k r] above(1) key_less [of k r] by auto
  ultimately have "purged_below stake infos root r (descends infos k) P acc ?acc"
    unfolding purged_below_def only by auto
  moreover have "purge_loop r acc (k # pending) = purge_loop r ?acc pending"
    using above(1) split(1) by (subst purge_loop.simps) auto
  ultimately show ?thesis by blast
qed

lemma purged_below_trans:
  assumes "purged_below stake infos root r A P acc acc1"
    and "purged_below stake infos root r B (P \<union> {x \<in> pruned_roots infos r. A x}) acc1 acc2" and "\<And>x. A x \<Longrightarrow> \<not> B x"
  shows "purged_below stake infos root r (\<lambda>x. A x \<or> B x) P acc acc2"
proof -
  obtain ks ls where ks: "purged_slots acc1 = purged_slots acc @ ks" "distinct ks" "set ks = {x. A x \<and> x < r}"
    and ls: "purged_slots acc2 = purged_slots acc1 @ ls" "distinct ls" "set ls = {x. B x \<and> x < r}"
    using assms(1,2) by (auto simp: purged_below_def)
  have "purged_slots acc2 = purged_slots acc @ (ks @ ls)" "distinct (ks @ ls)" "set (ks @ ls) = {x. (A x \<or> B x) \<and> x < r}"
    using ks ls assms(3) by auto
  moreover have "P \<union> {x \<in> pruned_roots infos r. A x} \<union> {x \<in> pruned_roots infos r. B x} =
      P \<union> {x \<in> pruned_roots infos r. A x \<or> B x}" by auto
  ultimately show ?thesis using assms(1,2) unfolding purged_below_def by auto
qed

lemma purge_list:
  assumes "\<And>c P acc pending. c \<in> set cs \<Longrightarrow> purge_inv stake infos root P acc \<Longrightarrow> apart infos c P \<Longrightarrow>
      \<exists>acc'. purge_loop r acc (c # pending) = purge_loop r acc' pending \<and>
        purged_below stake infos root r (descends infos c) P acc acc'"
    and "\<And>c d x. c \<in> set cs \<Longrightarrow> d \<in> set cs \<Longrightarrow> descends infos c x \<Longrightarrow> descends infos d x \<Longrightarrow> c = d"
    and "distinct cs" and "purge_inv stake infos root P acc" and "\<And>c. c \<in> set cs \<Longrightarrow> apart infos c P"
  shows "\<exists>acc'. purge_loop r acc (cs @ pending) = purge_loop r acc' pending \<and>
    purged_below stake infos root r (\<lambda>x. \<exists>c \<in> set cs. descends infos c x) P acc acc'"
  using assms
proof (induction cs arbitrary: P acc)
  case Nil
  then show ?case by (auto simp: purged_below_def)
next
  case (Cons c cs)
  from Cons.prems(1) [of c P acc "cs @ pending"] Cons.prems(4,5) obtain acc1
    where acc1: "purge_loop r acc (c # cs @ pending) = purge_loop r acc1 (cs @ pending)"
      "purged_below stake infos root r (descends infos c) P acc acc1" by auto
  let ?P = "P \<union> {x \<in> pruned_roots infos r. descends infos c x}"
  have inv: "purge_inv stake infos root ?P acc1" using acc1(2) by (simp add: purged_below_def)
  have other: "\<not> descends infos d x" if "d \<in> set cs" "descends infos c x" for d x
    using Cons.prems(2) [of c d x] Cons.prems(3) that by auto
  have "apart infos d ?P" if d: "d \<in> set cs" for d
  proof -
    have "\<not> descends infos c d" using other [OF d, of d] by auto
    with Cons.prems(5) [of d] d other [OF d] descends_trans [of infos c _ d] show ?thesis unfolding apart_def by auto
  qed
  then have "\<exists>acc2. purge_loop r acc1 (cs @ pending) = purge_loop r acc2 pending \<and>
      purged_below stake infos root r (\<lambda>x. \<exists>c \<in> set cs. descends infos c x) ?P acc1 acc2"
    using Cons.prems(1,2,3) by (intro Cons.IH [OF _ _ _ inv]) simp_all
  then obtain acc2 where acc2: "purge_loop r acc1 (cs @ pending) = purge_loop r acc2 pending"
    "purged_below stake infos root r (\<lambda>x. \<exists>c \<in> set cs. descends infos c x) ?P acc1 acc2" by blast
  have "purged_below stake infos root r (\<lambda>x. descends infos c x \<or> (\<exists>c \<in> set cs. descends infos c x)) P acc acc2"
    using other by (intro purged_below_trans [OF acc1(2) acc2(2)]) blast
  with acc1(1) acc2(1) show ?case by auto
qed

lemma purge_node:
  assumes linked: "well_linked infos root" and "k \<in> dom infos" and "purge_inv stake infos root P acc" and "apart infos k P"
    and "r < k \<Longrightarrow> k \<in> pruned_roots infos r"
  shows "\<exists>acc'. purge_loop r acc (k # pending) = purge_loop r acc' pending \<and>
    purged_below stake infos root r (descends infos k) P acc acc'"
  using linked assms(2-5)
proof (induction k arbitrary: P acc pending rule: tree_induct)
  case (node k)
  consider "k = r" | "r < k" | "k < r" by (rule linorder_cases)
  then show ?case
  proof cases
    case 1
    have none: "{x \<in> pruned_roots infos r. descends infos r x} = {}"
      using not_below_pruned [OF linked, of r r] by (auto simp: pruned_roots_def)
    have "\<not> x < r" if "descends infos r x" for x using descends_le [OF linked that] key_less [of r x] by auto
    then have "purged_below stake infos root r (descends infos k) P acc (acc\<lparr>purge_root := Some r\<rparr>)"
      using node.prems(1) unfolding purged_below_def 1 none by (auto simp: purge_inv_def)
    moreover have "purge_loop r acc (k # pending) = purge_loop r (acc\<lparr>purge_root := Some r\<rparr>) pending"
      using 1 by (subst purge_loop.simps) simp
    ultimately show ?thesis by blast
  next
    case 2
    with node show ?thesis by (intro purge_pruned [OF linked]) auto
  next
    case 3
    let ?acc = "acc\<lparr>purged_slots := purged_slots acc @ [k]\<rparr>" let ?J = "fork_infos (purge_tree acc)"
    have P: "without infos P ?J" and inv: "purge_inv stake infos root P ?acc"
      using node.prems(1) by (simp_all add: purge_inv_def)
    have same: "?J k = infos k" using apart_below(2) [OF linked P node.hyps node.prems(2), of k] by simp
    obtain info where info: "infos k = Some info" using node.hyps by blast
    let ?cs = "rev (sorted_list_of_set (children info))"
    have cs: "set ?cs = kids infos k" using finite_kids [OF linked, of k] kids_Some [of infos, OF info] by simp
    have step: "purge_loop r acc (k # pending) = purge_loop r ?acc (?cs @ pending)"
      using 3 same info less_imp_neq [OF 3] by (subst purge_loop.simps) simp
    have pruned: "c \<in> pruned_roots infos r" if "c \<in> kids infos k" "r < c" for c
      using that 3 linked_kids [OF linked, of c k] by (auto simp: pruned_roots_def)
    have away: "apart infos c P" if c: "c \<in> kids infos k" for c
      using node.prems(2) descends_kid [OF c] descends_up [OF linked, of _ c] linked_kids [OF linked, of c k] c
      unfolding apart_def by (metis descends_refl option.inject)
    have "\<exists>acc'. purge_loop r ?acc (?cs @ pending) = purge_loop r acc' pending \<and>
        purged_below stake infos root r (\<lambda>x. \<exists>c \<in> set ?cs. descends infos c x) P ?acc acc'"
    proof (rule purge_list [OF _ _ _ inv])
      show "c = d" if "c \<in> set ?cs" "d \<in> set ?cs" "descends infos c x" "descends infos d x" for c d x
        using kids_disjoint [OF linked] that unfolding cs by blast
    qed (use cs node.IH pruned away in \<open>blast, simp, blast\<close>)
    then obtain acc' where acc': "purge_loop r ?acc (?cs @ pending) = purge_loop r acc' pending"
      "purged_below stake infos root r (\<lambda>x. \<exists>c \<in> kids infos k. descends infos c x) P ?acc acc'" unfolding cs by blast
    have none: "P \<union> {x \<in> pruned_roots infos r. x = k} = P" using 3 by (auto simp: pruned_roots_def)
    have "set [k] = {x. x = k \<and> x < r}" using 3 by auto
    then have self: "purged_below stake infos root r (\<lambda>x. x = k) P acc ?acc"
      using inv less_imp_neq [OF 3] unfolding purged_below_def none by (intro conjI exI [of _ "[k]"]) auto
    have "purged_below stake infos root r (\<lambda>x. x = k \<or> (\<exists>c \<in> kids infos k. descends infos c x)) P acc acc'"
      using acc'(2) kid_not_up [OF linked] by (intro purged_below_trans [OF self]) (simp only: none, blast)
    moreover have "(\<lambda>x. x = k \<or> (\<exists>c \<in> kids infos k. descends infos c x)) = descends infos k"
      using descends_cases [of infos k] by (auto simp: fun_eq_iff)
    ultimately show ?thesis using step acc'(1) by auto
  qed
qed

section \<open>Purging and pruning\<close>

lemma remove_slots_eq:
  "distinct ks \<Longrightarrow> set ks \<subseteq> dom infos \<Longrightarrow> remove_slots infos ks = Some (infos |` (- set ks))"
proof (induction ks arbitrary: infos)
  case (Cons k ks)
  then have "remove_slots (infos(k := None)) ks = Some (infos(k := None) |` (- set ks))" by (intro Cons.IH) auto
  moreover have "infos(k := None) |` (- set ks) = infos |` (- set (k # ks))" by (auto simp: restrict_map_def fun_eq_iff)
  ultimately show ?case using Cons.prems(2) by auto
qed (simp add: restrict_map_def)

lemma purge_covers:
  assumes linked: "well_linked infos root" and "root \<le> r" and "k \<in> dom infos" and "\<not> k < r"
  shows "descends infos r k \<or> (\<exists>x \<in> pruned_roots infos r. descends infos x k)"
  using linked assms(3,4)
proof (induction k rule: up_induct)
  case (node k)
  consider "k = r" | "r < k" using node.prems(2) by (metis linorder_neqE)
  then show ?case
  proof cases
    case 2
    with assms(2) have "k \<noteq> root" by auto
    then obtain p where p: "up infos k = Some p" using linked_top [OF linked node.prems(1)] by auto
    show ?thesis
    proof (cases "p < r")
      case True
      with 2 p have "k \<in> pruned_roots infos r" by (simp add: pruned_roots_def)
      then show ?thesis using descends_refl by blast
    next
      case False
      with node.IH [OF p] linked_up [OF linked p] p descends_up [OF linked, of _ k] show ?thesis by blast
    qed
  qed simp
qed

lemma root_apart_pruned:
  assumes linked: "well_linked infos root"
  shows "apart infos r (pruned_roots infos r)"
  unfolding apart_def
proof (intro ballI conjI notI)
  fix x
  assume x: "x \<in> pruned_roots infos r"
  then have "r < x" by (simp add: pruned_roots_def)
  then show False if "descends infos r x" using not_below_pruned [OF linked _ x that] by simp
  show False if "descends infos x r" using descends_le [OF linked that] key_less [of x r] \<open>r < x\<close> by auto
qed

lemma purge_loop_all:
  assumes ok: "fork_choice_ok stake s" and root: "tree_root s \<le> r"
  shows "\<exists>acc. purge_loop r \<lparr>purge_tree = s, purged_slots = [], pruned_subtrees = [], purge_root = None\<rparr> [tree_root s] = Some acc \<and>
    purge_inv stake (fork_infos s) (tree_root s) (pruned_roots (fork_infos s) r) acc \<and> distinct (purged_slots acc) \<and>
    set (purged_slots acc) = {k \<in> dom (fork_infos s). k < r} \<and>
    purge_root acc = (if r \<in> dom (fork_infos s) then Some r else None)"
proof -
  let ?I = "fork_infos s" let ?P = "pruned_roots ?I r"
  let ?acc = "\<lparr>purge_tree = s, purged_slots = [], pruned_subtrees = [], purge_root = None\<rparr>"
  have linked: "well_linked ?I (tree_root s)" using ok by (simp add: fork_choice_ok_def)
  have all: "descends ?I (tree_root s) k \<longleftrightarrow> k \<in> dom ?I" for k
    using root_descends [OF linked] descends_dom [OF linked _ linked_root [OF linked]] by blast
  have "purge_inv stake ?I (tree_root s) {} ?acc" using ok by (simp add: purge_inv_def)
  moreover have "apart ?I (tree_root s) {}" by (simp add: apart_def)
  moreover have "r < tree_root s \<Longrightarrow> tree_root s \<in> ?P" using root by simp
  ultimately obtain acc where "purge_loop r ?acc [tree_root s] = purge_loop r acc []"
    and below: "purged_below stake ?I (tree_root s) r (descends ?I (tree_root s)) {} ?acc acc"
    using purge_node [OF linked linked_root [OF linked]] by blast
  then have "purge_loop r ?acc [tree_root s] = Some acc" by (simp add: purge_loop.simps [of r acc "[]"])
  moreover have "{x \<in> ?P. descends ?I (tree_root s) x} = ?P" using up_in_dom by (auto simp: all pruned_roots_def)
  ultimately show ?thesis using below by (auto simp: purged_below_def all)
qed

lemma purge_remove:
  assumes linked: "well_linked infos root" and root: "root \<le> r" and P: "without infos (pruned_roots infos r) J"
    and ks: "distinct ks" "set ks = {k \<in> dom infos. k < r}"
  shows "remove_slots J ks = Some (J |` {k. descends infos r k})"
proof -
  have dom: "dom J = {k \<in> dom infos. \<forall>x \<in> pruned_roots infos r. \<not> descends infos x k}" using P by (simp add: without_def)
  have "\<not> descends infos x k" if "k < r" "x \<in> pruned_roots infos r" for k x
    using that descends_le [OF linked, of x k] key_less [of x k] by (auto simp: pruned_roots_def)
  then have "set ks \<subseteq> dom J" using ks(2) by (auto simp: dom)
  then have "remove_slots J ks = Some (J |` (- set ks))" by (rule remove_slots_eq [OF ks(1)])
  also have "J |` (- set ks) = J |` {k. descends infos r k}"
  proof
    fix k
    have "descends infos r k \<longleftrightarrow> \<not> k < r" if "k \<in> dom J"
      using that purge_covers [OF linked root, of k] descends_le [OF linked, of r k] key_less [of r k] by (auto simp: dom)
    moreover have "k \<in> dom infos" if "k \<in> dom J" using that by (simp add: dom)
    ultimately show "(J |` (- set ks)) k = (J |` {k. descends infos r k}) k"
      by (cases "k \<in> dom J") (auto simp: restrict_map_def ks(2) domIff)
  qed
  finally show ?thesis .
qed

lemma purge_prune_ok:
  assumes ok: "fork_choice_ok stake s" and root: "tree_root s \<le> r"
  shows "\<exists>purged pruned s'. purge_prune s r = Some (purged, pruned, s') \<and>
    set purged = {k \<in> dom (fork_infos s). k < r} \<and> tree_root ` set pruned = pruned_roots (fork_infos s) r \<and>
    (\<forall>t \<in> set pruned. fork_choice_ok stake t \<and> fork_infos t = rooted (fork_infos s) (tree_root t)) \<and>
    (if r \<in> dom (fork_infos s) then fork_choice_ok stake s' \<and> fork_infos s' = rooted (fork_infos s) r \<and> tree_root s' = r
     else fork_infos s' = Map.empty \<and> tree_root s' = tree_root s)"
proof -
  let ?I = "fork_infos s" let ?P = "pruned_roots ?I r"
  have linked: "well_linked ?I (tree_root s)" using ok by (simp add: fork_choice_ok_def)
  from purge_loop_all [OF assms] obtain acc where
    run: "purge_loop r \<lparr>purge_tree = s, purged_slots = [], pruned_subtrees = [], purge_root = None\<rparr> [tree_root s] = Some acc"
    and inv: "purge_inv stake ?I (tree_root s) ?P acc"
    and purged: "distinct (purged_slots acc)" "set (purged_slots acc) = {k \<in> dom ?I. k < r}"
    and found: "purge_root acc = (if r \<in> dom ?I then Some r else None)" by blast
  let ?s = "purge_tree acc" let ?J = "fork_infos ?s"
  have tree: "fork_choice_ok stake ?s" "tree_root ?s = tree_root s" "without ?I ?P ?J" using inv by (simp_all add: purge_inv_def)
  then have linked': "well_linked ?J (tree_root s)" by (simp add: fork_choice_ok_def)
  note removed = purge_remove [OF linked root tree(3) purged] and apart = root_apart_pruned [OF linked, of r]
  show ?thesis
  proof (cases "r \<in> dom ?I")
    case True
    note same = apart_rooted [OF linked linked' tree(3) True apart] and below = apart_below(1) [OF linked tree(3) True apart]
    have r: "r \<in> dom ?J" using below [of r] by simp
    have "descends ?J r k = descends ?I r k" for k
      using without_descends [OF linked linked' tree(3) r, of k] below [of k] by auto
    moreover obtain info where info: "?J r = Some info" using r by blast
    ultimately have "(?J |` {k. descends ?I r k})(r \<mapsto> info\<lparr>parent := None\<rparr>) = rooted ?I r"
      using same by (simp add: rooted_def)
    moreover have "(?J |` {k. descends ?I r k}) r = Some info" using info by simp
    ultimately have "purge_prune s r = Some (purged_slots acc, pruned_subtrees acc, ?s\<lparr>fork_infos := rooted ?I r, tree_root := r\<rparr>)"
      using run removed found True by (simp add: purge_prune_def)
    with rooted_ok [OF tree(1) r] same inv purged(2) True show ?thesis by (auto simp: purge_inv_def)
  next
    case False
    then have "k = r" if "descends ?I r k" for k using that descends_cases [of ?I r k] by (auto simp: kids_def split: option.splits)
    moreover have "?J r = None" using False tree(3) by (auto simp: without_def)
    ultimately have "?J |` {k. descends ?I r k} = Map.empty" by (auto simp: restrict_map_def fun_eq_iff)
    then have "purge_prune s r = Some (purged_slots acc, pruned_subtrees acc, ?s\<lparr>fork_infos := Map.empty\<rparr>)"
      using run removed found False by (simp add: purge_prune_def)
    with inv purged(2) tree(2) False show ?thesis by (auto simp: purge_inv_def)
  qed
qed

lemma purge_prune_above:
  assumes "r < tree_root s"
  shows "purge_prune s r = None"
  using assms by (subst purge_prune_def, subst purge_loop.simps) (auto simp: split_off_def)

end
