(* ===== verification/ForkChoiceMerge.thy ===== *)
theory ForkChoiceMerge
  imports ForkChoicePrune
begin

text \<open>
  Merging a tree into another below one of its blocks: the blocks of the other tree are added as leaves in the order of
  their keys, in which parents come first, and its latest votes are added as votes.
\<close>

section \<open>Sequences of leaves\<close>

fun leaves_fit :: "SlotHashKey set \<Rightarrow> (SlotHashKey \<times> SlotHashKey) list \<Rightarrow> bool" where
  "leaves_fit D [] \<longleftrightarrow> True"
| "leaves_fit D ((key, p) # rest) \<longleftrightarrow> p \<in> D \<and> key \<notin> D \<and> key_slot p < key_slot key \<and> key \<noteq> default_key \<and>
     leaves_fit (insert key D) rest"

lemma leaves_fit_fresh: "leaves_fit D l \<Longrightarrow> k \<in> D \<Longrightarrow> k \<notin> fst ` set l"
  by (induction D l rule: leaves_fit.induct) auto

lemma add_leaves_ok:
  assumes "fork_choice_ok stake s" and "leaves_fit (dom (fork_infos s)) l" and "fst ` set l \<inter> ran (latest_votes s) = {}"
  shows "\<exists>s'. add_leaves s l = Some s' \<and> fork_choice_ok stake s' \<and> tree_root s' = tree_root s \<and>
    latest_votes s' = latest_votes s \<and> dom (fork_infos s') = dom (fork_infos s) \<union> fst ` set l \<and>
    up (fork_infos s') = up (fork_infos s) ++ map_of l"
  using assms
proof (induction l arbitrary: s)
  case (Cons e rest)
  obtain key p where e: "e = (key, p)" by fastforce
  have fits: "leaf_fits (fork_infos s) (tree_root s) key p"
    using Cons.prems(1,2) by (simp add: e leaf_fits_def fork_choice_ok_def)
  have "key \<notin> ran (latest_votes s)" using Cons.prems(3) by (auto simp: e)
  from add_new_leaf_slot_ok [OF Cons.prems(1) fits this] obtain s1 where s1: "add_new_leaf_slot s key (Some p) = Some s1"
    "fork_choice_ok stake s1" "tree_root s1 = tree_root s" "latest_votes s1 = latest_votes s"
    "same_links (grown (fork_infos s) key p) (fork_infos s1)" by blast
  from same_links_shape [OF s1(5)] grown_views [OF fits]
  have views: "dom (fork_infos s1) = insert key (dom (fork_infos s))" "up (fork_infos s1) = (up (fork_infos s))(key \<mapsto> p)"
    by (simp_all add: same_shape_def)
  have "leaves_fit (dom (fork_infos s1)) rest" "fst ` set rest \<inter> ran (latest_votes s1) = {}"
    using Cons.prems(2,3) by (auto simp: e views(1) s1(4))
  from Cons.IH [OF s1(2) this] obtain s2 where s2: "add_leaves s1 rest = Some s2" "fork_choice_ok stake s2"
    "tree_root s2 = tree_root s1" "latest_votes s2 = latest_votes s1"
    "dom (fork_infos s2) = dom (fork_infos s1) \<union> fst ` set rest" "up (fork_infos s2) = up (fork_infos s1) ++ map_of rest" by blast
  have "key \<notin> fst ` set rest" using Cons.prems(2) by (intro leaves_fit_fresh [of "insert key (dom (fork_infos s))"]) (simp_all add: e)
  then have "map_of rest key = None" by (simp add: map_of_eq_None_iff)
  then have "(up (fork_infos s))(key \<mapsto> p) ++ map_of rest = up (fork_infos s) ++ map_of (e # rest)"
    by (auto simp: e map_add_def fun_eq_iff split: option.splits)
  then have "up (fork_infos s2) = up (fork_infos s) ++ map_of (e # rest)" using s2(6) views(2) by (simp only:)
  moreover have "add_leaves s (e # rest) = Some s2" using s1(1) s2(1) by (simp add: e)
  moreover have "dom (fork_infos s2) = dom (fork_infos s) \<union> fst ` set (e # rest)" using s2(5) views(1) by (simp add: e)
  ultimately show ?case using s2(2,3,4) s1(3,4) by (intro exI [of _ s2]) (simp only: simp_thms)
qed simp

lemma leaves_fit_sorted:
  assumes "sorted_wrt (<) ks" and "set ks \<inter> D = {}" and "default_key \<notin> set ks"
    and "\<And>k. k \<in> set ks \<Longrightarrow> key_slot (par k) < key_slot k \<and> (par k \<in> D \<or> par k \<in> set ks)"
  shows "leaves_fit D (map (\<lambda>k. (k, par k)) ks)"
  using assms
proof (induction ks arbitrary: D)
  case (Cons k ks)
  have "par k \<notin> set (k # ks)"
    using Cons.prems(1) Cons.prems(4) [of k] key_less [of "par k" k] by auto
  then have here: "par k \<in> D" "key_slot (par k) < key_slot k" using Cons.prems(4) [of k] by auto
  have "leaves_fit (insert k D) (map (\<lambda>k. (k, par k)) ks)"
    using Cons.prems by (intro Cons.IH) auto
  with here Cons.prems(2,3) show ?case by auto
qed simp

section \<open>Merging\<close>

definition merge_fits :: "HeaviestSubtreeForkChoice \<Rightarrow> HeaviestSubtreeForkChoice \<Rightarrow> SlotHashKey \<Rightarrow> bool" where
  "merge_fits s other merge_leaf \<longleftrightarrow> merge_leaf \<in> dom (fork_infos s) \<and> key_slot merge_leaf < key_slot (tree_root other) \<and>
     dom (fork_infos other) \<inter> (dom (fork_infos s) \<union> ran (latest_votes s)) = {}"

lemma other_nodes:
  assumes linked: "well_linked infos root"
  shows "map_of (other_slots_nodes infos merge_leaf) = (up infos)(root \<mapsto> merge_leaf)"
    and "fst ` set (other_slots_nodes infos merge_leaf) = dom infos"
proof -
  have fin: "finite (dom infos)" by (rule linked_finite [OF linked])
  then show "fst ` set (other_slots_nodes infos merge_leaf) = dom infos" by (simp add: other_slots_nodes_def image_image)
  have par: "(case Option.bind (infos k) parent of Some p \<Rightarrow> p | None \<Rightarrow> merge_leaf) = (case up infos k of Some p \<Rightarrow> p | None \<Rightarrow> merge_leaf)" for k
    by (auto simp: up_def split: option.splits)
  have look: "map_of (map (\<lambda>k. (k, f k)) ks) k = (if k \<in> set ks then Some (f k) else None)" for f :: "SlotHashKey \<Rightarrow> SlotHashKey" and ks k
    by (induction ks) auto
  show "map_of (other_slots_nodes infos merge_leaf) = (up infos)(root \<mapsto> merge_leaf)"
  proof
    fix k
    show "map_of (other_slots_nodes infos merge_leaf) k = ((up infos)(root \<mapsto> merge_leaf)) k"
    proof (cases "k \<in> dom infos")
      case True
      then show ?thesis using fin linked_top [OF linked True] linked_top [OF linked linked_root [OF linked]]
        by (auto simp: other_slots_nodes_def par look split: option.splits)
    next
      case False
      then have "up infos k = None" "k \<noteq> root" using linked_root [OF linked] by (auto simp: up_def split: option.splits)
      with False fin show ?thesis by (simp add: other_slots_nodes_def look)
    qed
  qed
qed

lemma other_nodes_fit:
  assumes linked: "well_linked infos root" and "merge_leaf \<in> D" and "key_slot merge_leaf < key_slot root" and "dom infos \<inter> D = {}"
  shows "leaves_fit D (other_slots_nodes infos merge_leaf)"
  unfolding other_slots_nodes_def
proof (rule leaves_fit_sorted)
  have fin: "finite (dom infos)" by (rule linked_finite [OF linked])
  show "sorted_wrt (<) (sorted_list_of_set (dom infos))" by simp
  show "set (sorted_list_of_set (dom infos)) \<inter> D = {}" using fin assms(4) by simp
  show "default_key \<notin> set (sorted_list_of_set (dom infos))" using fin linked_default [OF linked] by simp
  fix k
  assume "k \<in> set (sorted_list_of_set (dom infos))"
  then have k: "k \<in> dom infos" using fin by simp
  let ?p = "case Option.bind (infos k) parent of Some p \<Rightarrow> p | None \<Rightarrow> merge_leaf"
  have p: "?p = (case up infos k of Some p \<Rightarrow> p | None \<Rightarrow> merge_leaf)" by (auto simp: up_def split: option.splits)
  show "key_slot ?p < key_slot k \<and> (?p \<in> D \<or> ?p \<in> set (sorted_list_of_set (dom infos)))"
    unfolding p using fin assms(2,3) linked_top [OF linked k] linked_up [OF linked, of k] by (auto split: option.splits)
qed

lemma merge_ok:
  assumes ok: "fork_choice_ok (stake_of get_epoch epoch_stakes) s" and other: "fork_choice_ok stake other"
    and fits: "merge_fits s other merge_leaf" and votes: "distinct (map fst other_votes)"
  shows "\<exists>s'. merge s other merge_leaf other_votes get_epoch epoch_stakes = Some s' \<and>
    fork_choice_ok (stake_of get_epoch epoch_stakes) s' \<and> tree_root s' = tree_root s \<and>
    dom (fork_infos s') = dom (fork_infos s) \<union> dom (fork_infos other) \<and>
    up (fork_infos s') = up (fork_infos s) ++ (up (fork_infos other))(tree_root other \<mapsto> merge_leaf) \<and>
    latest_votes s' = record_votes (tree_root s) (latest_votes s) other_votes"
proof -
  let ?l = "other_slots_nodes (fork_infos other) merge_leaf"
  have linked: "well_linked (fork_infos other) (tree_root other)" using other by (simp add: fork_choice_ok_def)
  note nodes = other_nodes [OF linked, of merge_leaf]
  have "leaves_fit (dom (fork_infos s)) ?l" using fits by (intro other_nodes_fit [OF linked]) (auto simp: merge_fits_def)
  moreover have "fst ` set ?l \<inter> ran (latest_votes s) = {}" using fits by (auto simp: nodes merge_fits_def)
  ultimately obtain s1 where s1: "add_leaves s ?l = Some s1" "fork_choice_ok (stake_of get_epoch epoch_stakes) s1"
    "tree_root s1 = tree_root s" "latest_votes s1 = latest_votes s"
    "dom (fork_infos s1) = dom (fork_infos s) \<union> dom (fork_infos other)"
    "up (fork_infos s1) = up (fork_infos s) ++ (up (fork_infos other))(tree_root other \<mapsto> merge_leaf)"
    using add_leaves_ok [OF ok, of ?l] unfolding nodes by blast
  have "distinct (voters (tree_root s1) other_votes)" using votes by (simp add: voters_def distinct_map_filter)
  from add_votes_ok [OF s1(2) this] obtain best s2 where s2: "add_votes s1 other_votes get_epoch epoch_stakes = Some (best, s2)"
    "fork_choice_ok (stake_of get_epoch epoch_stakes) s2" "tree_root s2 = tree_root s1"
    "same_shape (fork_infos s1) (fork_infos s2)" "latest_votes s2 = record_votes (tree_root s1) (latest_votes s1) other_votes" by blast
  have "merge s other merge_leaf other_votes get_epoch epoch_stakes = Some s2"
    using fits s1(1) s2(1) by (auto simp: merge_def merge_fits_def)
  with s1 s2 show ?thesis by (simp add: same_shape_def)
qed

section \<open>Comparison by weight\<close>

lemma max_by_weight_heavier:
  assumes "a \<in> dom (fork_infos s)" and "b \<in> dom (fork_infos s)"
  shows "max_by_weight s a b = Some (if a = b then Equal else if heavier (fork_infos s) a b then Greater else Less)"
  using assms by (auto simp: max_by_weight_def get_stake_voted_subtree_def key_cmp_def heavier_def)

end
