(* ===== verification/ForkChoiceCorrect.thy ===== *)
theory ForkChoiceCorrect
  imports ForkChoiceMerge
begin

text \<open>
  Correctness of the fork choice: roots, the reachable states, and the specification of the best slot. From every block
  the best slot is found by descending into the heaviest candidate child, where the weight of a block is the stake of
  the validators whose latest vote is for the block or one of its descendants.
\<close>

section \<open>Runs\<close>

text \<open>
  The runs of a fork choice. Slots grow along a fork and no hash is the default one; a vote reaches the fork choice only
  for a block it has been told of, so that a new leaf has no votes.
\<close>

inductive fork_choice_run :: "(Slot \<Rightarrow> Epoch) \<Rightarrow> (Epoch \<rightharpoonup> Pubkey \<Rightarrow> u64) \<Rightarrow> HeaviestSubtreeForkChoice \<Rightarrow> bool"
  for get_epoch epoch_stakes where
  run_new: "root \<noteq> default_key \<Longrightarrow> HeaviestSubtreeForkChoice_new root = Some s \<Longrightarrow> fork_choice_run get_epoch epoch_stakes s"
| run_leaf: "fork_choice_run get_epoch epoch_stakes s \<Longrightarrow> contains_block s p \<Longrightarrow> key_slot p < key_slot leaf \<Longrightarrow>
    leaf \<noteq> default_key \<Longrightarrow> leaf \<notin> ran (latest_votes s) \<or> contains_block s leaf \<Longrightarrow>
    add_new_leaf_slot s leaf (Some p) = Some s' \<Longrightarrow> fork_choice_run get_epoch epoch_stakes s'"
| run_votes: "fork_choice_run get_epoch epoch_stakes s \<Longrightarrow>
    add_votes s pubkey_votes get_epoch epoch_stakes = Some (best, s') \<Longrightarrow> fork_choice_run get_epoch epoch_stakes s'"
| run_invalid: "fork_choice_run get_epoch epoch_stakes s \<Longrightarrow> mark_fork_invalid_candidate s key = Some s' \<Longrightarrow>
    fork_choice_run get_epoch epoch_stakes s'"
| run_valid: "fork_choice_run get_epoch epoch_stakes s \<Longrightarrow> mark_fork_valid_candidate s key = Some (confirmed, s') \<Longrightarrow>
    fork_choice_run get_epoch epoch_stakes s'"
| run_root: "fork_choice_run get_epoch epoch_stakes s \<Longrightarrow> set_tree_root s root = Some s' \<Longrightarrow>
    fork_choice_run get_epoch epoch_stakes s'"
| run_root_parent: "fork_choice_run get_epoch epoch_stakes s \<Longrightarrow> rp \<noteq> default_key \<Longrightarrow> rp \<notin> ran (latest_votes s) \<Longrightarrow>
    is_candidate s (tree_root s) = Some True \<Longrightarrow> add_root_parent s rp = Some s' \<Longrightarrow>
    fork_choice_run get_epoch epoch_stakes s'"
| run_split: "fork_choice_run get_epoch epoch_stakes s \<Longrightarrow> split_off s key = Some (t, s') \<Longrightarrow>
    fork_choice_run get_epoch epoch_stakes t"
| run_split_rest: "fork_choice_run get_epoch epoch_stakes s \<Longrightarrow> split_off s key = Some (t, s') \<Longrightarrow>
    fork_choice_run get_epoch epoch_stakes s'"
| run_pruned: "fork_choice_run get_epoch epoch_stakes s \<Longrightarrow> purge_prune s r = Some (purged, pruned, s') \<Longrightarrow> t \<in> set pruned \<Longrightarrow>
    fork_choice_run get_epoch epoch_stakes t"
| run_purged: "fork_choice_run get_epoch epoch_stakes s \<Longrightarrow> contains_block s r \<Longrightarrow>
    purge_prune s r = Some (purged, pruned, s') \<Longrightarrow> fork_choice_run get_epoch epoch_stakes s'"
| run_merge: "fork_choice_run get_epoch epoch_stakes s \<Longrightarrow> fork_choice_run get_epoch epoch_stakes other \<Longrightarrow>
    merge_fits s other merge_leaf \<Longrightarrow> distinct (map fst other_votes) \<Longrightarrow> map_of other_votes = latest_votes other \<Longrightarrow>
    merge s other merge_leaf other_votes get_epoch epoch_stakes = Some s' \<Longrightarrow> fork_choice_run get_epoch epoch_stakes s'"

lemma contains_block_iff: "contains_block s k \<longleftrightarrow> k \<in> dom (fork_infos s)"
  by (auto simp: contains_block_def)

lemma candidate_iff: "is_candidate s k = Some True \<longleftrightarrow> k \<in> dom (fork_infos s) \<and> info_is_candidate (info_of (fork_infos s) k)"
  by (auto simp: is_candidate_def)

lemma set_tree_root_dom:
  assumes "set_tree_root s r = Some s'"
  shows "r \<in> dom (fork_infos s)"
  using assms by (auto simp: set_tree_root_def Let_def bind_eq_Some_conv restrict_map_def split: if_splits option.splits)

lemma mark_valid_dom:
  assumes "mark_fork_valid_candidate s key = Some r"
  shows "key \<in> dom (fork_infos s)"
  using assms by (auto simp: mark_fork_valid_candidate_def bind_eq_Some_conv)

lemma split_off_dom:
  assumes "split_off s key = Some r"
  shows "key \<in> dom (fork_infos s)" and "key \<noteq> tree_root s"
  using assms by (auto simp: split_off_def bind_eq_Some_conv split: if_splits)

lemma purge_prune_root:
  assumes "purge_prune s r = Some x"
  shows "tree_root s \<le> r"
  using assms purge_prune_above [of r s] by (cases "r < tree_root s") auto

lemma fork_choice_run_ok:
  assumes "fork_choice_run get_epoch epoch_stakes s"
  shows "fork_choice_ok (stake_of get_epoch epoch_stakes) s"
  using assms
proof (induction rule: fork_choice_run.induct)
  case (run_new root s)
  with new_ok [of root "stake_of get_epoch epoch_stakes"] show ?case by auto
next
  case (run_leaf s p leaf s')
  show ?case
  proof (cases "contains_block s leaf")
    case True
    with run_leaf.hyps(6) run_leaf.IH show ?thesis by (simp add: add_new_leaf_slot_def contains_block_def)
  next
    case False
    with run_leaf have "leaf_fits (fork_infos s) (tree_root s) leaf p"
      by (auto simp: leaf_fits_def contains_block_iff fork_choice_ok_def)
    with add_new_leaf_slot_ok [OF run_leaf.IH, of leaf p] run_leaf False show ?thesis by auto
  qed
next
  case (run_votes s pubkey_votes best s')
  with add_votes_ok [OF run_votes.IH add_votes_voters [OF run_votes.hyps(2)]] show ?case by auto
next
  case (run_invalid s key s')
  show ?case
  proof (cases "fork_infos s key")
    case None
    with run_invalid show ?thesis by (simp add: mark_fork_invalid_candidate_def)
  next
    case (Some info)
    with run_invalid.hyps(2) have "\<not> is_duplicate_confirmed info" by (auto simp: mark_fork_invalid_candidate_def)
    with mark_fork_invalid_candidate_ok [OF run_invalid.IH Some] run_invalid.hyps(2) show ?thesis by auto
  qed
next
  case (run_valid s key confirmed s')
  with mark_fork_valid_candidate_ok [OF run_valid.IH mark_valid_dom [OF run_valid.hyps(2)]] show ?case by auto
next
  case (run_root s root s')
  with set_tree_root_ok [OF run_root.IH set_tree_root_dom [OF run_root.hyps(2)]]
    rooted_ok [OF run_root.IH set_tree_root_dom [OF run_root.hyps(2)]] show ?case by auto
next
  case (run_root_parent s rp s')
  then have "rp \<notin> dom (fork_infos s)" "key_slot rp < key_slot (tree_root s)"
    by (auto simp: add_root_parent_def split: if_splits)
  with add_root_parent_ok [OF run_root_parent.IH this] run_root_parent.hyps candidate_iff show ?case by auto
next
  case (run_split s key t s')
  with split_off_ok [OF run_split.IH split_off_dom [OF run_split.hyps(2)]] show ?case by auto
next
  case (run_split_rest s key t s')
  with split_off_ok [OF run_split_rest.IH split_off_dom [OF run_split_rest.hyps(2)]] show ?case by auto
next
  case (run_pruned s r purged pruned s' t)
  with purge_prune_ok [OF run_pruned.IH purge_prune_root [OF run_pruned.hyps(2)]] show ?case by auto
next
  case (run_purged s r purged pruned s')
  with purge_prune_ok [OF run_purged.IH purge_prune_root [OF run_purged.hyps(3)]] show ?case
    by (auto simp: contains_block_iff)
next
  case (run_merge s other merge_leaf other_votes s')
  with merge_ok [OF run_merge.IH run_merge.hyps(3,4)] show ?case by auto
qed

section \<open>The specification\<close>

text \<open>The stake of the validators whose latest vote is for a block or one of its descendants.\<close>

definition voted_below ::
    "(Slot \<Rightarrow> Pubkey \<Rightarrow> u64) \<Rightarrow> (SlotHashKey \<Rightarrow> SlotHashKey \<Rightarrow> bool) \<Rightarrow> (Pubkey \<rightharpoonup> SlotHashKey) \<Rightarrow> SlotHashKey \<Rightarrow> u64" where
  "voted_below stake desc votes k =
     (\<Sum>pubkey \<in> {pubkey. \<exists>x. votes pubkey = Some x \<and> desc k x}. stake (key_slot (the (votes pubkey))) pubkey)"

lemma subtree_weight:
  assumes ok: "fork_choice_ok stake s" and k: "k \<in> dom (fork_infos s)"
  shows "stake_voted_subtree (info_of (fork_infos s) k) = voted_below stake (descends (fork_infos s)) (latest_votes s) k"
proof -
  let ?I = "fork_infos s" let ?votes = "latest_votes s"
  have linked: "well_linked ?I (tree_root s)" and fields: "fields_ok ?I" and stakes: "stakes_ok stake ?I ?votes"
    using ok by (simp_all add: fork_choice_ok_def)
  let ?at = "\<lambda>k. {pubkey. ?votes pubkey = Some k}"
  let ?below = "\<lambda>k. {pubkey. \<exists>x. ?votes pubkey = Some x \<and> descends ?I k x}"
  let ?stake = "\<lambda>pubkey. stake (key_slot (the (?votes pubkey))) pubkey"
  have fin: "finite A" if "A \<subseteq> dom ?votes" for A using that stakes finite_subset by (auto simp: stakes_ok_def)
  show ?thesis using linked k
  proof (induction k rule: tree_induct)
    case (node k)
    have "?below k = ?at k \<union> (\<Union>c \<in> kids ?I k. ?below c)" unfolding descends_cases [of ?I k] by auto
    moreover have "?at k \<inter> (\<Union>c \<in> kids ?I k. ?below c) = {}" using kid_not_up [OF linked] by auto
    moreover have "finite (\<Union>c \<in> kids ?I k. ?below c)" "finite (?at k)" by (intro fin; auto)+
    ultimately have "sum ?stake (?below k) = sum ?stake (?at k) + sum ?stake (\<Union>c \<in> kids ?I k. ?below c)"
      by (simp add: sum.union_disjoint)
    also have "sum ?stake (\<Union>c \<in> kids ?I k. ?below c) = (\<Sum>c \<in> kids ?I k. sum ?stake (?below c))"
    proof (rule sum.UNION_disjoint)
      show "finite (kids ?I k)" by (rule finite_kids [OF linked])
      show "\<forall>c \<in> kids ?I k. finite (?below c)" by (intro ballI fin) auto
      show "\<forall>c \<in> kids ?I k. \<forall>d \<in> kids ?I k. c \<noteq> d \<longrightarrow> ?below c \<inter> ?below d = {}"
        using kids_disjoint [OF linked] by (auto; blast)
    qed
    also have "\<dots> = (\<Sum>c \<in> kids ?I k. stake_voted_subtree (info_of ?I c))"
      using node.IH by (intro sum.cong refl) (simp add: voted_below_def)
    also have "sum ?stake (?at k) = stake_voted_at (info_of ?I k)"
      using stakes node.hyps by (simp add: stakes_ok_def voted_def)
    finally show ?case using fields node.hyps by (simp add: voted_below_def fields_ok_def summed_def)
  qed
qed

text \<open>
  The greedy heaviest subtree: stop at a block without candidate children, otherwise continue with the
  candidate child of the greatest weight, the smaller one of two that weigh the same.
\<close>

inductive ghost :: "(SlotHashKey \<Rightarrow> SlotHashKey set) \<Rightarrow> (SlotHashKey \<Rightarrow> bool) \<Rightarrow> (SlotHashKey \<Rightarrow> u64) \<Rightarrow> SlotHashKey \<Rightarrow> SlotHashKey \<Rightarrow> bool"
  for children_of candidate weight where
  stop: "\<forall>c \<in> children_of k. \<not> candidate c \<Longrightarrow> ghost children_of candidate weight k k"
| descend: "c \<in> children_of k \<Longrightarrow> candidate c \<Longrightarrow>
    \<forall>d \<in> children_of k. candidate d \<longrightarrow> weight d < weight c \<or> weight d = weight c \<and> c \<le> d \<Longrightarrow>
    ghost children_of candidate weight c b \<Longrightarrow> ghost children_of candidate weight k b"

inductive_simps ghost_iff: "ghost children_of candidate weight k b"

lemma heaviest_iff:
  "heaviest infos ks c \<longleftrightarrow> c \<in> ks \<and> info_is_candidate (info_of infos c) \<and>
     (\<forall>d \<in> ks. info_is_candidate (info_of infos d) \<longrightarrow>
        stake_voted_subtree (info_of infos d) < stake_voted_subtree (info_of infos c) \<or>
        stake_voted_subtree (info_of infos d) = stake_voted_subtree (info_of infos c) \<and> c \<le> d)"
  by (auto simp: heaviest_def candidates_def heavier_def not_less le_less)

lemma ghost_best:
  assumes linked: "well_linked infos root" and fields: "fields_ok infos" and k: "k \<in> dom infos"
    and weights: "\<And>k. k \<in> dom infos \<Longrightarrow> stake_voted_subtree (info_of infos k) = w k"
    and cands: "\<And>k. k \<in> dom infos \<Longrightarrow> info_is_candidate (info_of infos k) = cand k"
  shows "cand k \<longrightarrow> ghost (kids infos) cand w k b = (best_slot (info_of infos k) = b)"
  using linked k
proof (induction k rule: tree_induct)
  case (node k)
  have kids: "stake_voted_subtree (info_of infos c) = w c" "info_is_candidate (info_of infos c) = cand c" if "c \<in> kids infos k" for c
    using weights cands kid_in_dom [OF linked that] by blast+
  show ?case
  proof
    assume "cand k"
    with fields node.hyps cands have best: "best_ok infos k" by (simp add: fields_ok_def)
    show "ghost (kids infos) cand w k b = (best_slot (info_of infos k) = b)"
    proof (cases "candidates infos (kids infos k) = {}")
      case True
      then have "\<forall>c \<in> kids infos k. \<not> cand c" using kids(2) by (auto simp: candidates_def)
      with best True show ?thesis by (auto simp: best_ok_def ghost_iff [of _ _ _ k])
    next
      case False
      with best obtain c where c: "heaviest infos (kids infos k) c" "best_slot (info_of infos k) = best_slot (info_of infos c)"
        by (auto simp: best_ok_def)
      have iff: "heaviest infos (kids infos k) d \<longleftrightarrow> d \<in> kids infos k \<and> cand d \<and>
          (\<forall>e \<in> kids infos k. cand e \<longrightarrow> w e < w d \<or> w e = w d \<and> d \<le> e)" for d
        by (simp add: heaviest_iff kids cong: conj_cong)
      from False kids(2) have "\<exists>c \<in> kids infos k. cand c" by (auto simp: candidates_def)
      then have "ghost (kids infos) cand w k b \<longleftrightarrow> (\<exists>d. heaviest infos (kids infos k) d \<and> ghost (kids infos) cand w d b)"
        unfolding ghost_iff [of _ _ _ k] iff by auto
      also have "\<dots> \<longleftrightarrow> ghost (kids infos) cand w c b"
        using c(1) heaviest_unique by blast
      also have "\<dots> \<longleftrightarrow> best_slot (info_of infos c) = b" using node.IH [of c] c(1) iff by blast
      finally show ?thesis using c(2) by simp
    qed
  qed
qed

text \<open>Descendants with their distance.\<close>

inductive below_by :: "(SlotHashKey \<Rightarrow> SlotHashKey set) \<Rightarrow> SlotHashKey \<Rightarrow> nat \<Rightarrow> SlotHashKey \<Rightarrow> bool" for children_of where
  here: "below_by children_of k 0 k"
| further: "c \<in> children_of k \<Longrightarrow> below_by children_of c n x \<Longrightarrow> below_by children_of k (Suc n) x"

inductive_simps below_by_iff: "below_by children_of k n x"

lemma deepest_below:
  assumes linked: "well_linked infos root" and fields: "fields_ok infos" and k: "k \<in> dom infos"
  shows "0 < height (info_of infos k) \<and> below_by (kids infos) k (height (info_of infos k) - 1) (deepest_slot (info_of infos k)) \<and>
    (\<forall>n x. below_by (kids infos) k n x \<longrightarrow> n < height (info_of infos k))"
  using linked k
proof (induction k rule: tree_induct)
  case (node k)
  have ok: "deepest_ok infos k" using fields node.hyps by (simp add: fields_ok_def)
  show ?case
  proof (cases "kids infos k = {}")
    case True
    with ok show ?thesis by (auto simp: deepest_ok_def below_by_iff [of _ k])
  next
    case False
    with ok obtain c where c: "deepest infos (kids infos k) c" "height (info_of infos k) = height (info_of infos c) + 1"
        "deepest_slot (info_of infos k) = deepest_slot (info_of infos c)" by (auto simp: deepest_ok_def)
    then have kid: "c \<in> kids infos k" by (simp add: deepest_def)
    note IH = node.IH [OF kid]
    from IH obtain h where h: "height (info_of infos c) = Suc h" by (cases "height (info_of infos c)") auto
    have "below_by (kids infos) k (Suc h) (deepest_slot (info_of infos c))"
      using IH h kid by (auto intro: below_by.further)
    moreover have "n < height (info_of infos c) + 1" if "below_by (kids infos) k n x" for n x
      using that
    proof (cases rule: below_by.cases)
      case (further d m)
      then have "m < height (info_of infos d)" using node.IH [of d] by blast
      moreover have "height (info_of infos d) \<le> height (info_of infos c)"
        using c(1) further by (auto simp: deepest_def deeper_def not_less)
      ultimately show ?thesis using further by simp
    qed simp
    ultimately show ?thesis using c(2,3) h by simp
  qed
qed

section \<open>An example\<close>

text \<open>A root with two children, and a vote for the second one.\<close>

definition demo_root :: SlotHashKey where "demo_root = SlotHashKey 1 7"
definition demo_left :: SlotHashKey where "demo_left = SlotHashKey 2 8"
definition demo_right :: SlotHashKey where "demo_right = SlotHashKey 3 9"

definition demo_stakes :: "Epoch \<rightharpoonup> Pubkey \<Rightarrow> u64" where "demo_stakes = [0 \<mapsto> (\<lambda>_. 5)]"

definition demo_tree :: "HeaviestSubtreeForkChoice option" where
  "demo_tree = do {
     s \<leftarrow> HeaviestSubtreeForkChoice_new demo_root;
     s \<leftarrow> add_new_leaf_slot s demo_left (Some demo_root);
     add_new_leaf_slot s demo_right (Some demo_root) }"

definition demo_voted :: "HeaviestSubtreeForkChoice option" where
  "demo_voted = do {
     s \<leftarrow> demo_tree;
     (_, s) \<leftarrow> add_votes s [(1, demo_right)] (\<lambda>_. 0) demo_stakes;
     Some s }"

lemmas demo_keys = demo_root_def demo_left_def demo_right_def

lemmas fork_eval = add_new_leaf_slot_def HeaviestSubtreeForkChoice_new_def new_leaf_info_def propagate_new_leaf_def
  is_best_child_def is_deepest_child_def propagate_best.simps propagate_deepest.simps info_is_candidate_def
  get_latest_invalid_ancestor_def less_SlotHashKey_def less_eq_SlotHashKey_def less_prod_def less_eq_prod_def
  get_best_slot_def is_candidate_def contains_block_def

lemmas fork_batch_eval = add_votes_def generate_vote_operations_def insert_stake_operation_def
  insert_aggregate_operations_def ancestor_iterator.simps do_insert_aggregate_operation_def
  process_update_operations_def aggregate_slot_def start_aggregation_def aggregate_child_def add_slot_stake_def
  best_overall_slot_def stake_of_def less_UpdateLabel_def less_eq_UpdateLabel_def

lemma demo_tree_eval:
  "map_option (\<lambda>s. (map_option height (fork_infos s demo_root), is_candidate s demo_right, contains_block s demo_left,
       map_option is_duplicate_confirmed (fork_infos s demo_root), tree_root s)) demo_tree =
     Some (Some 2, Some True, True, Some True, demo_root)"
  by (simp add: demo_tree_def demo_keys fork_eval)

lemma demo_voted_eval:
  "map_option (\<lambda>s. (is_candidate s demo_root, get_best_slot s demo_root)) demo_voted = Some (Some True, Some demo_right)"
  by (simp add: demo_voted_def demo_tree_def demo_keys fork_eval fork_batch_eval demo_stakes_def Let_def)

lemma leaf_run:
  assumes run: "fork_choice_run get_epoch epoch_stakes s" and votes: "latest_votes s = Map.empty"
    and p: "contains_block s p" and leaf: "\<not> contains_block s leaf" "key_slot p < key_slot leaf" "leaf \<noteq> default_key"
  shows "\<exists>s'. add_new_leaf_slot s leaf (Some p) = Some s' \<and> fork_choice_run get_epoch epoch_stakes s' \<and>
    latest_votes s' = Map.empty \<and> dom (fork_infos s') = insert leaf (dom (fork_infos s))"
proof -
  note ok = fork_choice_run_ok [OF run]
  have fits: "leaf_fits (fork_infos s) (tree_root s) leaf p"
    using ok p leaf by (simp add: leaf_fits_def contains_block_iff fork_choice_ok_def)
  have none: "leaf \<notin> ran (latest_votes s)" by (simp add: votes)
  from add_new_leaf_slot_ok [OF ok fits none] obtain s' where s': "add_new_leaf_slot s leaf (Some p) = Some s'"
    "latest_votes s' = latest_votes s" "same_links (grown (fork_infos s) leaf p) (fork_infos s')" by blast
  have "fork_choice_run get_epoch epoch_stakes s'" by (rule run_leaf [OF run p leaf(2,3) _ s'(1)]) (simp add: none)
  with s' votes grown_views(3) [OF fits] show ?thesis by (simp add: same_links_def)
qed

lemma demo_tree_run: "\<exists>s. demo_tree = Some s \<and> fork_choice_run get_epoch epoch_stakes s"
proof -
  have ne: "demo_root \<noteq> default_key" by (simp add: demo_keys default_key_def)
  from new_ok [OF ne] obtain s1 where s1: "HeaviestSubtreeForkChoice_new demo_root = Some s1"
    "fork_infos s1 = [demo_root \<mapsto> new_leaf_info demo_root None None]" "latest_votes s1 = Map.empty" by blast
  have "\<exists>s'. add_new_leaf_slot s1 demo_left (Some demo_root) = Some s' \<and> fork_choice_run get_epoch epoch_stakes s' \<and>
    latest_votes s' = Map.empty \<and> dom (fork_infos s') = insert demo_left (dom (fork_infos s1))"
    using s1 by (intro leaf_run run_new [OF ne s1(1)]) (simp_all add: contains_block_iff demo_keys default_key_def)
  then obtain s2 where s2: "add_new_leaf_slot s1 demo_left (Some demo_root) = Some s2"
    "fork_choice_run get_epoch epoch_stakes s2" "latest_votes s2 = Map.empty"
    "dom (fork_infos s2) = insert demo_left (dom (fork_infos s1))" by blast
  have "\<exists>s'. add_new_leaf_slot s2 demo_right (Some demo_root) = Some s' \<and> fork_choice_run get_epoch epoch_stakes s' \<and>
    latest_votes s' = Map.empty \<and> dom (fork_infos s') = insert demo_right (dom (fork_infos s2))"
    using s1 s2(3,4) by (intro leaf_run s2(2)) (simp_all add: contains_block_iff demo_keys default_key_def)
  with s1(1) s2(1) show ?thesis by (auto simp: demo_tree_def)
qed

lemma demo_voted_run: "\<exists>s. demo_voted = Some s \<and> fork_choice_run (\<lambda>_. 0) demo_stakes s"
proof -
  obtain s1 where s1: "demo_tree = Some s1" "fork_choice_run (\<lambda>_. 0) demo_stakes s1" using demo_tree_run by blast
  have "distinct (voters (tree_root s1) [(1, demo_right)])" by simp
  from add_votes_ok [OF fork_choice_run_ok [OF s1(2)] this] obtain best s2
    where s2: "add_votes s1 [(1, demo_right)] (\<lambda>_. 0) demo_stakes = Some (best, s2)" by blast
  have "demo_voted = Some s2" by (simp add: demo_voted_def s1(1) s2)
  with run_votes [OF s1(2) s2] show ?thesis by blast
qed

section \<open>Trees of banks\<close>

lemma add_new_leaf_slot_parent:
  assumes "add_new_leaf_slot s leaf (Some p) = Some s'" and "\<not> contains_block s leaf" and "p \<noteq> leaf"
  shows "contains_block s p"
  using assms by (auto simp: add_new_leaf_slot_def contains_block_def bind_eq_Some_conv)

lemma add_frozen_banks_run:
  assumes "fork_choice_run get_epoch epoch_stakes s" and "latest_votes s = Map.empty"
    and "\<And>k. contains_block s k \<Longrightarrow> key_slot k \<le> prev_slot"
    and "\<And>bank. bank \<in> set banks \<Longrightarrow> bank_parent_slot bank < bank_slot bank"
    and "add_frozen_banks root prev_slot s banks = Some s'"
  shows "fork_choice_run get_epoch epoch_stakes s' \<and> latest_votes s' = Map.empty"
  using assms
proof (induction banks arbitrary: s prev_slot)
  case (Cons bank banks)
  show ?case
  proof (cases "bank_slot bank > key_slot root")
    case False
    with Cons.prems Cons.IH [of s prev_slot] show ?thesis by (auto split: if_splits)
  next
    case True
    let ?k = "SlotHashKey (bank_slot bank) (bank_hash bank)"
    let ?p = "SlotHashKey (bank_parent_slot bank) (bank_parent_hash bank)"
    from True Cons.prems(5) obtain s1 where s1: "add_new_leaf_slot s ?k (Some ?p) = Some s1" "bank_slot bank > prev_slot"
      "bank_hash bank \<noteq> 0" and rest: "add_frozen_banks root (bank_slot bank) s1 banks = Some s'"
      by (auto simp: bind_eq_Some_conv split: if_splits)
    have new: "\<not> contains_block s ?k" using Cons.prems(3) [of ?k] s1(2) by auto
    have slots: "key_slot ?p < key_slot ?k" "?k \<noteq> default_key" using Cons.prems(4) [of bank] s1(3) by (simp_all add: default_key_def)
    then have p: "contains_block s ?p" by (intro add_new_leaf_slot_parent [OF s1(1) new]) auto
    from leaf_run [OF Cons.prems(1,2) p new slots] s1(1)
    have "fork_choice_run get_epoch epoch_stakes s1" "latest_votes s1 = Map.empty"
      and dom: "dom (fork_infos s1) = insert ?k (dom (fork_infos s))" by auto
    moreover have "key_slot k \<le> bank_slot bank" if "contains_block s1 k" for k
    proof (cases "contains_block s k")
      case True
      with Cons.prems(3) [OF True] s1(2) show ?thesis by simp
    next
      case False
      with that dom show ?thesis by (auto simp: contains_block_iff)
    qed
    ultimately show ?thesis using Cons.prems(4) rest by (intro Cons.IH) auto
  qed
qed simp

text \<open>The tree built from frozen banks is a state of a run.\<close>

lemma new_from_frozen_banks_run:
  assumes "root \<noteq> default_key" and "new_from_frozen_banks root banks = Some s"
    and "\<And>bank. bank \<in> set banks \<Longrightarrow> bank_parent_slot bank < bank_slot bank"
  shows "fork_choice_run get_epoch epoch_stakes s"
proof -
  from new_ok [OF assms(1)] obtain s0 where s0: "HeaviestSubtreeForkChoice_new root = Some s0"
    "fork_infos s0 = [root \<mapsto> new_leaf_info root None None]" "latest_votes s0 = Map.empty" by blast
  have "add_frozen_banks root (key_slot root) s0 banks = Some s" using assms(2) s0(1) by (simp add: new_from_frozen_banks_def)
  moreover have "key_slot k \<le> key_slot root" if "contains_block s0 k" for k
    using that s0(2) by (auto simp: contains_block_def split: if_splits)
  ultimately show ?thesis using add_frozen_banks_run [OF run_new [OF assms(1) s0(1)] s0(3)] assms(3) by blast
qed

lemma below_by_descends: "below_by (kids infos) k n x \<Longrightarrow> descends infos k x"
  by (induction rule: below_by.induct) (auto intro: descends_kid)

text \<open>The banks selected: the best block, and the best or deepest block on the fork of the last vote.\<close>

lemma select_forks_eq:
  assumes ok: "fork_choice_ok stake s" and best: "best_overall_slot s = Some best" "banks (key_slot best) = Some (key_hash best)"
    and vote: "contains_block s vote"
  shows "\<exists>key. select_forks s (Some vote) is_stray banks =
      Some (best, if banks (key_slot key) = Some (key_hash key) then Some key else None) \<and>
    descends (fork_infos s) vote key \<and> (is_candidate s vote = Some True \<longrightarrow> get_best_slot s vote = Some key) \<and>
    (is_candidate s vote = Some False \<longrightarrow> get_deepest_slot s vote = Some key)"
proof -
  obtain info where info: "fork_infos s vote = Some info" using vote by (auto simp: contains_block_def)
  have linked: "well_linked (fork_infos s) (tree_root s)" and fields: "fields_ok (fork_infos s)" using ok by (simp_all add: fork_choice_ok_def)
  have v: "vote \<in> dom (fork_infos s)" using info by blast
  have b: "descends (fork_infos s) vote (best_slot info)" using fields_ok_node [OF fields v] info by (simp add: node_ok_def)
  have d: "descends (fork_infos s) vote (deepest_slot info)"
    using deepest_below [OF linked fields v] info below_by_descends by fastforce
  let ?key = "if info_is_candidate info then best_slot info else deepest_slot info"
  have "select_forks s (Some vote) is_stray banks =
      Some (best, if banks (key_slot ?key) = Some (key_hash ?key) then Some ?key else None)"
    using best info by (auto simp: select_forks_def get_with_checked_hash_def heaviest_slot_on_same_voted_fork_def
        is_candidate_def get_best_slot_def get_deepest_slot_def split: option.splits bool.splits)
  with b d info show ?thesis
    by (intro exI [of _ ?key]) (auto simp: is_candidate_def get_best_slot_def get_deepest_slot_def)
qed

section \<open>When the operations return, and what the marks are\<close>

lemma add_votes_None_iff:
  assumes ok: "fork_choice_ok (stake_of get_epoch epoch_stakes) s"
  shows "add_votes s pubkey_votes get_epoch epoch_stakes = None \<longleftrightarrow> \<not> distinct (voters (tree_root s) pubkey_votes)"
proof (cases "distinct (voters (tree_root s) pubkey_votes)")
  case True
  from add_votes_ok [OF ok this] True show ?thesis by auto
next
  case False
  with add_votes_voters [of s pubkey_votes get_epoch epoch_stakes] show ?thesis
    by (cases "add_votes s pubkey_votes get_epoch epoch_stakes") auto
qed

lemma mark_invalid_None_iff:
  assumes ok: "fork_choice_ok stake s"
  shows "mark_fork_invalid_candidate s key = None \<longleftrightarrow> map_option is_duplicate_confirmed (fork_infos s key) = Some True"
proof (cases "fork_infos s key")
  case (Some info)
  then show ?thesis
    using mark_fork_invalid_candidate_ok [OF ok Some]
    by (cases "is_duplicate_confirmed info") (auto simp: mark_fork_invalid_candidate_def)
qed (simp add: mark_fork_invalid_candidate_def)

lemma mark_valid_None_iff:
  assumes ok: "fork_choice_ok stake s"
  shows "mark_fork_valid_candidate s key = None \<longleftrightarrow> \<not> contains_block s key"
proof (cases "contains_block s key")
  case True
  then have "key \<in> dom (fork_infos s)" by (simp add: contains_block_iff)
  from mark_fork_valid_candidate_ok [OF ok this] True show ?thesis by auto
next
  case False
  with mark_valid_dom [of s key] show ?thesis
    by (cases "mark_fork_valid_candidate s key") (auto simp: contains_block_iff)
qed

lemma set_tree_root_None_iff:
  assumes ok: "fork_choice_ok stake s"
  shows "set_tree_root s key = None \<longleftrightarrow> \<not> contains_block s key"
proof (cases "contains_block s key")
  case True
  then have "key \<in> dom (fork_infos s)" by (simp add: contains_block_iff)
  from set_tree_root_ok [OF ok this] True show ?thesis by simp
next
  case False
  with set_tree_root_dom [of s key] show ?thesis by (cases "set_tree_root s key") (auto simp: contains_block_iff)
qed

lemma add_new_leaf_slot_returns:
  assumes ok: "fork_choice_ok stake s" and "contains_block s key" "key_slot key < key_slot leaf" "leaf \<noteq> default_key"
    and votes: "leaf \<notin> ran (latest_votes s)"
  shows "add_new_leaf_slot s leaf (Some key) \<noteq> None"
proof (cases "contains_block s leaf")
  case True
  then show ?thesis by (simp add: add_new_leaf_slot_def contains_block_def)
next
  case False
  with assms have "leaf_fits (fork_infos s) (tree_root s) leaf key"
    by (simp add: leaf_fits_def contains_block_iff fork_choice_ok_def)
  with add_new_leaf_slot_ok [OF ok this votes] show ?thesis by auto
qed

lemma split_off_None_iff:
  assumes ok: "fork_choice_ok stake s"
  shows "split_off s key = None \<longleftrightarrow> key = tree_root s \<or> \<not> contains_block s key"
proof (cases "contains_block s key \<and> key \<noteq> tree_root s")
  case True
  then have "key \<in> dom (fork_infos s)" "key \<noteq> tree_root s" by (simp_all add: contains_block_iff)
  from split_off_ok [OF ok this] True show ?thesis by auto
next
  case False
  with split_off_dom [of s key] show ?thesis by (cases "split_off s key") (auto simp: contains_block_iff)
qed

lemma purge_prune_None_iff:
  assumes ok: "fork_choice_ok stake s"
  shows "purge_prune s r = None \<longleftrightarrow> r < tree_root s"
proof (cases "tree_root s \<le> r")
  case True
  from purge_prune_ok [OF ok True] obtain x where "purge_prune s r = Some x" by blast
  with True show ?thesis by simp
next
  case False
  then show ?thesis using purge_prune_above [of r s] by simp
qed

lemma same_shape_marks:
  assumes "same_shape (fork_infos s) (fork_infos s')" and "k \<in> dom (fork_infos s)"
  shows "\<exists>info'. fork_infos s' k = Some info' \<and>
    marks_of (fork_infos s') k = (is_duplicate_confirmed info', latest_invalid_ancestor info')"
proof -
  from assms have "k \<in> dom (fork_infos s')" by (simp add: same_shape_def)
  then obtain info' where "fork_infos s' k = Some info'" by blast
  then show ?thesis by (simp add: marks_of_def)
qed

lemma mark_invalid_reaches:
  assumes ok: "fork_choice_ok stake s" and info: "fork_infos s k = Some info"
    and run: "mark_fork_invalid_candidate s key = Some s'" "contains_block s key"
  shows "(is_candidate s' k = Some True \<longleftrightarrow> is_candidate s k = Some True \<and> \<not> descends (fork_infos s) key k) \<and>
    map_option is_duplicate_confirmed (fork_infos s' k) = map_option is_duplicate_confirmed (fork_infos s k) \<and>
    kids (fork_infos s') = kids (fork_infos s)"
proof -
  have k: "k \<in> dom (fork_infos s)" using info by blast
  obtain kinfo where kinfo: "fork_infos s key = Some kinfo" using run(2) by (auto simp: contains_block_def)
  then have "\<not> is_duplicate_confirmed kinfo" using run(1) by (auto simp: mark_fork_invalid_candidate_def)
  from mark_fork_invalid_candidate_ok [OF ok kinfo this] run(1)
  have shape: "same_shape (fork_infos s) (fork_infos s')" and marks: "marks_of (fork_infos s') k = invalidated (fork_infos s) key k"
    using k by auto
  from same_shape_marks [OF shape k] obtain info' where info': "fork_infos s' k = Some info'"
    "(is_duplicate_confirmed info', latest_invalid_ancestor info') = invalidated (fork_infos s) key k" using marks by auto
  then have "is_duplicate_confirmed info' = is_duplicate_confirmed info"
    "latest_invalid_ancestor info' = None \<longleftrightarrow> latest_invalid_ancestor info = None \<and> \<not> descends (fork_infos s) key k"
    using info by (simp_all add: invalidated_def)
  with info info'(1) shape show ?thesis by (auto simp: is_candidate_def info_is_candidate_def same_shape_def)
qed

lemma mark_valid_reaches:
  assumes ok: "fork_choice_ok stake s" and info: "fork_infos s k = Some info"
    and run: "mark_fork_valid_candidate s key = Some (confirmed, s')"
  shows "(is_candidate s' k = Some True \<longleftrightarrow> is_candidate s k = Some True \<or> descends (fork_infos s) k key \<or>
       descends (fork_infos s) key k \<and> (\<exists>slot. get_latest_invalid_ancestor s k = Some slot \<and> slot \<le> key_slot key)) \<and>
    (map_option is_duplicate_confirmed (fork_infos s' k) = Some True \<longleftrightarrow>
       map_option is_duplicate_confirmed (fork_infos s k) = Some True \<or> descends (fork_infos s) k key) \<and>
    (k \<in> set confirmed \<longleftrightarrow> descends (fork_infos s) k key \<and> map_option is_duplicate_confirmed (fork_infos s k) = Some False) \<and>
    kids (fork_infos s') = kids (fork_infos s)"
proof -
  have k: "k \<in> dom (fork_infos s)" using info by blast
  from mark_fork_valid_candidate_ok [OF ok mark_valid_dom [OF run]] run
  have shape: "same_shape (fork_infos s) (fork_infos s')" and marks: "marks_of (fork_infos s') k = validated (fork_infos s) key k"
    and confirmed: "set confirmed = {k. descends (fork_infos s) k key \<and> \<not> is_duplicate_confirmed (info_of (fork_infos s) k)}"
    using k by auto
  from same_shape_marks [OF shape k] obtain info' where info': "fork_infos s' k = Some info'"
    "(is_duplicate_confirmed info', latest_invalid_ancestor info') = validated (fork_infos s) key k" using marks by auto
  then have "is_duplicate_confirmed info' \<longleftrightarrow> is_duplicate_confirmed info \<or> descends (fork_infos s) k key"
    "latest_invalid_ancestor info' = None \<longleftrightarrow> latest_invalid_ancestor info = None \<or> descends (fork_infos s) k key \<or>
       descends (fork_infos s) key k \<and> (\<exists>slot. latest_invalid_ancestor info = Some slot \<and> slot \<le> key_slot key)"
    using info by (auto simp: validated_def invalid_le_def split: if_splits)
  with info info'(1) shape confirmed show ?thesis
    by (auto simp: is_candidate_def info_is_candidate_def same_shape_def get_latest_invalid_ancestor_def)
qed

section \<open>Properties\<close>

text \<open>C36: In every state a fork choice can reach, the best slot of a candidate block, and so the best overall slot
  when the root is a candidate, is the one the greedy heaviest subtree rule gives. The weight of a block in
  the rule is the stake of the validators whose latest vote is for the block or for a descendant; votes on invalid forks
  count for the ancestors of the fork, but an invalid fork is never entered.\<close>

theorem best_slot_is_ghost:
  assumes "fork_choice_run get_epoch epoch_stakes s" and "is_candidate s k = Some True"
  shows "get_best_slot s k = Some b \<longleftrightarrow>
    ghost (kids (fork_infos s)) (\<lambda>c. is_candidate s c = Some True)
      (voted_below (stake_of get_epoch epoch_stakes) (descends (fork_infos s)) (latest_votes s)) k b"
proof -
  note ok = fork_choice_run_ok [OF assms(1)]
  have linked: "well_linked (fork_infos s) (tree_root s)" and fields: "fields_ok (fork_infos s)"
    using ok by (simp_all add: fork_choice_ok_def)
  have k: "k \<in> dom (fork_infos s)" using assms(2) candidate_iff by blast
  have "is_candidate s k = Some True \<longrightarrow> ghost (kids (fork_infos s)) (\<lambda>c. is_candidate s c = Some True)
      (voted_below (stake_of get_epoch epoch_stakes) (descends (fork_infos s)) (latest_votes s)) k b =
      (best_slot (info_of (fork_infos s) k) = b)"
  proof (rule ghost_best [OF linked fields k])
    show "stake_voted_subtree (info_of (fork_infos s) c) =
        voted_below (stake_of get_epoch epoch_stakes) (descends (fork_infos s)) (latest_votes s) c"
      if "c \<in> dom (fork_infos s)" for c using subtree_weight [OF ok that] .
    show "info_is_candidate (info_of (fork_infos s) c) = (is_candidate s c = Some True)"
      if "c \<in> dom (fork_infos s)" for c using that candidate_iff [of s c] by simp
  qed
  moreover obtain info where "fork_infos s k = Some info" using k by blast
  ultimately show ?thesis using assms(2) by (simp add: get_best_slot_def)
qed

theorem best_slot_is_ghost_witness:
  "\<exists>s. demo_voted = Some s \<and> fork_choice_run (\<lambda>_. 0) demo_stakes s \<and> is_candidate s demo_root = Some True \<and>
     get_best_slot s demo_root = Some demo_right \<and>
     ghost (kids (fork_infos s)) (\<lambda>c. is_candidate s c = Some True)
       (voted_below (stake_of (\<lambda>_. 0) demo_stakes) (descends (fork_infos s)) (latest_votes s)) demo_root demo_right"
proof -
  obtain s where s: "demo_voted = Some s" "fork_choice_run (\<lambda>_. 0) demo_stakes s" using demo_voted_run by blast
  have eval: "is_candidate s demo_root = Some True" "get_best_slot s demo_root = Some demo_right"
    using demo_voted_eval unfolding s(1) by simp_all
  from best_slot_is_ghost [OF s(2) eval(1), of demo_right] s eval show ?thesis by blast
qed

text \<open>C37: In every state a fork choice can reach, the deepest slot of a block is a descendant of it as far
  below it as the height says, and no descendant is further below; invalid forks are not left out.\<close>

theorem deepest_slot_is_deepest:
  assumes "fork_choice_run get_epoch epoch_stakes s" and "fork_infos s k = Some info"
  shows "below_by (kids (fork_infos s)) k (height info - 1) (deepest_slot info) \<and>
    (\<forall>n x. below_by (kids (fork_infos s)) k n x \<longrightarrow> n < height info)"
  using fork_choice_run_ok [OF assms(1)] deepest_below [of "fork_infos s" "tree_root s" k] assms(2)
  by (auto simp: fork_choice_ok_def)

theorem deepest_slot_is_deepest_witness:
  "\<exists>s info. demo_tree = Some s \<and> fork_choice_run (\<lambda>_. 0) demo_stakes s \<and> fork_infos s demo_root = Some info \<and> height info = 2 \<and>
     below_by (kids (fork_infos s)) demo_root 1 (deepest_slot info) \<and>
     (\<forall>n x. below_by (kids (fork_infos s)) demo_root n x \<longrightarrow> n < 2)"
proof -
  obtain s where s: "demo_tree = Some s" "fork_choice_run (\<lambda>_. 0) demo_stakes s" using demo_tree_run by blast
  obtain info where info: "fork_infos s demo_root = Some info" "height info = 2" using demo_tree_eval unfolding s(1) by auto
  from deepest_slot_is_deepest [OF s(2) info(1)]
  have "below_by (kids (fork_infos s)) demo_root 1 (deepest_slot info)"
    "\<forall>n x. below_by (kids (fork_infos s)) demo_root n x \<longrightarrow> n < 2" by (simp_all add: info(2))
  with s info show ?thesis by blast
qed

text \<open>C38: In every state a fork choice can reach, no operation panics or fails to end within its contract.
  Adding votes panics exactly if a validator has two votes at or above the root, and records for every validator the vote that
  supersedes its latest one; marking a fork invalid panics exactly if the block is confirmed; marking it valid and setting a
  root panic exactly if the block is not in the tree; adding a leaf below a block of the tree never panics.\<close>

theorem fork_choice_returns:
  assumes "fork_choice_run get_epoch epoch_stakes s"
  shows "(add_votes s pubkey_votes get_epoch epoch_stakes = None \<longleftrightarrow> \<not> distinct (voters (tree_root s) pubkey_votes)) \<and>
    (\<forall>best s'. add_votes s pubkey_votes get_epoch epoch_stakes = Some (best, s') \<longrightarrow>
      best_overall_slot s' = Some best \<and> latest_votes s' = record_votes (tree_root s) (latest_votes s) pubkey_votes) \<and>
    (mark_fork_invalid_candidate s key = None \<longleftrightarrow> map_option is_duplicate_confirmed (fork_infos s key) = Some True) \<and>
    (mark_fork_valid_candidate s key = None \<longleftrightarrow> \<not> contains_block s key) \<and>
    (set_tree_root s key = None \<longleftrightarrow> \<not> contains_block s key) \<and>
    (contains_block s key \<and> key_slot key < key_slot leaf \<and> leaf \<noteq> default_key \<and> leaf \<notin> ran (latest_votes s) \<longrightarrow>
      add_new_leaf_slot s leaf (Some key) \<noteq> None)"
proof -
  note ok = fork_choice_run_ok [OF assms]
  have "best_overall_slot s' = Some best \<and> latest_votes s' = record_votes (tree_root s) (latest_votes s) pubkey_votes"
    if "add_votes s pubkey_votes get_epoch epoch_stakes = Some (best, s')" for best s'
    using add_votes_ok [OF ok add_votes_voters [OF that]] that by auto
  with add_votes_None_iff [OF ok] mark_invalid_None_iff [OF ok] mark_valid_None_iff [OF ok] set_tree_root_None_iff [OF ok]
    add_new_leaf_slot_returns [OF ok] show ?thesis by blast
qed

theorem fork_choice_returns_witness:
  "\<exists>s. demo_tree = Some s \<and> fork_choice_run (\<lambda>_. 0) demo_stakes s \<and>
     add_votes s [(1, demo_left), (1, demo_right)] (\<lambda>_. 0) demo_stakes = None \<and>
     mark_fork_invalid_candidate s demo_root = None \<and> mark_fork_valid_candidate s demo_left \<noteq> None \<and>
     set_tree_root s demo_left \<noteq> None"
proof -
  obtain s where s: "demo_tree = Some s" "fork_choice_run (\<lambda>_. 0) demo_stakes s" using demo_tree_run by blast
  have eval: "contains_block s demo_left" "tree_root s = demo_root"
    "map_option is_duplicate_confirmed (fork_infos s demo_root) = Some True" using demo_tree_eval unfolding s(1) by simp_all
  have "\<not> distinct (voters (tree_root s) [(1, demo_left), (1, demo_right)])" by (simp add: eval(2) demo_keys)
  with fork_choice_returns [OF s(2), of "[(1, demo_left), (1, demo_right)]" demo_root]
    fork_choice_returns [OF s(2), of _ demo_left] eval s show ?thesis by blast
qed

text \<open>C39: In every state a fork choice can reach, marking an unconfirmed block invalid takes exactly the block and its
  descendants out of the candidates and confirms nothing. Marking a block valid confirms exactly the block and its
  ancestors in addition, makes them candidates, and makes a descendant a candidate exactly if it was one or its latest invalid
  ancestor is not above the block. The ancestors reported are those that were not confirmed before. Neither changes the tree.\<close>

theorem marks_reach_exactly:
  assumes "fork_choice_run get_epoch epoch_stakes s" and "contains_block s k"
  shows "(mark_fork_invalid_candidate s key = Some s' \<and> contains_block s key \<longrightarrow>
      (is_candidate s' k = Some True \<longleftrightarrow> is_candidate s k = Some True \<and> \<not> descends (fork_infos s) key k) \<and>
      map_option is_duplicate_confirmed (fork_infos s' k) = map_option is_duplicate_confirmed (fork_infos s k) \<and>
      kids (fork_infos s') = kids (fork_infos s)) \<and>
    (mark_fork_valid_candidate s key = Some (confirmed, s') \<longrightarrow>
      (is_candidate s' k = Some True \<longleftrightarrow> is_candidate s k = Some True \<or> descends (fork_infos s) k key \<or>
         descends (fork_infos s) key k \<and> (\<exists>slot. get_latest_invalid_ancestor s k = Some slot \<and> slot \<le> key_slot key)) \<and>
      (map_option is_duplicate_confirmed (fork_infos s' k) = Some True \<longleftrightarrow>
         map_option is_duplicate_confirmed (fork_infos s k) = Some True \<or> descends (fork_infos s) k key) \<and>
      (k \<in> set confirmed \<longleftrightarrow> descends (fork_infos s) k key \<and> map_option is_duplicate_confirmed (fork_infos s k) = Some False) \<and>
      kids (fork_infos s') = kids (fork_infos s))"
proof -
  note ok = fork_choice_run_ok [OF assms(1)]
  from assms(2) obtain info where info: "fork_infos s k = Some info" by (auto simp: contains_block_def)
  show ?thesis using mark_invalid_reaches [OF ok info] mark_valid_reaches [OF ok info] by (intro conjI impI) blast+
qed

theorem marks_reach_exactly_witness:
  "\<exists>s s'. demo_tree = Some s \<and> fork_choice_run (\<lambda>_. 0) demo_stakes s \<and> mark_fork_invalid_candidate s demo_left = Some s' \<and>
     is_candidate s' demo_left \<noteq> Some True \<and> kids (fork_infos s') = kids (fork_infos s)"
proof -
  obtain s where s: "demo_tree = Some s" "fork_choice_run (\<lambda>_. 0) demo_stakes s" using demo_tree_run by blast
  have left: "contains_block s demo_left" using demo_tree_eval unfolding s(1) by simp
  have "map_option (\<lambda>s. map_option is_duplicate_confirmed (fork_infos s demo_left)) demo_tree = Some (Some False)"
    by (simp add: demo_tree_def demo_keys fork_eval)
  then obtain info where info: "fork_infos s demo_left = Some info" "\<not> is_duplicate_confirmed info" unfolding s(1) by auto
  from mark_fork_invalid_candidate_ok [OF fork_choice_run_ok [OF s(2)] info]
  obtain s' where s': "mark_fork_invalid_candidate s demo_left = Some s'" by blast
  have "is_candidate s' demo_left \<noteq> Some True" "kids (fork_infos s') = kids (fork_infos s)"
    using marks_reach_exactly [OF s(2) left, of demo_left s'] s' left by simp_all
  with s s' show ?thesis by blast
qed



end
