(* ===== verification/Spec2Isabelle.thy ===== *)
theory Spec2Isabelle
  imports FifoReachable BundleStage QosService BlockhashQueue RollingBitField StatusCache ThreadAwareLocks ShredMerkle ForkChoiceCorrect
begin

text \<open>
  Verification of the validator: the parts of it that decide which transactions may run together,
  what a block may cost, what the validator remembers of past transactions, and which fork it builds
  on.

  \<^bold>\<open>Parts and how they interact.\<close> Transactions reach a block in two ways. While a block is
  replayed, the unified scheduler orders its transactions. While a block is produced, the banking
  stage schedules buffered transactions over worker threads, using the thread-aware locks, and the
  bundle stage executes bundles, sequences of transactions that run together or not at all. Both
  reserve costs in the cost tracker of the block, lock accounts in the bank, execute, settle the costs
  and unlock; a bundle also holds locks of its own, which keep the banking stage away from accounts of
  bundles that wait. The bank refuses transactions with an old blockhash (blockhash queue) or that it
  has processed before (status cache, queried with the ancestors of the bank). Blocks are cut
  into shreds with a Merkle tree over each erasure batch, and entries have a Merkle tree of their own.
  The fork choice selects, from the votes of the validators, the block to build on.

  \<^bold>\<open>Conventions.\<close> Functions of the source are functions here, under the same names (a
  qualifier or suffix avoids clashes). A panic is \<^term>\<open>None\<close> of an option, a \<open>Result\<close> is a
  sum with the error on the left. Integers are words of their width with the wrapping arithmetic of the
  release profile, or natural numbers where the source checks, saturates or only counts
  elements in memory. Ordered maps are sorted association lists (\<open>btree\<close>) or sets traversed in order;
  hash maps are maps, or association lists where the order of iteration can be observed, so
  that theorems hold for every order. A mutex makes each operation under it a step;
  interleavings are sequences of steps, given as inductive predicates. Code of other crates (hash
  functions, parsers, decoders, slab keys, random numbers, clocks, program execution) is a parameter:
  a function argument or a field of an environment record. Loops whose end is not evident from
  their shape are partial functions into option, and the theorems on them state that they return;
  no bound on steps (fuel) is used anywhere.

  \<^bold>\<open>Theories.\<close>

  \<^item> \<^verbatim>\<open>Prelude\<close>: integers, the option monad, ordered maps with the locale
  \<open>ordered_map\<close> and its interpretation on sorted lists, lemma collections.
  \<^verbatim>\<open>Transactions\<close>: what is read of a transaction, and the errors.

  \<^item> \<^verbatim>\<open>UsageQueue\<close>, \<^verbatim>\<open>SchedulingMachine\<close>:
  \<^verbatim>\<open>unified-scheduler-logic/src/lib.rs\<close>, whole, for both the first-in-first-out and the
  priority capability. \<^verbatim>\<open>FifoScheduling\<close>, \<^verbatim>\<open>FifoMachine\<close>,
  \<^verbatim>\<open>FifoReachable\<close>: for the first-in-first-out capability the machine refines the list of active
  tasks in arrival order. Running tasks do not conflict, conflicting tasks run in order, there is no
  deadlock, no operation panics below \<open>2 ^ 31 - 1\<close> tasks (the range of the counters), and the
  machine can be cleared and reused.

  \<^item> \<^verbatim>\<open>LockTable\<close>: the locales \<open>lock_table\<close> and \<open>lock_step\<close>, the contract of a table that
  counts locks. \<^verbatim>\<open>AccountLocks\<close> (\<^verbatim>\<open>accounts-db/src/account_locks.rs\<close> and the
  locking of \<^verbatim>\<open>accounts.rs\<close>) and \<^verbatim>\<open>BundleAccountLocker\<close>
  (\<^verbatim>\<open>core/src/bundle_stage/bundle_account_locker.rs\<close>, and the check against it in
  \<^verbatim>\<open>core/src/banking_stage/consumer.rs\<close>) interpret it. \<^verbatim>\<open>TransactionBatch\<close>
  (\<^verbatim>\<open>runtime/src/transaction_batch.rs\<close>, locking of \<^verbatim>\<open>bank.rs\<close>): batches in
  flight do not conflict, exactly the grantable transactions are granted, and all locks are released.

  \<^item> \<^verbatim>\<open>TransactionContainer\<close>: the container of transaction states under
  \<^verbatim>\<open>core/src/banking_stage/transaction_scheduler/\<close>, and that it evicts the lowest priorities.
  \<^verbatim>\<open>BundleStorage\<close>, \<^verbatim>\<open>BundleStorageCorrect\<close>:
  \<^verbatim>\<open>core/src/bundle_stage/bundle_storage.rs\<close> and the packet checks; the invariant between queues
  and container, insertion all or nothing, the order of bundles. \<^verbatim>\<open>BundleStage\<close>: the loop of
  \<^verbatim>\<open>core/src/bundle_stage.rs\<close> with its window of locked bundles does what executing the
  bundles one by one does, and leaves no lock behind.

  \<^item> \<^verbatim>\<open>ComputeBudget\<close> (\<^verbatim>\<open>builtins-default-costs\<close>,
  \<^verbatim>\<open>compute-budget-instruction\<close>, \<^verbatim>\<open>compute-budget\<close>),
  \<^verbatim>\<open>CostModel\<close> and \<^verbatim>\<open>CostTracker\<close> (\<^verbatim>\<open>cost-model/src/\<close>),
  \<^verbatim>\<open>QosService\<close> (\<^verbatim>\<open>core/src/banking_stage/qos_service.rs\<close>): limits are exactly those
  requested or the defaults, the actual cost stays within the estimate, the tracker is the sum of what is
  pending and committed in every interleaving of batches, and a block stays within its limits.

  \<^item> \<^verbatim>\<open>BlockhashQueue\<close>, \<^verbatim>\<open>RollingBitField\<close>
  (\<^verbatim>\<open>accounts-db/src/\<close>), \<^verbatim>\<open>StatusCache\<close>
  (\<^verbatim>\<open>runtime/src/status_cache.rs\<close>): each answers as the full history, the set or the log it
  abbreviates would, within the range it keeps. The rolling bit field does so as long as keys slide
  upwards; \<open>unsliding_insert_forgets\<close> evaluates a run that does not, in which an item is forgotten, and
  \<open>get_prior_characterized\<close> says how item 0 is treated.

  \<^item> \<^verbatim>\<open>ThreadAwareLocks\<close>
  (\<^verbatim>\<open>scheduling-utils/src/thread_aware_account_locks.rs\<close>): batches queued on different threads
  do not conflict, and the threads offered are exactly the possible ones, for at most 64 threads.

  \<^item> \<^verbatim>\<open>MerkleTree\<close> (\<^verbatim>\<open>merkle-tree/src/merkle_tree.rs\<close>),
  \<^verbatim>\<open>ShredMerkle\<close> (\<^verbatim>\<open>ledger/src/shred/merkle_tree.rs\<close>): proofs lead to the
  root, a wrong proof that does exhibits a collision of the hasher, and errors are reported exactly. In
  trees built with sorted hashes paths do not verify with the verification function of the same file
  (\<open>sorted_path_rejected\<close>).

  \<^item> \<^verbatim>\<open>ForkChoice\<close> (\<^verbatim>\<open>core/src/consensus/heaviest_subtree_fork_choice.rs\<close> and
  \<^verbatim>\<open>tree_diff.rs\<close>): the tree of blocks with votes, new leaves, roots, duplicate marks, splitting,
  pruning and merging, and its use on banks (with the checked lookup of \<^verbatim>\<open>runtime/src/bank_forks.rs\<close>).
  \<^verbatim>\<open>ForkChoiceTree\<close>: links and aggregated fields. \<^verbatim>\<open>ForkChoiceBatch\<close>: batches of update
  operations. \<^verbatim>\<open>ForkChoiceUpdates\<close>, \<^verbatim>\<open>ForkChoiceMarks\<close>,
  \<^verbatim>\<open>ForkChoiceLeaves\<close>, \<^verbatim>\<open>ForkChoiceRoots\<close>, \<^verbatim>\<open>ForkChoiceSplit\<close>,
  \<^verbatim>\<open>ForkChoicePrune\<close>, \<^verbatim>\<open>ForkChoiceMerge\<close>: every operation keeps the invariant, and what it does
  to the tree. \<^verbatim>\<open>ForkChoiceCorrect\<close>: in
  every run the best block is the one of the greedy heaviest subtree rule for the latest votes, the
  deepest block is deepest, operations panic only on the stated misuse, marks reach exactly the blocks
  they should, and splitting, pruning and merging move exactly the subtrees they should. Runs start
  from a root other than the key of slot 0 with the default hash, which the source uses as a mark for no
  block. Weights are sums of 64 bit words, as in the source; nothing is assumed on the total stake.

  \<^bold>\<open>Not modelled, and why.\<close> Of the unified scheduler, whose priority capability is modelled,
  the properties are proved for first-in-first-out queues: reblocking gives priority queues a
  different order. Of consensus, the tower and the
  collection of the votes that reach the fork choice: both are arguments. Byte buffers
  of transaction views, metrics, timers, logs and code for tests in all parts. The rest of the
  validator is threads, channels, network and file I/O (banking stage threads, replay stage, repair,
  turbine, gossip, RPC, blockstore, accounts database, snapshots, clients, command line), or rests on
  external crates whose behaviour would have to be assumed in full: the virtual machine and its
  programs, signatures, erasure coding, serialization, vote states.
\<close>

end
